(* ===== verification/Prelude.thy ===== *)
theory Prelude
  imports Main "HOL-Library.List_Lexorder" "HOL-Library.Char_ord"
begin

text \<open>
  What every component of the development shares: the names of the model's basic types, the
  decimal digits that Go's \<open>strconv\<close> and \<open>time\<close> print and read, the order on strings, and facts
  on lists and association lists that the component theories use.

  A Go string is a sequence of bytes, which is what HOL's \<open>string\<close> (a list of 8-bit characters)
  is. The order on strings is the lexicographic order on bytes: Go's \<open><\<close>, \<open>sort.Strings\<close> and
  SQLite's BINARY collation all use it.
\<close>

type_synonym err = string
type_synonym 'a result = "err + 'a"

text \<open>
  The collections: \<open>wf_intros\<close> holds "this operation keeps that invariant" facts,
  \<open>text_simps\<close> the equations that evaluate the models of Go's text functions.
\<close>

named_theorems wf_intros \<open>operations keep the component's invariant\<close>
named_theorems text_simps \<open>rewriting the models of Go's text functions\<close>

section \<open>Decimal digits\<close>

definition digit_char :: "nat \<Rightarrow> char" where
  "digit_char d = char_of (48 + d)"

definition is_digit :: "char \<Rightarrow> bool" where
  "is_digit c \<longleftrightarrow> 48 \<le> (of_char c :: nat) \<and> (of_char c :: nat) \<le> 57"

definition digit_val :: "char \<Rightarrow> nat" where
  "digit_val c = of_char c - 48"

lemma of_char_digit_char [simp]: "d < 10 \<Longrightarrow> (of_char (digit_char d) :: nat) = 48 + d"
  by (simp add: digit_char_def)

lemma is_digit_digit_char [simp]: "d < 10 \<Longrightarrow> is_digit (digit_char d)"
  by (simp add: is_digit_def)

lemma digit_val_digit_char [simp]: "d < 10 \<Longrightarrow> digit_val (digit_char d) = d"
  by (simp add: digit_val_def)

lemma digit_val_less: "is_digit c \<Longrightarrow> digit_val c < 10"
  by (auto simp: is_digit_def digit_val_def)

lemma digit_char_digit_val: "is_digit c \<Longrightarrow> digit_char (digit_val c) = c"
  by (auto simp: is_digit_def digit_val_def digit_char_def)

lemma digit_char_less_iff:
  "a < 10 \<Longrightarrow> b < 10 \<Longrightarrow> digit_char a < digit_char b \<longleftrightarrow> a < b"
  by (simp add: less_char_def)

text \<open>The decimal digits of a number, and the number a digit string denotes.\<close>

fun show_nat :: "nat \<Rightarrow> string" where
  "show_nat n = (if n < 10 then [digit_char n] else show_nat (n div 10) @ [digit_char (n mod 10)])"

declare show_nat.simps [simp del]

definition read_nat :: "string \<Rightarrow> nat" where
  "read_nat s = foldl (\<lambda>acc c. 10 * acc + digit_val c) 0 s"

lemma read_nat_Nil [simp]: "read_nat [] = 0"
  by (simp add: read_nat_def)

lemma read_nat_snoc [simp]: "read_nat (s @ [c]) = 10 * read_nat s + digit_val c"
  by (simp add: read_nat_def)

lemma show_nat_ne_Nil [simp]: "show_nat n \<noteq> []"
  by (subst show_nat.simps) simp

lemma show_nat_digits: "\<forall>c \<in> set (show_nat n). is_digit c"
proof (induction n rule: show_nat.induct)
  case (1 n)
  show ?case
  proof (cases "n < 10")
    case True
    then show ?thesis by (subst show_nat.simps) simp
  next
    case False
    with "1.IH" show ?thesis by (subst show_nat.simps) auto
  qed
qed

lemma read_show_nat [simp]: "read_nat (show_nat n) = n"
proof (induction n rule: show_nat.induct)
  case (1 n)
  show ?case
  proof (cases "n < 10")
    case True
    then show ?thesis
      by (subst show_nat.simps) (simp add: read_nat_def)
  next
    case False
    with "1.IH" show ?thesis by (subst show_nat.simps) simp
  qed
qed

text \<open>The last \<open>w\<close> decimal digits, with leading zeros.\<close>

fun padw :: "nat \<Rightarrow> nat \<Rightarrow> string" where
  "padw 0 n = []"
| "padw (Suc w) n = padw w (n div 10) @ [digit_char (n mod 10)]"

lemma length_padw [simp]: "length (padw w n) = w"
  by (induction w arbitrary: n) auto

lemma padw_digits: "\<forall>c \<in> set (padw w n). is_digit c"
  by (induction w arbitrary: n) auto

lemma read_padw: "n < 10 ^ w \<Longrightarrow> read_nat (padw w n) = n"
proof (induction w arbitrary: n)
  case 0
  then show ?case by simp
next
  case (Suc w)
  then have "n div 10 < 10 ^ w"
    by (simp add: less_mult_imp_div_less mult.commute)
  with Suc.IH show ?case by simp
qed

lemma padw_inj: "m < 10 ^ w \<Longrightarrow> n < 10 ^ w \<Longrightarrow> padw w m = padw w n \<longleftrightarrow> m = n"
  by (metis read_padw)

lemma read_nat_digits:
  "list_all is_digit s \<Longrightarrow> padw (length s) (read_nat s) = s \<and> read_nat s < 10 ^ length s"
proof (induction s rule: rev_induct)
  case Nil
  then show ?case by simp
next
  case (snoc c s)
  then have "digit_val c < 10" by (simp add: digit_val_less)
  with snoc show ?case by (simp add: digit_char_digit_val)
qed

section \<open>The order on strings\<close>

lemma less_append_same_length:
  fixes xs ys :: "'a::linorder list"
  assumes "length xs = length ys"
  shows "xs @ us < ys @ vs \<longleftrightarrow> xs < ys \<or> xs = ys \<and> us < vs"
  using assms by (induction xs ys rule: list_induct2) auto

lemma div_mod_less_iff:
  fixes m n :: nat
  shows "(m div 10 < n div 10 \<or> m div 10 = n div 10 \<and> m mod 10 < n mod 10) \<longleftrightarrow> m < n"
proof -
  have "m = 10 * (m div 10) + m mod 10" "n = 10 * (n div 10) + n mod 10"
    and "m mod 10 < 10" "n mod 10 < 10"
    by simp_all
  then show ?thesis by linarith
qed

lemma padw_less_iff:
  "m < 10 ^ w \<Longrightarrow> n < 10 ^ w \<Longrightarrow> padw w m < padw w n \<longleftrightarrow> m < n"
proof (induction w arbitrary: m n)
  case 0
  then show ?case by simp
next
  case (Suc w)
  then have b: "m div 10 < 10 ^ w" "n div 10 < 10 ^ w"
    by (simp_all add: less_mult_imp_div_less mult.commute)
  have "padw (Suc w) m < padw (Suc w) n \<longleftrightarrow>
      m div 10 < n div 10 \<or> m div 10 = n div 10 \<and> m mod 10 < n mod 10"
    using b by (simp add: less_append_same_length Suc.IH padw_inj digit_char_less_iff)
  also have "\<dots> \<longleftrightarrow> m < n"
    by (rule div_mod_less_iff)
  finally show ?case .
qed

section \<open>Association lists\<close>

text \<open>
  A directory, or a Go map whose keys the code enumerates, is an association list with distinct
  keys. \<open>upd\<close> overwrites in place or appends; \<open>del\<close> removes the key.
\<close>

fun upd :: "'k \<Rightarrow> 'v \<Rightarrow> ('k \<times> 'v) list \<Rightarrow> ('k \<times> 'v) list" where
  "upd k v [] = [(k, v)]"
| "upd k v ((a, b) # ps) = (if a = k then (k, v) # ps else (a, b) # upd k v ps)"

definition del :: "'k \<Rightarrow> ('k \<times> 'v) list \<Rightarrow> ('k \<times> 'v) list" where
  "del k ps = filter (\<lambda>p. fst p \<noteq> k) ps"

lemma map_of_upd: "map_of (upd k v ps) = (map_of ps)(k \<mapsto> v)"
  by (induction k v ps rule: upd.induct) auto

lemma map_of_upd_same [simp]: "map_of (upd k v ps) k = Some v"
  by (simp add: map_of_upd)

lemma map_of_upd_other [simp]: "j \<noteq> k \<Longrightarrow> map_of (upd k v ps) j = map_of ps j"
  by (simp add: map_of_upd)

lemma keys_upd: "set (map fst (upd k v ps)) = insert k (set (map fst ps))"
  by (induction k v ps rule: upd.induct) auto

lemma distinct_upd [wf_intros]: "distinct (map fst ps) \<Longrightarrow> distinct (map fst (upd k v ps))"
proof (induction k v ps rule: upd.induct)
  case (2 k v a b ps)
  have "set (map fst (upd k v ps)) = insert k (set (map fst ps))" by (rule keys_upd)
  with 2 show ?case by auto
qed simp

lemma map_of_del: "map_of (del k ps) = (map_of ps)(k := None)"
  by (induction ps) (auto simp: del_def)

lemma map_of_del_same [simp]: "map_of (del k ps) k = None"
  by (simp add: map_of_del)

lemma map_of_del_other [simp]: "j \<noteq> k \<Longrightarrow> map_of (del k ps) j = map_of ps j"
  by (simp add: map_of_del)

lemma distinct_del [wf_intros]: "distinct (map fst ps) \<Longrightarrow> distinct (map fst (del k ps))"
  by (simp add: del_def distinct_map_filter)

section \<open>Lists\<close>

lemma takeWhile_append_stop:
  "(\<forall>x \<in> set xs. P x) \<Longrightarrow> \<not> P y \<Longrightarrow> takeWhile P (xs @ y # ys) = xs"
  by (induction xs) auto

lemma dropWhile_append_stop:
  "(\<forall>x \<in> set xs. P x) \<Longrightarrow> \<not> P y \<Longrightarrow> dropWhile P (xs @ y # ys) = y # ys"
  by (induction xs) auto

section \<open>Descents\<close>

text \<open>A sequence that only descends in a well-founded relation or stays, stays in the end.\<close>

lemma finite_descents:
  fixes h :: "nat \<Rightarrow> 'a"
  assumes "wf r" "\<forall>i. (h (Suc i), h i) \<in> r \<or> h (Suc i) = h i"
  shows "finite {i. (h (Suc i), h i) \<in> r}"
  using assms(2)
proof (induction "h 0" arbitrary: h rule: wf_induct_rule [OF assms(1)])
  case 1
  show ?case
  proof (cases "\<exists>i. (h (Suc i), h i) \<in> r")
    case True
    define k where "k = (LEAST i. (h (Suc i), h i) \<in> r)"
    have k: "(h (Suc k), h k) \<in> r" "\<And>i. i < k \<Longrightarrow> (h (Suc i), h i) \<notin> r"
      unfolding k_def using True not_less_Least by (auto intro: LeastI_ex)
    have stays: "i \<le> k \<Longrightarrow> h i = h 0" for i
    proof (induction i)
      case (Suc i)
      then have "i < k" by simp
      with k(2) [OF this] 1(2) Suc.IH show ?case by (metis less_imp_le)
    qed simp
    from stays [of k] k(1) have "(h (Suc k + 0), h 0) \<in> r" by simp
    then have "finite {i. (h (Suc k + Suc i), h (Suc k + i)) \<in> r}"
      using 1(1) [of "\<lambda>i. h (Suc k + i)"] 1(2) by simp
    moreover have "{i. (h (Suc i), h i) \<in> r} \<subseteq> {..k} \<union> (+) (Suc k) ` {i. (h (Suc k + Suc i), h (Suc k + i)) \<in> r}"
    proof
      fix i assume i: "i \<in> {i. (h (Suc i), h i) \<in> r}"
      show "i \<in> {..k} \<union> (+) (Suc k) ` {i. (h (Suc k + Suc i), h (Suc k + i)) \<in> r}"
      proof (cases "i \<le> k")
        case False
        then obtain j where "i = Suc k + j" using le_Suc_ex by (metis not_less_eq_eq)
        with i show ?thesis by auto
      qed simp
    qed
    ultimately show ?thesis by (meson finite_Un finite_atMost finite_imageI finite_subset)
  qed simp
qed

end
