(* ===== verification/Go_Strings.thy ===== *)
theory Go_Strings
  imports Main Prelude
begin

text \<open>
  The functions of Go's packages \<open>strings\<close>, \<open>strconv\<close> and \<open>unicode\<close> that the program calls, on
  byte strings: case mapping, white space, \<open>Fields\<close>, \<open>TrimSpace\<close>, \<open>ReplaceAll\<close> with a one-byte
  pattern (the program's only use), \<open>SplitN\<close>, \<open>Join\<close>, prefixes and suffixes, substring search,
  \<open>FormatInt\<close> and \<open>ParseInt\<close> in base 10.
\<close>

abbreviation byte :: "char \<Rightarrow> nat" where
  "byte c \<equiv> of_char c"

section \<open>Case mapping\<close>

definition ascii_upper :: "char \<Rightarrow> char" where
  "ascii_upper c = (if 97 \<le> byte c \<and> byte c \<le> 122 then char_of (byte c - 32) else c)"

definition ascii_lower :: "char \<Rightarrow> char" where
  "ascii_lower c = (if 65 \<le> byte c \<and> byte c \<le> 90 then char_of (byte c + 32) else c)"

text \<open>
  \<open>strings.ToUpper\<close>, as far as a comparison with an ASCII word can tell. Two runes beyond ASCII
  have an ASCII upper case: U+0131 (bytes C4 B1, upper case I) and U+017F (bytes C5 BF, upper case
  S). Every other rune beyond ASCII has an upper case beyond ASCII again, and is kept as it is.
\<close>

fun to_upper :: "string \<Rightarrow> string" where
  "to_upper [] = []"
| "to_upper [c] = [ascii_upper c]"
| "to_upper (c # d # cs) =
     (if byte c = 0xC4 \<and> byte d = 0xB1 then CHR ''I'' # to_upper cs
      else if byte c = 0xC5 \<and> byte d = 0xBF then CHR ''S'' # to_upper cs
      else ascii_upper c # to_upper (d # cs))"

definition is_ascii :: "string \<Rightarrow> bool" where
  "is_ascii s \<longleftrightarrow> list_all (\<lambda>c. byte c < 128) s"

text \<open>
  \<open>strings.ToLower\<close>: the ASCII fast path, and \<open>strings.Map(unicode.ToLower, s)\<close> otherwise. The
  Unicode tables behind the second path are the argument \<open>uni\<close>.
\<close>

definition to_lower :: "(string \<Rightarrow> string) \<Rightarrow> string \<Rightarrow> string" where
  "to_lower uni s = (if is_ascii s then map ascii_lower s else uni s)"

lemma ascii_upper_idem [simp]: "ascii_upper (ascii_upper c) = ascii_upper c"
  by (auto simp: ascii_upper_def)

lemma ascii_lower_idem [simp]: "ascii_lower (ascii_lower c) = ascii_lower c"
  by (auto simp: ascii_lower_def)

lemma to_upper_ascii [text_simps]: "is_ascii s \<Longrightarrow> to_upper s = map ascii_upper s"
  by (induction s rule: to_upper.induct) (auto simp: is_ascii_def)

lemma is_ascii_Nil [simp]: "is_ascii []"
  by (simp add: is_ascii_def)

lemma is_ascii_Cons [simp]: "is_ascii (c # s) \<longleftrightarrow> byte c < 128 \<and> is_ascii s"
  by (simp add: is_ascii_def)

section \<open>White space\<close>

text \<open>
  \<open>unicode.IsSpace\<close> on UTF-8 bytes: the length of the white-space rune a string starts with, and 0
  if it starts with none. The lead bytes C2, E1, E2 and E3 never occur inside another rune, so a
  scan byte by byte finds exactly the white-space runes that Go's scan rune by rune finds.
\<close>

definition space1 :: "nat \<Rightarrow> bool" where
  "space1 x \<longleftrightarrow> (9 \<le> x \<and> x \<le> 13) \<or> x = 32"

definition space2 :: "nat \<Rightarrow> nat \<Rightarrow> bool" where
  "space2 x y \<longleftrightarrow> x = 0xC2 \<and> (y = 0x85 \<or> y = 0xA0)"

definition space3 :: "nat \<Rightarrow> nat \<Rightarrow> nat \<Rightarrow> bool" where
  "space3 x y z \<longleftrightarrow>
     (x = 0xE1 \<and> y = 0x9A \<and> z = 0x80) \<or>
     (x = 0xE2 \<and> y = 0x80 \<and> ((0x80 \<le> z \<and> z \<le> 0x8A) \<or> z = 0xA8 \<or> z = 0xA9 \<or> z = 0xAF)) \<or>
     (x = 0xE2 \<and> y = 0x81 \<and> z = 0x9F) \<or>
     (x = 0xE3 \<and> y = 0x80 \<and> z = 0x80)"

fun space_len :: "string \<Rightarrow> nat" where
  "space_len [] = 0"
| "space_len (a # s) =
     (if space1 (byte a) then 1
      else case s of [] \<Rightarrow> 0
        | b # t \<Rightarrow> (if space2 (byte a) (byte b) then 2
                    else case t of [] \<Rightarrow> 0
                      | c # _ \<Rightarrow> (if space3 (byte a) (byte b) (byte c) then 3 else 0)))"

text \<open>The same at the end of a string, which is given reversed.\<close>

fun space_len_rev :: "string \<Rightarrow> nat" where
  "space_len_rev [] = 0"
| "space_len_rev (c # s) =
     (if space1 (byte c) then 1
      else case s of [] \<Rightarrow> 0
        | b # t \<Rightarrow> (if space2 (byte b) (byte c) then 2
                    else case t of [] \<Rightarrow> 0
                      | a # _ \<Rightarrow> (if space3 (byte a) (byte b) (byte c) then 3 else 0)))"

declare space_len.simps [simp del] space_len_rev.simps [simp del]

lemma space_len_le: "space_len s \<le> length s"
  by (cases s) (auto simp: space_len.simps split: list.splits)

lemma space_len_rev_le: "space_len_rev s \<le> length s"
  by (cases s) (auto simp: space_len_rev.simps split: list.splits)

lemma space_len_Nil [simp]: "space_len [] = 0"
  by (simp add: space_len.simps)

text \<open>A white-space rune at the front stays one when the string is extended.\<close>

lemma space_len_append: "space_len s \<noteq> 0 \<Longrightarrow> space_len (s @ t) = space_len s"
  by (cases s) (auto simp: space_len.simps split: list.splits if_splits)

lemma space_len_prefix: "space_len (s @ t) = 0 \<Longrightarrow> space_len s = 0"
  by (metis space_len_append)

text \<open>A string that is one white-space rune, read from either end.\<close>

lemma space_len_rev_le3: "space_len_rev r \<le> 3"
  by (cases r) (auto simp: space_len_rev.simps split: list.splits)

lemma space1_not_lead [simp]:
  "space1 x \<Longrightarrow> \<not> space2 x y" "space1 x \<Longrightarrow> \<not> space3 x y z" "space2 x y \<Longrightarrow> \<not> space3 x y z"
  by (auto simp: space1_def space2_def space3_def)

lemma space_len_of_rev:
  assumes "space_len_rev r = length r" and "r \<noteq> []"
  shows "space_len (rev r) = length r"
proof -
  from assms(1) have "length r \<le> 3" using space_len_rev_le3 [of r] by simp
  with \<open>r \<noteq> []\<close> consider (1) c where "r = [c]" | (2) b c where "r = [c, b]"
    | (3) a b c where "r = [c, b, a]"
    by (cases r rule: rev_cases; auto simp: length_Suc_conv le_Suc_eq numeral_3_eq_3)
  then show ?thesis
    using assms(1) by cases (auto simp: space_len.simps space_len_rev.simps split: if_splits)
qed

function trim_left :: "string \<Rightarrow> string" where
  "trim_left s = (if space_len s = 0 then s else trim_left (drop (space_len s) s))"
  by pat_completeness auto
termination
proof (relation "measure length")
  show "(drop (space_len s) s, s) \<in> measure length" if "space_len s \<noteq> 0" for s
    using that space_len_le [of s] by simp
qed simp

function trim_left_rev :: "string \<Rightarrow> string" where
  "trim_left_rev s = (if space_len_rev s = 0 then s else trim_left_rev (drop (space_len_rev s) s))"
  by pat_completeness auto
termination
proof (relation "measure length")
  show "(drop (space_len_rev s) s, s) \<in> measure length" if "space_len_rev s \<noteq> 0" for s
    using that space_len_rev_le [of s] by simp
qed simp

declare trim_left.simps [simp del] trim_left_rev.simps [simp del]

definition trim_right :: "string \<Rightarrow> string" where
  "trim_right s = rev (trim_left_rev (rev s))"

definition trim_space :: "string \<Rightarrow> string" where
  "trim_space s = trim_right (trim_left s)"

lemma space_len_trim_left: "space_len (trim_left s) = 0"
proof (induction s rule: trim_left.induct)
  case (1 s)
  then show ?case by (cases "space_len s = 0") (simp_all add: trim_left.simps [of s])
qed

lemma trim_left_rev_suffix: "\<exists>p. r = p @ trim_left_rev r"
proof (induction r rule: trim_left_rev.induct)
  case (1 r)
  show ?case
  proof (cases "space_len_rev r = 0")
    case True
    then show ?thesis by (simp add: trim_left_rev.simps [of r])
  next
    case False
    with "1.IH" obtain p where
      "drop (space_len_rev r) r = p @ trim_left_rev (drop (space_len_rev r) r)" by blast
    then have "r = (take (space_len_rev r) r @ p) @ trim_left_rev (drop (space_len_rev r) r)"
      by (metis append.assoc append_take_drop_id)
    with False show ?thesis by (metis trim_left_rev.simps)
  qed
qed

lemma trim_right_prefix: "\<exists>p. s = trim_right s @ p"
proof -
  obtain p where "rev s = p @ trim_left_rev (rev s)" using trim_left_rev_suffix by blast
  then have "s = rev (trim_left_rev (rev s)) @ rev p"
    by (metis rev_append rev_rev_ident)
  then show ?thesis by (auto simp: trim_right_def)
qed

lemma trim_left_rev_Nil: "trim_left_rev r = [] \<Longrightarrow> r \<noteq> [] \<Longrightarrow> space_len (rev r) \<noteq> 0"
proof (induction r rule: trim_left_rev.induct)
  case (1 r)
  have n: "space_len_rev r \<noteq> 0"
    using "1.prems" by (metis trim_left_rev.simps)
  show ?case
  proof (cases "drop (space_len_rev r) r = []")
    case True
    with space_len_rev_le [of r] have "space_len_rev r = length r" by simp
    with "1.prems"(2) space_len_of_rev show ?thesis by auto
  next
    case False
    have "trim_left_rev (drop (space_len_rev r) r) = []"
      using "1.prems"(1) n by (simp add: trim_left_rev.simps [of r])
    from "1.IH" [OF n this False] have "space_len (rev (drop (space_len_rev r) r)) \<noteq> 0" .
    then have "space_len (rev (drop (space_len_rev r) r) @ rev (take (space_len_rev r) r)) \<noteq> 0"
      using space_len_append by metis
    then show ?thesis by (metis append_take_drop_id rev_append)
  qed
qed

lemma space_len_trim_space: "space_len (trim_space s) = 0"
proof -
  obtain p where "trim_left s = trim_space s @ p"
    using trim_right_prefix [of "trim_left s"] by (auto simp: trim_space_def)
  with space_len_trim_left [of s] show ?thesis by (metis space_len_prefix)
qed

text \<open>\<open>strings.Fields\<close>: \<open>cur\<close> is the field being read.\<close>

function fields_from :: "string \<Rightarrow> string \<Rightarrow> string list" where
  "fields_from cur [] = (if cur = [] then [] else [cur])"
| "fields_from cur (c # s) =
     (if space_len (c # s) = 0 then fields_from (cur @ [c]) s
      else (if cur = [] then [] else [cur]) @ fields_from [] (drop (space_len (c # s) - 1) s))"
  by pat_completeness auto
termination
  by (relation "measure (\<lambda>(cur, s). length s)") auto

definition fields :: "string \<Rightarrow> string list" where
  "fields s = fields_from [] s"

lemma fields_from_cur: "cur \<noteq> [] \<Longrightarrow> fields_from cur s \<noteq> []"
  by (induction cur s rule: fields_from.induct) auto

lemma fields_from_nonempty: "f \<in> set (fields_from cur s) \<Longrightarrow> f \<noteq> []"
  by (induction cur s rule: fields_from.induct) (auto split: if_splits)

lemma fields_no_leading_space: "space_len s = 0 \<Longrightarrow> fields s = [] \<longleftrightarrow> s = []"
  by (cases s) (auto simp: fields_def fields_from_cur)

text \<open>Trimming leaves nothing exactly when splitting into fields does.\<close>

lemma fields_trim_space_Nil: "fields (trim_space s) = [] \<longleftrightarrow> trim_space s = []"
  by (rule fields_no_leading_space [OF space_len_trim_space])

text \<open>Splitting into fields does not see the trimming.\<close>

lemma fields_trim_left: "fields (trim_left s) = fields s"
proof (induction s rule: trim_left.induct)
  case (1 s)
  show ?case
  proof (cases "space_len s = 0")
    case False
    then obtain c s' where s: "s = c # s'" by (cases s) simp_all
    with False have "fields s = fields (drop (space_len s) s)" by (simp add: fields_def drop_Cons')
    with 1 False show ?thesis by (simp add: trim_left.simps [of s])
  qed (simp add: trim_left.simps [of s])
qed

lemma space_len_lead: "space_len (c # s) \<noteq> 0 \<Longrightarrow> space1 (byte c) \<or> byte c \<in> {0xC2, 0xE1, 0xE2, 0xE3}"
  by (auto simp: space_len.simps space2_def space3_def split: list.splits if_splits)

lemma lead_no_tail: "space1 y \<or> y \<in> {0xC2, 0xE1, 0xE2, 0xE3} \<Longrightarrow>
    \<not> space2 x y \<and> \<not> space3 x y z \<and> \<not> space3 x x' y"
  by (auto simp: space1_def space2_def space3_def)

lemma space_len_append_space:
  assumes "u \<noteq> []" "space_len u = 0" "space_len w \<noteq> 0"
  shows "space_len (u @ w) = 0"
proof -
  obtain y w' where w: "w = y # w'" using assms(3) by (cases w) simp_all
  note n = lead_no_tail [OF space_len_lead [OF assms(3) [unfolded w]]]
  consider a where "u = [a]" | a b where "u = [a, b]" | a b c t where "u = a # b # c # t"
    using assms(1) by (metis neq_Nil_conv)
  then show ?thesis
    by cases (use assms(2) n w in \<open>auto simp: space_len.simps split: if_splits list.splits\<close>)
qed

lemma fields_from_append_space:
  assumes "space_len w = length w" "w \<noteq> []"
  shows "fields_from cur (u @ w) = fields_from cur u"
proof (induction cur u rule: fields_from.induct)
  case (1 cur)
  from assms obtain c w' where w: "w = c # w'" by (cases w) simp_all
  with assms show ?case by simp
next
  case (2 cur c s)
  show ?case
  proof (cases "space_len (c # s) = 0")
    case True
    then have "space_len (c # s @ w) = 0" using space_len_append_space [of "c # s" w] assms by simp
    with 2 True show ?thesis by simp
  next
    case False
    then have "space_len (c # s @ w) = space_len (c # s)" using space_len_append [of "c # s" w] by simp
    moreover have "space_len (c # s) - 1 \<le> length s" using space_len_le [of "c # s"] by simp
    ultimately show ?thesis using 2 False by simp
  qed
qed

lemma fields_trim_left_rev: "fields (rev (trim_left_rev r)) = fields (rev r)"
proof (induction r rule: trim_left_rev.induct)
  case (1 r)
  show ?case
  proof (cases "space_len_rev r = 0")
    case False
    let ?w = "rev (take (space_len_rev r) r)"
    have "space_len_rev (take (space_len_rev r) r) = space_len_rev r"
      using False by (cases r) (auto simp: space_len_rev.simps split: list.splits if_splits)
    then have "space_len ?w = length ?w" "?w \<noteq> []"
      using space_len_of_rev [of "take (space_len_rev r) r"] space_len_rev_le [of r] False by (cases r; auto)+
    moreover have "rev r = rev (drop (space_len_rev r) r) @ ?w" by (metis append_take_drop_id rev_append)
    ultimately have "fields (rev r) = fields (rev (drop (space_len_rev r) r))"
      by (metis fields_def fields_from_append_space)
    with 1 False show ?thesis by (simp add: trim_left_rev.simps [of r])
  qed (simp add: trim_left_rev.simps [of r])
qed

lemma fields_trim_space: "fields (trim_space s) = fields s"
  using fields_trim_left_rev [of "rev (trim_left s)"] by (simp add: trim_space_def trim_right_def fields_trim_left)

section \<open>Searching, splitting and replacing\<close>

definition has_prefix :: "string \<Rightarrow> string \<Rightarrow> bool" where
  "has_prefix s p \<longleftrightarrow> take (length p) s = p"

definition has_suffix :: "string \<Rightarrow> string \<Rightarrow> bool" where
  "has_suffix s p \<longleftrightarrow> length p \<le> length s \<and> drop (length s - length p) s = p"

definition trim_prefix :: "string \<Rightarrow> string \<Rightarrow> string" where
  "trim_prefix s p = (if has_prefix s p then drop (length p) s else s)"

definition trim_suffix :: "string \<Rightarrow> string \<Rightarrow> string" where
  "trim_suffix s p = (if has_suffix s p then take (length s - length p) s else s)"

fun contains :: "string \<Rightarrow> string \<Rightarrow> bool" where
  "contains [] p = (p = [])"
| "contains (c # s) p = (has_prefix (c # s) p \<or> contains s p)"

text \<open>\<open>strings.ReplaceAll(s, old, new)\<close> for a pattern of one byte.\<close>

definition replace_byte :: "char \<Rightarrow> string \<Rightarrow> string \<Rightarrow> string" where
  "replace_byte old new s = concat (map (\<lambda>c. if c = old then new else [c]) s)"

text \<open>\<open>strings.SplitN(s, sep, n)\<close> for a separator of one byte and \<open>n\<close> not negative.\<close>

fun split_n :: "string \<Rightarrow> char \<Rightarrow> nat \<Rightarrow> string list" where
  "split_n s sep 0 = []"
| "split_n s sep (Suc 0) = [s]"
| "split_n s sep (Suc (Suc n)) =
     (case dropWhile (\<lambda>c. c \<noteq> sep) s of
        [] \<Rightarrow> [s]
      | _ # r \<Rightarrow> takeWhile (\<lambda>c. c \<noteq> sep) s # split_n r sep (Suc n))"

fun join :: "string list \<Rightarrow> string \<Rightarrow> string" where
  "join [] sep = []"
| "join [x] sep = x"
| "join (x # y # xs) sep = x @ sep @ join (y # xs) sep"

lemma has_prefix_append [simp]: "has_prefix (p @ s) p"
  by (simp add: has_prefix_def)

lemma has_suffix_append [simp]: "has_suffix (s @ p) p"
  by (simp add: has_suffix_def)

lemma trim_prefix_append [simp]: "trim_prefix (p @ s) p = s"
  by (simp add: trim_prefix_def)

lemma trim_suffix_append [simp]: "trim_suffix (s @ p) p = s"
  by (simp add: trim_suffix_def)

lemma has_prefixD: "has_prefix s p \<Longrightarrow> \<exists>t. s = p @ t"
  by (metis append_take_drop_id has_prefix_def)

lemma has_suffixD: "has_suffix s p \<Longrightarrow> \<exists>t. s = t @ p"
  by (metis append_take_drop_id has_suffix_def)

lemma replace_byte_Nil [simp]: "replace_byte old new [] = []"
  by (simp add: replace_byte_def)

lemma replace_byte_Cons [simp]:
  "replace_byte old new (c # s) = (if c = old then new else [c]) @ replace_byte old new s"
  by (simp add: replace_byte_def)

lemma replace_byte_append [simp]:
  "replace_byte old new (s @ t) = replace_byte old new s @ replace_byte old new t"
  by (simp add: replace_byte_def)

lemma replace_byte_absent: "old \<notin> set s \<Longrightarrow> replace_byte old new s = s"
  by (induction s) auto

lemma split_n_found [text_simps]:
  "sep \<notin> set s \<Longrightarrow> split_n (s @ sep # r) sep (Suc (Suc n)) = s # split_n r sep (Suc n)"
proof -
  assume "sep \<notin> set s"
  then have "\<forall>c \<in> set s. c \<noteq> sep" by auto
  then have "dropWhile (\<lambda>c. c \<noteq> sep) (s @ sep # r) = sep # r"
    and "takeWhile (\<lambda>c. c \<noteq> sep) (s @ sep # r) = s"
    by (simp_all add: takeWhile_append_stop dropWhile_append_stop)
  then show ?thesis by simp
qed

lemma contains_iff: "contains s p \<longleftrightarrow> (\<exists>u v. s = u @ p @ v)"
proof (induction s)
  case Nil
  then show ?case by auto
next
  case (Cons c s)
  show ?case
  proof
    assume "contains (c # s) p"
    then consider "has_prefix (c # s) p" | "contains s p" by auto
    then show "\<exists>u v. c # s = u @ p @ v"
    proof cases
      case 1
      then show ?thesis by (metis append_Nil has_prefixD)
    next
      case 2
      with Cons show ?thesis by (metis append_Cons)
    qed
  next
    assume "\<exists>u v. c # s = u @ p @ v"
    then obtain u v where uv: "c # s = u @ p @ v" by blast
    show "contains (c # s) p"
    proof (cases u)
      case Nil
      with uv have "has_prefix (c # s) p" by (simp add: has_prefix_def)
      then show ?thesis by simp
    next
      case (Cons d u')
      with uv have "s = u' @ p @ v" by simp
      with Cons.IH show ?thesis by auto
    qed
  qed
qed

section \<open>Integers\<close>

definition show_int :: "int \<Rightarrow> string" where
  "show_int i = (if i < 0 then CHR ''-'' # show_nat (nat (- i)) else show_nat (nat i))"

text \<open>\<open>strconv.ParseInt(s, 10, 64)\<close>, and \<open>strconv.Atoi\<close> on a 64-bit platform.\<close>

definition parse_int64 :: "string \<Rightarrow> int option" where
  "parse_int64 s =
     (let neg = (s \<noteq> [] \<and> hd s = CHR ''-'');
          ds = (if s \<noteq> [] \<and> (hd s = CHR ''-'' \<or> hd s = CHR ''+'') then tl s else s);
          v = (if neg then - int (read_nat ds) else int (read_nat ds))
      in if ds = [] \<or> \<not> list_all is_digit ds then None
         else if v < - (2 ^ 63) \<or> 2 ^ 63 \<le> v then None
         else Some v)"

lemma hd_show_nat: "is_digit (hd (show_nat n))"
  using show_nat_digits by (metis hd_in_set show_nat_ne_Nil)

lemma is_digit_sign [simp]: "\<not> is_digit CHR ''-''" "\<not> is_digit CHR ''+''"
  by (simp_all add: is_digit_def)

lemma parse_show_int [text_simps]:
  assumes "- (2 ^ 63) \<le> i" and "i < 2 ^ 63"
  shows "parse_int64 (show_int i) = Some i"
proof -
  have "hd (show_nat n) \<noteq> CHR ''-''" "hd (show_nat n) \<noteq> CHR ''+''" for n
    using hd_show_nat [of n] by auto
  moreover have "list_all is_digit (show_nat n)" for n
    using show_nat_digits by (simp add: list_all_iff)
  ultimately show ?thesis
    using assms by (auto simp: parse_int64_def show_int_def Let_def)
qed

end
