(* ===== verification/Go_Time.thy ===== *)
theory Go_Time
  imports Main Prelude Go_Strings "HOL-Library.Monad_Syntax"
begin

text \<open>
  What the program uses of Go's package \<open>time\<close>: instants with the offset of their location, the
  Gregorian calendar, \<open>AddDate(0, 0, n)\<close>, and the two layouts \<open>2006-01-02\<close> and
  \<open>RFC3339Nano\<close>, printed and parsed.

  A \<open>time.Time\<close> is the instant in nanoseconds since 0001-01-01T00:00:00Z (Go's zero time is
  instant 0) with the offset of its location in seconds east of UTC. A location is a fixed offset
  here: \<open>AddDate\<close> keeps it, so a change of daylight saving time inside one call is not modelled.
\<close>

record go_time =
  instant :: int
  zone_off :: int

definition second_ns :: int where "second_ns = 1000000000"
definition day_ns :: int where "day_ns = 86400000000000"

definition wall :: "go_time \<Rightarrow> int" where
  "wall t = instant t + zone_off t * second_ns"

definition day_of :: "go_time \<Rightarrow> int" where
  "day_of t = wall t div day_ns"

definition ns_of_day :: "go_time \<Rightarrow> int" where
  "ns_of_day t = wall t mod day_ns"

definition zero_time :: go_time where
  "zero_time = \<lparr>instant = 0, zone_off = 0\<rparr>"

definition is_zero :: "go_time \<Rightarrow> bool" where
  "is_zero t \<longleftrightarrow> instant t = 0"

definition before :: "go_time \<Rightarrow> go_time \<Rightarrow> bool" where
  "before a b \<longleftrightarrow> instant a < instant b"

definition after :: "go_time \<Rightarrow> go_time \<Rightarrow> bool" where
  "after a b \<longleftrightarrow> instant b < instant a"

section \<open>The Gregorian calendar\<close>

definition is_leap :: "int \<Rightarrow> bool" where
  "is_leap y \<longleftrightarrow> y mod 4 = 0 \<and> (y mod 100 \<noteq> 0 \<or> y mod 400 = 0)"

definition year_len :: "int \<Rightarrow> int" where
  "year_len y = (if is_leap y then 366 else 365)"

text \<open>Days from 0001-01-01 to the first of January of year \<open>y\<close>.\<close>

definition days_before_year :: "int \<Rightarrow> int" where
  "days_before_year y = 365 * (y - 1) + (y - 1) div 4 - (y - 1) div 100 + (y - 1) div 400"

definition leap_day :: "int \<Rightarrow> int" where
  "leap_day y = (if is_leap y then 1 else 0)"

definition days_before_month :: "int \<Rightarrow> int \<Rightarrow> int" where
  "days_before_month y m =
     (if m \<le> 1 then 0 else if m = 2 then 31
      else (if m = 3 then 59 else if m = 4 then 90 else if m = 5 then 120 else if m = 6 then 151
            else if m = 7 then 181 else if m = 8 then 212 else if m = 9 then 243
            else if m = 10 then 273 else if m = 11 then 304 else if m = 12 then 334 else 365)
           + leap_day y)"

definition days_in_month :: "int \<Rightarrow> int \<Rightarrow> int" where
  "days_in_month y m = days_before_month y (m + 1) - days_before_month y m"

definition days_of_civil :: "int \<Rightarrow> int \<Rightarrow> int \<Rightarrow> int" where
  "days_of_civil y m d = days_before_year y + days_before_month y m + (d - 1)"

definition valid_civil :: "int \<Rightarrow> int \<Rightarrow> int \<Rightarrow> bool" where
  "valid_civil y m d \<longleftrightarrow> 1 \<le> m \<and> m \<le> 12 \<and> 1 \<le> d \<and> d \<le> days_in_month y m"

text \<open>
  The way back, by whole 400-year, 100-year, 4-year and 1-year cycles, as \<open>time.absDate\<close> does
  it; the last day of a 400-year or a 4-year cycle would count a cycle too many, hence the
  \<open>min\<close>.
\<close>

definition year_of :: "int \<Rightarrow> int" where
  "year_of n =
     (let q = n div 146097; r = n mod 146097;
          a = min 3 (r div 36524); r1 = r - 36524 * a;
          b = r1 div 1461; r2 = r1 mod 1461;
          c = min 3 (r2 div 365)
      in 400 * q + 100 * a + 4 * b + c + 1)"

definition month_of :: "int \<Rightarrow> int \<Rightarrow> int" where
  "month_of y yd =
     (if yd < days_before_month y 2 then 1 else if yd < days_before_month y 3 then 2
      else if yd < days_before_month y 4 then 3 else if yd < days_before_month y 5 then 4
      else if yd < days_before_month y 6 then 5 else if yd < days_before_month y 7 then 6
      else if yd < days_before_month y 8 then 7 else if yd < days_before_month y 9 then 8
      else if yd < days_before_month y 10 then 9 else if yd < days_before_month y 11 then 10
      else if yd < days_before_month y 12 then 11 else 12)"

definition civil_of_days :: "int \<Rightarrow> int \<times> int \<times> int" where
  "civil_of_days n =
     (let y = year_of n; yd = n - days_before_year y; m = month_of y yd
      in (y, m, yd - days_before_month y m + 1))"

lemma div_step: "k > 0 \<Longrightarrow> (y::int) div k - (y - 1) div k = (if y mod k = 0 then 1 else 0)"
proof -
  assume "k > 0"
  have y: "y = k * (y div k) + y mod k" by simp
  have m: "0 \<le> y mod k" "y mod k < k" using \<open>k > 0\<close> by simp_all
  show ?thesis
  proof (cases "y mod k = 0")
    case True
    have "(y - 1) div k = (k * (y div k - 1) + (k - 1)) div k"
      using y True by (simp add: algebra_simps)
    also have "\<dots> = y div k - 1" using \<open>k > 0\<close> by simp
    finally show ?thesis using True by simp
  next
    case False
    have "(y - 1) div k = (k * (y div k) + (y mod k - 1)) div k"
      using y by (simp add: algebra_simps)
    also have "\<dots> = y div k"
      using \<open>k > 0\<close> m False by (simp add: div_pos_pos_trivial)
    finally show ?thesis using False by simp
  qed
qed

lemma year_len_sum:
  fixes y :: int
  assumes "a4 - b4 = (if p4 then 1 else 0)" and "a100 - b100 = (if p100 then 1 else 0)"
    and "a400 - b400 = (if p400 then 1 else 0)" and "p400 \<Longrightarrow> p100" and "p100 \<Longrightarrow> p4"
  shows "365 * y + a4 - a100 + a400 =
    365 * (y - 1) + b4 - b100 + b400 + (if p4 \<and> (\<not> p100 \<or> p400) then 366 else 365)"
  using assms by (cases p4; cases p100; cases p400) simp_all

lemma days_before_year_Suc: "days_before_year (y + 1) = days_before_year y + year_len y"
proof -
  have "400 dvd y \<Longrightarrow> 100 dvd y" "100 dvd y \<Longrightarrow> 4 dvd y"
    by (erule dvd_trans [rotated], simp)+
  then have "y mod 400 = 0 \<Longrightarrow> y mod 100 = 0" "y mod 100 = 0 \<Longrightarrow> y mod 4 = 0"
    by (simp_all only: mod_eq_0_iff_dvd)
  note mods = this
  have "y div 4 - (y - 1) div 4 = (if y mod 4 = 0 then 1 else 0)"
    "y div 100 - (y - 1) div 100 = (if y mod 100 = 0 then 1 else 0)"
    "y div 400 - (y - 1) div 400 = (if y mod 400 = 0 then 1 else 0)"
    by (rule div_step, simp only: zero_less_numeral)+
  from year_len_sum [OF this mods, of y]
  show ?thesis
    unfolding days_before_year_def year_len_def is_leap_def add_diff_cancel_right' .
qed

lemma year_len_pos: "year_len y > 0"
  by (simp add: year_len_def)

lemma days_before_year_mono: "y \<le> y' \<Longrightarrow> days_before_year y \<le> days_before_year y'"
proof (induction y' rule: int_ge_induct)
  case (step i)
  then show ?case using days_before_year_Suc [of i] year_len_pos [of i] by simp
qed simp

lemma capped_div:
  fixes r k :: int
  assumes "0 \<le> r" and "r \<le> 4 * k" and "0 < k" and a: "a = min 3 (r div k)"
  shows "0 \<le> a" "a \<le> 3" "0 \<le> r - k * a" "r - k * a \<le> k" "a < 3 \<Longrightarrow> r - k * a < k"
proof -
  define q where "q = r div k"
  have r: "r = k * q + r mod k" "0 \<le> r mod k" "r mod k < k"
    using \<open>0 < k\<close> by (simp_all add: q_def)
  have "0 \<le> q" using assms(1,3) by (simp add: q_def pos_imp_zdiv_nonneg_iff)
  have "q < 5"
  proof (rule ccontr)
    assume "\<not> q < 5"
    then have "k * 5 \<le> k * q" using \<open>0 < k\<close> by simp
    with r assms(2,3) show False by linarith
  qed
  then have "q \<le> 3 \<and> a = q \<or> q = 4 \<and> a = 3"
    unfolding a q_def [symmetric] min_def by presburger
  then consider "q \<le> 3" "a = q" | "q = 4" "a = 3" by blast
  then have "0 \<le> a \<and> a \<le> 3 \<and> 0 \<le> r - k * a \<and> r - k * a \<le> k \<and> (a < 3 \<longrightarrow> r - k * a < k)"
  proof cases
    case 1
    have "r - k * q = r mod k" using r(1) by linarith
    with 1 r(2,3) \<open>0 \<le> q\<close> show ?thesis by simp
  next
    case 2
    with r(1) have "r = 4 * k + r mod k" by simp
    with r(2,3) assms(2) have "r - k * 3 = k" by linarith
    with 2 \<open>0 < k\<close> show ?thesis by simp
  qed
  then show "0 \<le> a" "a \<le> 3" "0 \<le> r - k * a" "r - k * a \<le> k" "a < 3 \<Longrightarrow> r - k * a < k"
    by simp_all
qed

lemma leap_400: "is_leap (400 * k)"
proof -
  have "400 * k mod 400 = 0" "4 * (100 * k) mod 4 = 0" by (rule mod_mult_self1_is_0)+
  then show ?thesis by (simp add: is_leap_def)
qed

lemma leap_4:
  assumes "0 \<le> b" and "b < 24"
  shows "is_leap (100 * k + 4 * (b + 1))"
proof -
  have "(100 * k + 4 * (b + 1)) mod 100 = 4 * (b + 1)"
    using assms by (simp only: mod_mult_self4, intro mod_pos_pos_trivial) simp_all
  moreover have "4 dvd 100 * k + 4 * (b + 1)" by simp
  ultimately show ?thesis using assms by (simp add: is_leap_def mod_eq_0_iff_dvd)
qed

lemma leap_day_bounds: "0 \<le> leap_day y" "leap_day y \<le> 1"
  by (simp_all add: leap_day_def)

lemma year_len_leap_day: "year_len y = 365 + leap_day y"
  by (simp add: year_len_def leap_day_def)

lemma year_of_bounds:
  "days_before_year (year_of n) \<le> n \<and> n < days_before_year (year_of n) + year_len (year_of n)"
proof -
  define q r where "q = n div 146097" and "r = n mod 146097"
  define a where "a = min 3 (r div 36524)"
  define r1 where "r1 = r - 36524 * a"
  define b r2 where "b = r1 div 1461" and "r2 = r1 mod 1461"
  define c where "c = min 3 (r2 div 365)"
  define yd where "yd = r2 - 365 * c"
  have n: "n = 146097 * q + r" and r: "0 \<le> r" "r < 146097"
    by (simp_all add: q_def r_def)
  have a: "0 \<le> a" "a \<le> 3" and r1: "0 \<le> r1" "r1 \<le> 36524" "a < 3 \<Longrightarrow> r1 < 36524"
    using capped_div [of r 36524 a] r by (simp_all add: a_def r1_def)
  have r1': "r1 = 1461 * b + r2" and r2: "0 \<le> r2" "r2 < 1461"
    by (simp_all add: b_def r2_def)
  have b: "0 \<le> b" "b \<le> 24" using r1 r1' r2 by linarith+
  have c: "0 \<le> c" "c \<le> 3" and yd: "0 \<le> yd" "yd \<le> 365" "c < 3 \<Longrightarrow> yd < 365"
    using capped_div [of r2 365 c] r2 by (simp_all add: c_def yd_def)
  have y: "year_of n = 400 * q + 100 * a + 4 * b + c + 1" (is "_ = ?y")
    by (simp only: year_of_def Let_def q_def r_def a_def r1_def b_def r2_def c_def)
  have "?y - 1 = 4 * (100 * q + 25 * a + b) + c" by simp
  then have d4: "(?y - 1) div 4 = 100 * q + 25 * a + b" using c by linarith
  have "?y - 1 = 100 * (4 * q + a) + (4 * b + c)" by simp
  then have d100: "(?y - 1) div 100 = 4 * q + a" using b c by linarith
  have "?y - 1 = 400 * q + (100 * a + 4 * b + c)" by simp
  then have d400: "(?y - 1) div 400 = q" using a b c by linarith
  have start: "days_before_year ?y = 146097 * q + 36524 * a + 1461 * b + 365 * c"
    unfolding days_before_year_def d4 d100 d400 by simp
  then have nyd: "n = days_before_year ?y + yd"
    using n r1' by (simp add: r1_def yd_def)
  have leap: "is_leap ?y" if "yd = 365"
  proof -
    from that yd(3) c have c3: "c = 3" by linarith
    show ?thesis
    proof (cases "b = 24")
      case True
      with that c3 r1' have "r1 = 36524" by (simp add: yd_def)
      with r1(3) a have "a = 3" by linarith
      with True c3 have "?y = 400 * (q + 1)" by simp
      then show ?thesis by (simp only: leap_400)
    next
      case False
      with b c3 have "?y = 100 * (4 * q + a) + 4 * (b + 1)" "0 \<le> b" "b < 24" by simp_all
      then show ?thesis by (simp only: leap_4)
    qed
  qed
  have "yd < year_len ?y"
    using yd leap by (cases "yd = 365") (simp_all add: year_len_leap_day leap_day_def)
  with nyd yd(1) show ?thesis
    unfolding y by linarith
qed

lemma year_unique:
  assumes "days_before_year y \<le> n" and "n < days_before_year y + year_len y"
  shows "year_of n = y"
proof (rule ccontr)
  assume "year_of n \<noteq> y"
  then consider "year_of n + 1 \<le> y" | "y + 1 \<le> year_of n" by linarith
  then show False
    using days_before_year_mono [of "year_of n + 1" y] days_before_year_mono [of "y + 1" "year_of n"]
      days_before_year_Suc [of y] days_before_year_Suc [of "year_of n"] year_of_bounds [of n] assms
    by cases linarith+
qed

lemma days_before_month_simps:
  "days_before_month y 1 = 0" "days_before_month y 2 = 31"
  "days_before_month y 3 = 59 + leap_day y" "days_before_month y 4 = 90 + leap_day y"
  "days_before_month y 5 = 120 + leap_day y" "days_before_month y 6 = 151 + leap_day y"
  "days_before_month y 7 = 181 + leap_day y" "days_before_month y 8 = 212 + leap_day y"
  "days_before_month y 9 = 243 + leap_day y" "days_before_month y 10 = 273 + leap_day y"
  "days_before_month y 11 = 304 + leap_day y" "days_before_month y 12 = 334 + leap_day y"
  "days_before_month y 13 = 365 + leap_day y"
  by (simp_all add: days_before_month_def)

lemma int_1_12_cases:
  assumes "1 \<le> (m::int)" and "m \<le> 12"
  obtains "m = 1" | "m = 2" | "m = 3" | "m = 4" | "m = 5" | "m = 6" | "m = 7" | "m = 8" | "m = 9"
    | "m = 10" | "m = 11" | "m = 12"
proof -
  from assms have "m = 1 \<or> m = 2 \<or> m = 3 \<or> m = 4 \<or> m = 5 \<or> m = 6 \<or> m = 7 \<or> m = 8 \<or> m = 9
      \<or> m = 10 \<or> m = 11 \<or> m = 12" by presburger
  with that show thesis by blast
qed

lemma month_of_range: "1 \<le> month_of y yd" "month_of y yd \<le> 12"
  by (simp_all add: month_of_def)

lemma month_of_bounds:
  assumes "0 \<le> yd" and "yd < year_len y"
  shows "days_before_month y (month_of y yd) \<le> yd \<and> yd < days_before_month y (month_of y yd + 1)"
proof -
  have "\<exists>m. month_of y yd = m" by simp
  then obtain m where m: "month_of y yd = m" ..
  have "1 \<le> m" "m \<le> 12" using month_of_range m by auto
  then show ?thesis
    unfolding m using m assms
    by (cases rule: int_1_12_cases)
      (simp_all add: month_of_def days_before_month_simps year_len_leap_day split: if_splits)
qed

lemma month_unique:
  assumes "1 \<le> m" and "m \<le> 12" and "days_before_month y m \<le> yd"
    and "yd < days_before_month y (m + 1)"
  shows "month_of y yd = m"
  using assms(1,2)
proof (cases rule: int_1_12_cases)
qed (use assms(3,4) leap_day_bounds [of y] in
      \<open>simp_all add: month_of_def days_before_month_simps\<close>)

lemma valid_civil_yday:
  assumes "valid_civil y m d"
  shows "0 \<le> days_before_month y m + (d - 1)" "days_before_month y m + (d - 1) < year_len y"
proof -
  have "0 \<le> days_before_month y m" by (simp add: days_before_month_def leap_day_def)
  moreover have "days_before_month y (m + 1) \<le> year_len y"
    by (simp add: days_before_month_def leap_day_def year_len_def)
  ultimately show "0 \<le> days_before_month y m + (d - 1)"
    "days_before_month y m + (d - 1) < year_len y"
    using assms by (auto simp: valid_civil_def days_in_month_def)
qed

lemma civil_of_days_of_civil:
  assumes "valid_civil y m d"
  shows "civil_of_days (days_of_civil y m d) = (y, m, d)"
proof -
  have y: "year_of (days_of_civil y m d) = y"
    using valid_civil_yday [OF assms] by (intro year_unique) (simp_all add: days_of_civil_def)
  have "month_of y (days_before_month y m + (d - 1)) = m"
    using assms by (intro month_unique) (auto simp: valid_civil_def days_in_month_def)
  then show ?thesis
    by (simp add: civil_of_days_def Let_def y, simp add: days_of_civil_def)
qed

lemma civil_of_days_correct:
  assumes "civil_of_days n = (y, m, d)"
  shows "valid_civil y m d" "days_of_civil y m d = n"
proof -
  from assms have y: "y = year_of n" and m: "m = month_of y (n - days_before_year y)"
    and d: "d = n - days_before_year y - days_before_month y m + 1"
    by (auto simp: civil_of_days_def Let_def)
  have "0 \<le> n - days_before_year y" "n - days_before_year y < year_len y"
    using year_of_bounds [of n] y by auto
  from month_of_bounds [OF this] month_of_range show "valid_civil y m d"
    by (simp add: valid_civil_def days_in_month_def d m)
  show "days_of_civil y m d = n" by (simp add: days_of_civil_def d)
qed

end
