(* ===== verification/Go_Time_Text.thy ===== *)
theory Go_Time_Text
  imports Main Go_Time
begin

text \<open>
  The text forms of a time: the layout \<open>2006-01-02\<close> (the names of the daily shards) and
  \<open>RFC3339Nano\<close> (the stored timestamp of a line), printed and parsed as package \<open>time\<close> does, with
  the facts the storage layer relies on: both round-trip, and the printed dates sort as the days do.
\<close>

section \<open>Days and dates\<close>

definition in_years :: "int \<Rightarrow> bool" where
  "in_years n \<longleftrightarrow> 0 \<le> year_of n \<and> year_of n \<le> 9999"

lemma year_of_mono: "m \<le> n \<Longrightarrow> year_of m \<le> year_of n"
proof (rule ccontr)
  assume "m \<le> n" and "\<not> year_of m \<le> year_of n"
  then have "days_before_year (year_of n + 1) \<le> days_before_year (year_of m)"
    by (intro days_before_year_mono) simp
  with \<open>m \<le> n\<close> show False
    using year_of_bounds [of m] year_of_bounds [of n] days_before_year_Suc [of "year_of n"] by linarith
qed

definition add_days :: "go_time \<Rightarrow> int \<Rightarrow> go_time" where
  "add_days t n =
     (case civil_of_days (day_of t) of (y, m, d) \<Rightarrow>
        t\<lparr>instant := days_of_civil y m (d + n) * day_ns + ns_of_day t - zone_off t * second_ns\<rparr>)"

lemma wall_split: "wall t = day_of t * day_ns + ns_of_day t"
  by (simp add: day_of_def ns_of_day_def)

lemma ns_of_day_bounds: "0 \<le> ns_of_day t" "ns_of_day t < day_ns"
  by (simp_all add: ns_of_day_def day_ns_def)

text \<open>Adding calendar days moves the instant by that many days of 24 hours.\<close>

lemma add_days_eq: "add_days t n = t\<lparr>instant := instant t + n * day_ns\<rparr>"
proof -
  obtain y m d where c: "civil_of_days (day_of t) = (y, m, d)" by (cases "civil_of_days (day_of t)")
  then have "days_of_civil y m (d + n) = day_of t + n"
    using civil_of_days_correct(2) [OF c] by (simp add: days_of_civil_def)
  moreover have "day_of t * day_ns + ns_of_day t - zone_off t * second_ns = instant t"
    using wall_split [of t] by (simp add: wall_def)
  ultimately show ?thesis
    by (simp add: add_days_def c algebra_simps)
qed

lemma instant_add_days [simp]: "instant (add_days t n) = instant t + n * day_ns"
  by (simp add: add_days_eq)

lemma zone_off_add_days [simp]: "zone_off (add_days t n) = zone_off t"
  by (simp add: add_days_eq)

lemma wall_add_days: "wall (add_days t n) = wall t + n * day_ns"
  by (simp add: wall_def)

lemma day_of_add_days [simp]: "day_of (add_days t n) = day_of t + n"
  by (simp add: day_of_def wall_add_days day_ns_def)

lemma ns_of_day_add_days [simp]: "ns_of_day (add_days t n) = ns_of_day t"
  by (simp add: ns_of_day_def wall_add_days day_ns_def)

section \<open>The layout 2006-01-02\<close>

definition zpad :: "nat \<Rightarrow> nat \<Rightarrow> string" where
  "zpad w n = (if n < 10 ^ w then padw w n else show_nat n)"

lemma zpad_2: "n < 60 \<Longrightarrow> zpad 2 n = padw 2 n" "n < 25 \<Longrightarrow> zpad 2 n = padw 2 n"
  "n < 24 \<Longrightarrow> zpad 2 n = padw 2 n"
  by (simp_all add: zpad_def)

definition fmt_year :: "int \<Rightarrow> string" where
  "fmt_year y = (if y < 0 then CHR ''-'' # zpad 4 (nat (- y)) else zpad 4 (nat y))"

definition fmt_day :: "int \<Rightarrow> string" where
  "fmt_day n =
     (case civil_of_days n of (y, m, d) \<Rightarrow>
        fmt_year y @ ''-'' @ zpad 2 (nat m) @ ''-'' @ zpad 2 (nat d))"

text \<open>\<open>t.Format("2006-01-02")\<close>\<close>

definition format_date :: "go_time \<Rightarrow> string" where
  "format_date t = fmt_day (day_of t)"

lemma fmt_day_padw:
  assumes "in_years n" and c: "civil_of_days n = (y, m, d)"
  shows "fmt_day n = padw 4 (nat y) @ ''-'' @ padw 2 (nat m) @ ''-'' @ padw 2 (nat d)"
    and "0 \<le> y" "y \<le> 9999" "1 \<le> m" "m \<le> 12" "1 \<le> d" "d \<le> 31"
proof -
  have y: "y = year_of n" using c by (auto simp: civil_of_days_def Let_def)
  with assms show y': "0 \<le> y" "y \<le> 9999" by (auto simp: in_years_def)
  have v: "valid_civil y m d" using civil_of_days_correct(1) [OF c] .
  then show m: "1 \<le> m" "m \<le> 12" and d: "1 \<le> d" by (simp_all add: valid_civil_def)
  from m have "days_in_month y m \<le> 31"
    using leap_day_bounds [of y]
    by (cases rule: int_1_12_cases) (simp_all add: days_in_month_def days_before_month_simps)
  with v show d': "d \<le> 31" by (simp add: valid_civil_def)
  from y' m d d' show "fmt_day n = padw 4 (nat y) @ ''-'' @ padw 2 (nat m) @ ''-'' @ padw 2 (nat d)"
    by (simp add: fmt_day_def c fmt_year_def zpad_def nat_less_iff)
qed

lemma length_fmt_day: "in_years n \<Longrightarrow> length (fmt_day n) = 10"
  by (cases "civil_of_days n") (simp add: fmt_day_padw(1))

lemma days_before_month_Suc:
  assumes "1 \<le> m" and "m \<le> 12"
  shows "days_before_month y m \<le> days_before_month y (m + 1)"
  using assms by (cases rule: int_1_12_cases)
    (simp_all add: days_before_month_simps leap_day_bounds)

lemma days_before_month_mono:
  "m \<le> m' \<Longrightarrow> 1 \<le> m \<Longrightarrow> m' \<le> 13 \<Longrightarrow> days_before_month y m \<le> days_before_month y m'"
proof (induction m' rule: int_ge_induct)
  case (step i)
  then show ?case using days_before_month_Suc [of i y] by simp
qed simp

text \<open>The printed dates are ordered as the days are.\<close>

lemma fmt_day_less:
  assumes "in_years a" and "in_years b" and "a < b"
  shows "fmt_day a < fmt_day b"
proof -
  obtain y m d where ca: "civil_of_days a = (y, m, d)" by (cases "civil_of_days a")
  obtain y' m' d' where cb: "civil_of_days b = (y', m', d')" by (cases "civil_of_days b")
  note fa = fmt_day_padw [OF assms(1) ca] and fb = fmt_day_padw [OF assms(2) cb]
  have a: "days_of_civil y m d = a" "valid_civil y m d" using civil_of_days_correct [OF ca] by simp_all
  have b: "days_of_civil y' m' d' = b" "valid_civil y' m' d'"
    using civil_of_days_correct [OF cb] by simp_all
  have "y \<le> y'" using year_of_mono [of a b] \<open>a < b\<close> ca cb
    by (auto simp: civil_of_days_def Let_def)
  moreover have "m \<le> m'" if "y = y'"
  proof (rule ccontr)
    assume "\<not> m \<le> m'"
    then have "days_before_month y (m' + 1) \<le> days_before_month y m"
      using fa(5) fb(4) by (intro days_before_month_mono) simp_all
    with a b \<open>a < b\<close> that show False
      by (auto simp: days_of_civil_def valid_civil_def days_in_month_def)
  qed
  moreover have "d < d'" if "y = y'" "m = m'"
    using a(1) b(1) \<open>a < b\<close> that by (simp add: days_of_civil_def)
  ultimately have "y < y' \<or> y = y' \<and> (m < m' \<or> m = m' \<and> d < d')" by auto
  then show ?thesis
    using fa(2-) fb(2-) unfolding fa(1) fb(1)
    by (simp add: less_append_same_length padw_less_iff padw_inj nat_less_iff)
       (auto simp: eq_nat_nat_iff)
qed

lemma fmt_day_less_iff:
  "in_years a \<Longrightarrow> in_years b \<Longrightarrow> fmt_day a < fmt_day b \<longleftrightarrow> a < b"
  using fmt_day_less [of a b] fmt_day_less [of b a] by (metis less_linear order_less_asym)

lemma fmt_day_inj: "in_years a \<Longrightarrow> in_years b \<Longrightarrow> fmt_day a = fmt_day b \<longleftrightarrow> a = b"
  using fmt_day_less [of a b] fmt_day_less [of b a] by (metis less_irrefl less_linear)

text \<open>Readers of a fixed number of digits and of one character.\<close>

definition take_digits :: "nat \<Rightarrow> string \<Rightarrow> (nat \<times> string) option" where
  "take_digits w s =
     (if w \<le> length s \<and> list_all is_digit (take w s) then Some (read_nat (take w s), drop w s)
      else None)"

definition take_char :: "char \<Rightarrow> string \<Rightarrow> string option" where
  "take_char c s = (case s of [] \<Rightarrow> None | x # r \<Rightarrow> if x = c then Some r else None)"

lemma take_digits_padw [text_simps]:
  "n < 10 ^ w \<Longrightarrow> take_digits w (padw w n @ r) = Some (n, r)"
  using padw_digits [of w n] by (simp add: take_digits_def read_padw list_all_iff)

lemma take_char_same [simp]: "take_char c (c # r) = Some r"
  by (simp add: take_char_def)

text \<open>\<open>time.Parse("2006-01-02", s)\<close>: midnight UTC of the day, or an error.\<close>

definition parse_date :: "string \<Rightarrow> go_time option" where
  "parse_date s = do {
     (y, s) \<leftarrow> take_digits 4 s;
     s \<leftarrow> take_char CHR ''-'' s;
     (m, s) \<leftarrow> take_digits 2 s;
     s \<leftarrow> take_char CHR ''-'' s;
     (d, s) \<leftarrow> take_digits 2 s;
     if s = [] \<and> valid_civil (int y) (int m) (int d)
     then Some \<lparr>instant = days_of_civil (int y) (int m) (int d) * day_ns, zone_off = 0\<rparr>
     else None
   }"

definition midnight :: "int \<Rightarrow> go_time" where
  "midnight n = \<lparr>instant = n * day_ns, zone_off = 0\<rparr>"

lemma day_of_midnight [simp]: "day_of (midnight n) = n"
  by (simp add: day_of_def wall_def midnight_def day_ns_def)

lemma instant_midnight [simp]: "instant (midnight n) = n * day_ns"
  by (simp add: midnight_def)

lemma zone_off_midnight [simp]: "zone_off (midnight n) = 0"
  by (simp add: midnight_def)

lemma parse_date_fmt_day [text_simps]:
  assumes "in_years n"
  shows "parse_date (fmt_day n) = Some (midnight n)"
proof -
  obtain y m d where c: "civil_of_days n = (y, m, d)" by (cases "civil_of_days n")
  note f = fmt_day_padw [OF assms c]
  have b: "nat y < 10 ^ 4" "nat m < 10 ^ 2" "nat d < 10 ^ 2" using f(2-) by auto
  have "take_digits 2 (padw 2 (nat d)) = Some (nat d, [])"
    using take_digits_padw [OF b(3), of "[]"] by simp
  with f b civil_of_days_correct [OF c] show ?thesis
    by (simp add: parse_date_def take_digits_padw midnight_def)
qed

lemma take_digits_SomeD:
  assumes "take_digits w s = Some (n, r)"
  shows "s = padw w n @ r \<and> n < 10 ^ w"
proof -
  from assms have w: "w \<le> length s" "list_all is_digit (take w s)" "n = read_nat (take w s)"
      "r = drop w s"
    by (auto simp: take_digits_def split: if_splits)
  then have "length (take w s) = w" by simp
  with read_nat_digits [OF w(2)] have "padw w n = take w s" "n < 10 ^ w"
    unfolding w(3) by simp_all
  then show ?thesis by (simp add: w(4))
qed

lemma take_char_SomeD: "take_char c s = Some r \<Longrightarrow> s = c # r"
  by (auto simp: take_char_def split: list.splits if_splits)

text \<open>Only the text of a day in the years 0 to 9999 is accepted.\<close>

lemma parse_date_SomeD:
  assumes "parse_date s = Some t"
  shows "\<exists>n. in_years n \<and> s = fmt_day n \<and> t = midnight n"
proof -
  from assms obtain y m d s1 s2 s3 s4 where
    p: "take_digits 4 s = Some (y, s1)" "take_char CHR ''-'' s1 = Some s2"
      "take_digits 2 s2 = Some (m, s3)" "take_char CHR ''-'' s3 = Some s4"
      "take_digits 2 s4 = Some (d, [])" and v: "valid_civil (int y) (int m) (int d)"
    and t: "t = \<lparr>instant = days_of_civil (int y) (int m) (int d) * day_ns, zone_off = 0\<rparr>"
    by (auto simp: parse_date_def bind_eq_Some_conv split: if_splits)
  note q = p(1,3,5) [THEN take_digits_SomeD] p(2,4) [THEN take_char_SomeD]
  define n where "n = days_of_civil (int y) (int m) (int d)"
  have c: "civil_of_days n = (int y, int m, int d)"
    unfolding n_def by (rule civil_of_days_of_civil [OF v])
  then have "year_of n = int y" by (auto simp: civil_of_days_def Let_def)
  with q have iy: "in_years n" by (simp add: in_years_def)
  have "fmt_day n = s" using fmt_day_padw(1) [OF iy c] q by simp
  with iy t show ?thesis by (auto simp: n_def midnight_def)
qed

section \<open>The layout RFC3339Nano\<close>

definition clock_secs :: "go_time \<Rightarrow> nat" where
  "clock_secs t = nat (ns_of_day t div second_ns)"

definition subsec :: "go_time \<Rightarrow> nat" where
  "subsec t = nat (ns_of_day t mod second_ns)"

definition fmt_clock :: "nat \<Rightarrow> string" where
  "fmt_clock n = zpad 2 (n div 3600) @ '':'' @ zpad 2 (n mod 3600 div 60) @ '':'' @ zpad 2 (n mod 60)"

definition trim_zeros :: "string \<Rightarrow> string" where
  "trim_zeros s = rev (dropWhile (\<lambda>c. c = CHR ''0'') (rev s))"

definition fmt_frac :: "nat \<Rightarrow> string" where
  "fmt_frac ns = (if ns = 0 then [] else CHR ''.'' # trim_zeros (padw 9 ns))"

definition fmt_zone :: "int \<Rightarrow> string" where
  "fmt_zone off =
     (if off = 0 then ''Z''
      else let z = nat \<bar>off\<bar> div 60
           in (if off \<le> - 60 then CHR ''-'' else CHR ''+'') #
              zpad 2 (z div 60) @ '':'' @ zpad 2 (z mod 60))"

text \<open>\<open>t.Format(time.RFC3339Nano)\<close>: trailing zeros of the fraction are not printed.\<close>

definition format_rfc3339nano :: "go_time \<Rightarrow> string" where
  "format_rfc3339nano t =
     format_date t @ ''T'' @ fmt_clock (clock_secs t) @ fmt_frac (subsec t) @ fmt_zone (zone_off t)"

definition take_num :: "string \<Rightarrow> (nat \<times> string) option" where
  "take_num s =
     (case take_digits 2 s of
        Some r \<Rightarrow> Some r
      | None \<Rightarrow> take_digits 1 s)"

definition nanos :: "string \<Rightarrow> nat" where
  "nanos ds = read_nat (take 9 ds) * 10 ^ (9 - length (take 9 ds))"

definition take_frac :: "string \<Rightarrow> nat \<times> string" where
  "take_frac s =
     (case s of
        p # c # r \<Rightarrow>
          (if (p = CHR ''.'' \<or> p = CHR '','') \<and> is_digit c
           then (nanos (takeWhile is_digit (c # r)), dropWhile is_digit (c # r))
           else (0, s))
      | _ \<Rightarrow> (0, s))"

definition take_zone :: "string \<Rightarrow> (int \<times> string) option" where
  "take_zone s =
     (case s of
        [] \<Rightarrow> None
      | g # r \<Rightarrow>
          if g = CHR ''Z'' then Some (0, r)
          else if g = CHR ''+'' \<or> g = CHR ''-'' then do {
            (h, r) \<leftarrow> take_digits 2 r;
            r \<leftarrow> take_char CHR '':'' r;
            (m, r) \<leftarrow> take_digits 2 r;
            if h \<le> 24 \<and> m \<le> 60
            then Some ((if g = CHR ''-'' then -1 else 1) * int (h * 60 + m) * 60, r) else None
          }
          else None)"

text \<open>\<open>time.Parse(time.RFC3339Nano, s)\<close>\<close>

definition parse_rfc3339nano :: "string \<Rightarrow> go_time option" where
  "parse_rfc3339nano s = do {
     (y, s) \<leftarrow> take_digits 4 s;
     s \<leftarrow> take_char CHR ''-'' s;
     (m, s) \<leftarrow> take_digits 2 s;
     s \<leftarrow> take_char CHR ''-'' s;
     (d, s) \<leftarrow> take_digits 2 s;
     s \<leftarrow> take_char CHR ''T'' s;
     (hh, s) \<leftarrow> take_num s;
     s \<leftarrow> take_char CHR '':'' s;
     (mm, s) \<leftarrow> take_digits 2 s;
     s \<leftarrow> take_char CHR '':'' s;
     (ss, s) \<leftarrow> take_digits 2 s;
     (ns, s) \<leftarrow> Some (take_frac s);
     (off, s) \<leftarrow> take_zone s;
     if s = [] \<and> valid_civil (int y) (int m) (int d) \<and> hh < 24 \<and> mm < 60 \<and> ss < 60
     then Some \<lparr>instant = days_of_civil (int y) (int m) (int d) * day_ns
                  + int (hh * 3600 + mm * 60 + ss) * second_ns + int ns - off * second_ns,
               zone_off = off\<rparr>
     else None
   }"

lemma clock_bounds: "clock_secs t < 86400" "subsec t < 1000000000"
  using ns_of_day_bounds [of t]
  by (simp_all add: clock_secs_def subsec_def second_ns_def day_ns_def nat_less_iff)

lemma wall_parts: "wall t = day_of t * day_ns + int (clock_secs t) * second_ns + int (subsec t)"
  using wall_split [of t] ns_of_day_bounds [of t]
  by (simp add: clock_secs_def subsec_def second_ns_def pos_imp_zdiv_nonneg_iff)

lemma trim_zeros_split: "\<exists>k. s = trim_zeros s @ replicate k CHR ''0''"
proof -
  let ?z = "\<lambda>c. c = CHR ''0''"
  have "s = rev (takeWhile ?z (rev s) @ dropWhile ?z (rev s))"
    by simp
  also have "\<dots> = trim_zeros s @ rev (takeWhile ?z (rev s))"
    by (simp only: rev_append trim_zeros_def)
  also have "takeWhile ?z (rev s) = replicate (length (takeWhile ?z (rev s))) CHR ''0''"
    by (metis (full_types) replicate_eqI set_takeWhileD)
  finally show ?thesis by (metis rev_replicate)
qed

lemma digit_val_zero [simp]: "digit_val CHR ''0'' = 0" "is_digit CHR ''0''"
  by (simp_all add: digit_val_def is_digit_def)

lemma read_nat_zeros: "read_nat (s @ replicate k CHR ''0'') = read_nat s * 10 ^ k"
proof (induction k)
  case (Suc k)
  have "read_nat ((s @ replicate k CHR ''0'') @ [CHR ''0'']) = 10 * read_nat (s @ replicate k CHR ''0'')"
    by (simp only: read_nat_snoc digit_val_zero)
  with Suc show ?case by (simp add: replicate_append_same)
qed simp

lemma nanos_trim_zeros:
  assumes "ns < 10 ^ 9"
  shows "nanos (trim_zeros (padw 9 ns)) = ns"
proof -
  obtain k where k: "padw 9 ns = trim_zeros (padw 9 ns) @ replicate k CHR ''0''"
    using trim_zeros_split by blast
  then have "9 = length (trim_zeros (padw 9 ns)) + k"
    by (metis length_append length_padw length_replicate)
  then have "9 - length (trim_zeros (padw 9 ns)) = k" "length (trim_zeros (padw 9 ns)) \<le> 9"
    by linarith+
  moreover have "read_nat (trim_zeros (padw 9 ns)) * 10 ^ k = ns"
    using k read_nat_zeros read_padw [OF assms] by metis
  ultimately show ?thesis by (simp only: nanos_def take_all)
qed

lemma trim_zeros_ne:
  assumes "0 < ns" and "ns < 10 ^ 9"
  shows "\<exists>c r. trim_zeros (padw 9 ns) = c # r \<and> list_all is_digit (c # r)"
proof -
  obtain k where k: "padw 9 ns = trim_zeros (padw 9 ns) @ replicate k CHR ''0''"
    using trim_zeros_split by blast
  then have "list_all is_digit (trim_zeros (padw 9 ns))"
    using padw_digits [of 9 ns] by (metis list_all_append list_all_iff)
  moreover have "trim_zeros (padw 9 ns) \<noteq> []"
    using nanos_trim_zeros [OF assms(2)] assms(1) by (auto simp: nanos_def)
  ultimately show ?thesis by (cases "trim_zeros (padw 9 ns)") auto
qed

lemma take_frac_fmt_frac:
  assumes "ns < 10 ^ 9" and "\<not> is_digit c" and "c \<noteq> CHR ''.''" and "c \<noteq> CHR '',''"
  shows "take_frac (fmt_frac ns @ c # r) = (ns, c # r)"
proof (cases "ns = 0")
  case True
  with assms show ?thesis by (cases r) (simp_all add: fmt_frac_def take_frac_def)
next
  case False
  then obtain d ds where d: "trim_zeros (padw 9 ns) = d # ds" "list_all is_digit (d # ds)"
    using trim_zeros_ne [of ns] assms(1) by auto
  then have "takeWhile is_digit ((d # ds) @ c # r) = d # ds"
    "dropWhile is_digit ((d # ds) @ c # r) = c # r"
    using assms(2) takeWhile_append_stop [of "d # ds" is_digit c r]
      dropWhile_append_stop [of "d # ds" is_digit c r] by (simp_all add: list_all_iff)
  with d nanos_trim_zeros [OF assms(1)] False show ?thesis
    by (simp add: fmt_frac_def take_frac_def)
qed

text \<open>The offsets that the layout can print: whole minutes, less than 25 hours.\<close>

definition zone_ok :: "go_time \<Rightarrow> bool" where
  "zone_ok t \<longleftrightarrow> zone_off t mod 60 = 0 \<and> \<bar>zone_off t\<bar> < 90000"

lemma take_zone_fmt_zone:
  assumes "off mod 60 = 0" and "\<bar>off\<bar> < 90000"
  shows "take_zone (fmt_zone off) = Some (off, [])"
proof (cases "off = 0")
  case True
  then show ?thesis by (simp add: fmt_zone_def take_zone_def)
next
  case False
  define z where "z = nat \<bar>off\<bar> div 60"
  have off: "int z * 60 = \<bar>off\<bar>"
    using assms(1) by (simp add: z_def zdiv_int mod_eq_0_iff_dvd)
  with False have "0 < z" by (cases z) auto
  have z: "z div 60 < 25" "z mod 60 < 60" using off assms(2) by simp_all
  then have zp: "zpad 2 (z div 60) = padw 2 (z div 60)" "zpad 2 (z mod 60) = padw 2 (z mod 60)"
    by (simp_all only: zpad_2)
  have d: "take_digits 2 (padw 2 (z div 60) @ r) = Some (z div 60, r)"
    "take_digits 2 (padw 2 (z mod 60)) = Some (z mod 60, [])" for r
    using z take_digits_padw [of "z mod 60" 2 "[]"] by (simp_all add: take_digits_padw)
  have "int (z div 60 * 60 + z mod 60) = int z" by simp
  then have v: "int (z div 60 * 60 + z mod 60) * 60 = \<bar>off\<bar>" using off by simp
  show ?thesis
  proof (cases "off < 0")
    case True
    with off \<open>0 < z\<close> have "off \<le> - 60" by linarith
    then show ?thesis
      using False v z True unfolding fmt_zone_def take_zone_def Let_def z_def [symmetric] zp
      by (simp add: d)
  next
    case nonneg: False
    then have "\<not> off \<le> - 60" by simp
    then show ?thesis
      using False v z nonneg unfolding fmt_zone_def take_zone_def Let_def z_def [symmetric] zp
      by (simp add: d)
  qed
qed

lemma fmt_zone_head: "\<exists>c r. fmt_zone off = c # r \<and> c \<in> {CHR ''Z'', CHR ''+'', CHR ''-''}"
  by (simp add: fmt_zone_def Let_def)

lemma hms_sum: "n div 3600 * 3600 + n mod 3600 div 60 * 60 + n mod 60 = (n::nat)"
proof -
  have "n mod 60 = n mod 3600 mod 60" by (simp add: mod_mod_cancel)
  then have "n mod 3600 div 60 * 60 + n mod 60 = n mod 3600"
    by (simp only: div_mult_mod_eq)
  then show ?thesis by (metis add.assoc div_mult_mod_eq)
qed

text \<open>A stored timestamp reads back as the instant and the offset that were printed.\<close>

lemma parse_format_rfc3339nano [text_simps]:
  assumes "in_years (day_of t)" and "zone_ok t"
  shows "parse_rfc3339nano (format_rfc3339nano t) = Some t"
proof -
  obtain y m d where c: "civil_of_days (day_of t) = (y, m, d)"
    by (cases "civil_of_days (day_of t)")
  note f = fmt_day_padw [OF assms(1) c]
  define n where "n = clock_secs t"
  have n: "n < 86400" and ns: "subsec t < 10 ^ 9" using clock_bounds [of t] by (simp_all add: n_def)
  then have h: "n div 3600 < 24" "n mod 3600 div 60 < 60" "n mod 60 < 60"
    by (simp_all add: less_mult_imp_div_less)
  then have clock: "fmt_clock n =
      padw 2 (n div 3600) @ '':'' @ padw 2 (n mod 3600 div 60) @ '':'' @ padw 2 (n mod 60)"
    by (simp only: fmt_clock_def zpad_2)
  have num: "take_num (padw 2 (n div 3600) @ r) = Some (n div 3600, r)" for r
    using h by (simp add: take_num_def take_digits_padw)
  obtain x r where x: "fmt_zone (zone_off t) = x # r" "x \<in> {CHR ''Z'', CHR ''+'', CHR ''-''}"
    using fmt_zone_head by blast
  then have frac: "take_frac (fmt_frac (subsec t) @ fmt_zone (zone_off t)) = (subsec t, fmt_zone (zone_off t))"
    using take_frac_fmt_frac [OF ns, of x r] by (auto simp: is_digit_def)
  have zone: "take_zone (fmt_zone (zone_off t)) = Some (zone_off t, [])"
    using assms(2) by (intro take_zone_fmt_zone) (simp_all add: zone_ok_def)
  have secs: "n div 3600 * 3600 + n mod 3600 div 60 * 60 + n mod 60 = n"
    by (rule hms_sum)
  have civil: "valid_civil y m d" "days_of_civil y m d = day_of t"
    using civil_of_days_correct [OF c] by simp_all
  have inst: "day_of t * day_ns + int n * second_ns + int (subsec t) - zone_off t * second_ns = instant t"
    using wall_parts [of t] by (simp add: n_def wall_def)
  have "parse_rfc3339nano (format_rfc3339nano t) =
      Some \<lparr>instant = day_of t * day_ns + int n * second_ns + int (subsec t) - zone_off t * second_ns,
            zone_off = zone_off t\<rparr>"
    using f(2-) h
    by (simp add: parse_rfc3339nano_def format_rfc3339nano_def format_date_def f(1) clock
        n_def [symmetric] take_digits_padw num frac zone civil secs)
  then show ?thesis unfolding inst by simp
qed

section \<open>The order of stored timestamps\<close>

text \<open>
  The first 19 bytes of a stored timestamp (date and clock) sort as the seconds do. The rest does
  not: the fraction is printed without trailing zeros, so it has no fixed width.
\<close>

definition wall_sec :: "go_time \<Rightarrow> int" where
  "wall_sec t = wall t div second_ns"

lemma wall_sec_eq: "wall_sec t = day_of t * 86400 + int (clock_secs t)"
proof -
  have "0 \<le> ns_of_day t div second_ns"
    using ns_of_day_bounds [of t] by (simp add: second_ns_def pos_imp_zdiv_nonneg_iff)
  then have "int (clock_secs t) = ns_of_day t div second_ns" by (simp add: clock_secs_def)
  moreover have "(day_of t * 86400 * second_ns + ns_of_day t) div second_ns =
      day_of t * 86400 + ns_of_day t div second_ns"
    by (simp add: second_ns_def)
  moreover have "day_of t * day_ns = day_of t * 86400 * second_ns"
    by (simp add: day_ns_def second_ns_def)
  ultimately show ?thesis by (simp only: wall_sec_def wall_split [of t])
qed

lemma lex_hms:
  fixes a b c a' b' c' :: nat
  assumes "a * 3600 + b * 60 + c < a' * 3600 + b' * 60 + c'"
    and "b < 60" and "b' < 60" and "c < 60" and "c' < 60"
  shows "a < a' \<or> a = a' \<and> (b < b' \<or> b = b' \<and> c < c')"
proof (rule ccontr)
  assume "\<not> ?thesis"
  then consider "a' < a" | "a = a'" "b' < b" | "a = a'" "b = b'" "c' \<le> c" by linarith
  then show False using assms by cases linarith+
qed

lemma clock_text_less:
  assumes "a < a' \<or> a = a' \<and> (b < b' \<or> b = b' \<and> c < c')"
    and "a < 60" "a' < 60" "b < 60" "b' < 60" "c < 60" "c' < 60"
  shows "padw 2 a @ '':'' @ padw 2 b @ '':'' @ padw 2 c < padw 2 a' @ '':'' @ padw 2 b' @ '':'' @ padw 2 c'"
  using assms by (auto simp: less_append_same_length padw_less_iff padw_inj)

lemma fmt_clock_less:
  assumes "m < n" and "n < 86400"
  shows "fmt_clock m < fmt_clock n" and "length (fmt_clock m) = length (fmt_clock n)"
proof -
  have b: "k div 3600 < 24" "k mod 3600 div 60 < 60" "k mod 60 < 60" if "k < 86400" for k :: nat
    using that by (simp_all add: less_mult_imp_div_less)
  have f: "fmt_clock k =
      padw 2 (k div 3600) @ '':'' @ padw 2 (k mod 3600 div 60) @ '':'' @ padw 2 (k mod 60)"
    if "k < 86400" for k using b [OF that] by (simp only: fmt_clock_def zpad_2)
  have "m < 86400" using assms by simp
  then show "length (fmt_clock m) = length (fmt_clock n)" using assms by (simp add: f)
  note bm = b [OF \<open>m < 86400\<close>] and bn = b [OF assms(2)]
  have h: "m div 3600 < 60" "n div 3600 < 60" by (rule less_trans [OF bm(1)], simp) (rule less_trans [OF bn(1)], simp)
  have "m div 3600 < n div 3600 \<or> m div 3600 = n div 3600 \<and>
      (m mod 3600 div 60 < n mod 3600 div 60 \<or>
       m mod 3600 div 60 = n mod 3600 div 60 \<and> m mod 60 < n mod 60)"
    by (rule lex_hms, unfold hms_sum, rule assms(1)) (fact bm bn)+
  then show "fmt_clock m < fmt_clock n"
    unfolding f [OF \<open>m < 86400\<close>] f [OF assms(2)]
    by (rule clock_text_less) (fact h bm bn)+
qed

lemma stamp_order:
  assumes "in_years (day_of a)" and "in_years (day_of b)" and "wall_sec a < wall_sec b"
  shows "format_rfc3339nano a < format_rfc3339nano b"
proof -
  have c: "clock_secs a < 86400" "clock_secs b < 86400" by (rule clock_bounds)+
  then have "day_of a < day_of b \<or> day_of a = day_of b \<and> clock_secs a < clock_secs b"
    using assms(3) by (simp add: wall_sec_eq) linarith
  then show ?thesis
  proof
    assume "day_of a < day_of b"
    then have "fmt_day (day_of a) < fmt_day (day_of b)" using assms by (simp add: fmt_day_less_iff)
    then show ?thesis
      using assms by (simp add: format_rfc3339nano_def format_date_def less_append_same_length length_fmt_day)
  next
    assume d: "day_of a = day_of b \<and> clock_secs a < clock_secs b"
    from d fmt_clock_less [OF _ c(2)] show ?thesis
      by (simp add: format_rfc3339nano_def format_date_def less_append_same_length)
  qed
qed

end
