(* ===== verification/Levels.thy ===== *)
theory Levels
  imports Main Prelude Go_Strings
begin

text \<open>
  Log levels: the detection of a level token in a line (\<open>internal/tailer/level.go\<close>) and the
  severity order of the search filter (\<open>severityOf\<close> and \<open>levelsAtOrAbove\<close> of
  \<open>internal/storage/sqlite.go\<close>). The regular expression is run as Go's \<open>regexp\<close> runs it: the
  leftmost position first, the alternatives in the order they are written.
\<close>

section \<open>detectLevel\<close>

definition is_word :: "char \<Rightarrow> bool" where
  "is_word c \<longleftrightarrow> (48 \<le> byte c \<and> byte c \<le> 57) \<or> (65 \<le> byte c \<and> byte c \<le> 90)
     \<or> (97 \<le> byte c \<and> byte c \<le> 122) \<or> byte c = 95"

definition is_word_opt :: "char option \<Rightarrow> bool" where
  "is_word_opt oc = (case oc of None \<Rightarrow> False | Some c \<Rightarrow> is_word c)"

text \<open>\<open>\b\<close>: exactly one of the characters around the position is a word character.\<close>

definition word_boundary :: "char option \<Rightarrow> char option \<Rightarrow> bool" where
  "word_boundary p n \<longleftrightarrow> is_word_opt p \<noteq> is_word_opt n"

definition first_char :: "string \<Rightarrow> char option" where
  "first_char s = (case s of [] \<Rightarrow> None | c # _ \<Rightarrow> Some c)"

definition last_char :: "string \<Rightarrow> char option" where
  "last_char s = (if s = [] then None else Some (last s))"

definition level_tokens :: "string list" where
  "level_tokens = [''FATAL'', ''ERROR'', ''WARNING'', ''WARN'', ''INFO'', ''DEBUG'', ''TRACE'']"

text \<open>The alternatives at one position: \<open>prev\<close> is the character before it.\<close>

fun match_tokens :: "char option \<Rightarrow> string \<Rightarrow> string list \<Rightarrow> string option" where
  "match_tokens prev s [] = None"
| "match_tokens prev s (tok # toks) =
     (let m = take (length tok) s; r = drop (length tok) s
      in if map ascii_upper m = tok \<and> word_boundary prev (first_char s)
            \<and> word_boundary (last_char m) (first_char r)
         then Some m else match_tokens prev s toks)"

fun find_level :: "char option \<Rightarrow> string \<Rightarrow> string option" where
  "find_level prev [] = match_tokens prev [] level_tokens"
| "find_level prev (c # s) =
     (case match_tokens prev (c # s) level_tokens of
        Some m \<Rightarrow> Some m
      | None \<Rightarrow> find_level (Some c) s)"

definition detect_level :: "string \<Rightarrow> string" where
  "detect_level line =
     (case find_level None line of
        None \<Rightarrow> ''''
      | Some m \<Rightarrow> let level = to_upper m in if level = ''WARNING'' then ''WARN'' else level)"

text \<open>The reference: the first whole word of the line that is a level token, case ignored.\<close>

function words_of :: "string \<Rightarrow> string list" where
  "words_of s =
     (case dropWhile (\<lambda>c. \<not> is_word c) s of
        [] \<Rightarrow> []
      | c # r \<Rightarrow> (c # takeWhile is_word r) # words_of (dropWhile is_word r))"
  by pat_completeness auto
termination
proof (relation "measure length")
  fix s c r
  assume "dropWhile (\<lambda>c. \<not> is_word c) s = c # r"
  then have "length (c # r) \<le> length s" by (metis length_dropWhile_le)
  then show "(dropWhile is_word r, s) \<in> measure length"
    using length_dropWhile_le [of is_word r] by simp
qed simp

declare words_of.simps [simp del]

definition is_level_word :: "string \<Rightarrow> bool" where
  "is_level_word w \<longleftrightarrow> map ascii_upper w \<in> set level_tokens"

definition normal_level :: "string \<Rightarrow> string" where
  "normal_level w = (let u = map ascii_upper w in if u = ''WARNING'' then ''WARN'' else u)"

definition detect_level_spec :: "string \<Rightarrow> string" where
  "detect_level_spec line =
     (case find is_level_word (words_of line) of None \<Rightarrow> '''' | Some w \<Rightarrow> normal_level w)"

lemma is_word_upper: "is_word (ascii_upper c) = is_word c"
  by (auto simp: is_word_def ascii_upper_def)

lemma token_words: "tok \<in> set level_tokens \<Longrightarrow> tok \<noteq> [] \<and> list_all is_word tok"
  by (auto simp: level_tokens_def is_word_def)

lemma upper_token_word: "map ascii_upper m \<in> set level_tokens \<Longrightarrow> m \<noteq> [] \<and> list_all is_word m"
proof -
  assume "map ascii_upper m \<in> set level_tokens"
  from token_words [OF this] show ?thesis by (auto simp: list_all_iff is_word_upper)
qed

text \<open>A match at a position is the whole word that starts there.\<close>

lemma whole_word:
  assumes "list_all is_word m" and "m \<noteq> []" and "word_boundary (last_char m) (first_char r)"
  shows "takeWhile is_word (m @ r) = m"
proof -
  have "is_word (last m)" using assms(1,2) by (simp add: list_all_iff)
  then have "\<not> is_word_opt (first_char r)"
    using assms(2,3) by (simp add: word_boundary_def last_char_def is_word_opt_def)
  then have "takeWhile is_word r = []"
    by (cases r) (auto simp: first_char_def is_word_opt_def)
  with assms(1) show ?thesis by (simp add: takeWhile_append list_all_iff)
qed

lemma match_tokens_Some:
  assumes "match_tokens prev s toks = Some m" and "set toks \<subseteq> set level_tokens"
  shows "m = takeWhile is_word s \<and> map ascii_upper m \<in> set toks \<and> \<not> is_word_opt prev"
  using assms
proof (induction prev s toks rule: match_tokens.induct)
  case (2 prev s tok toks)
  let ?m = "take (length tok) s" and ?r = "drop (length tok) s"
  show ?case
  proof (cases "map ascii_upper ?m = tok \<and> word_boundary prev (first_char s)
      \<and> word_boundary (last_char ?m) (first_char ?r)")
    case True
    with "2.prems" have m: "m = ?m" and w: "?m \<noteq> [] \<and> list_all is_word ?m"
      using upper_token_word [of ?m] by auto
    have "takeWhile is_word (?m @ ?r) = ?m" using w True by (intro whole_word) auto
    moreover have "is_word_opt (first_char s)"
      using w by (cases s) (auto simp: first_char_def is_word_opt_def list_all_iff take_Cons' split: if_splits)
    ultimately show ?thesis using True m by (auto simp: word_boundary_def)
  next
    case False
    with 2 show ?thesis by (auto simp: Let_def)
  qed
qed simp

lemma no_word_after_word: "\<not> is_word_opt (first_char (dropWhile is_word s))"
  by (induction s) (auto simp: first_char_def is_word_opt_def)

lemma match_tokens_word:
  assumes "map ascii_upper w \<in> set toks" and "w = takeWhile is_word s" and "\<not> is_word_opt prev"
    and "set toks \<subseteq> set level_tokens"
  shows "match_tokens prev s toks = Some w"
  using assms
proof (induction prev s toks rule: match_tokens.induct)
  case (2 prev s tok toks)
  show ?case
  proof (cases "map ascii_upper w = tok")
    case True
    have len: "length tok = length w" using True by auto
    then have t: "take (length tok) s = w" "drop (length tok) s = dropWhile is_word s"
      by (metis "2.prems"(2) append_eq_conv_conj takeWhile_dropWhile_id)+
    have w: "w \<noteq> []" "list_all is_word w"
      using upper_token_word [of w] "2.prems" True by auto
    then have "is_word_opt (first_char s)"
      using "2.prems"(2) by (cases s) (auto simp: first_char_def is_word_opt_def split: if_splits)
    moreover have "\<not> is_word_opt (first_char (dropWhile is_word s))"
      by (rule no_word_after_word)
    moreover have "is_word_opt (last_char w)"
      using w by (simp add: last_char_def is_word_opt_def list_all_iff)
    ultimately show ?thesis
      using True "2.prems"(3) by (simp add: Let_def t word_boundary_def)
  next
    case False
    with "2.prems" have "map ascii_upper w \<in> set toks" by auto
    moreover have "\<not> (map ascii_upper (take (length tok) s) = tok \<and> word_boundary prev (first_char s)
        \<and> word_boundary (last_char (take (length tok) s)) (first_char (drop (length tok) s)))"
    proof
      assume a: "map ascii_upper (take (length tok) s) = tok \<and> word_boundary prev (first_char s)
        \<and> word_boundary (last_char (take (length tok) s)) (first_char (drop (length tok) s))"
      have "takeWhile is_word (take (length tok) s @ drop (length tok) s) = take (length tok) s"
        using upper_token_word [of "take (length tok) s"] a "2.prems"(4) by (intro whole_word) auto
      with False a "2.prems"(2) show False by simp
    qed
    ultimately show ?thesis using "2.IH" "2.prems" by (auto simp: Let_def)
  qed
qed simp

lemma match_level_tokens:
  "match_tokens prev s level_tokens =
     (if is_word_opt prev \<or> \<not> is_level_word (takeWhile is_word s) then None
      else Some (takeWhile is_word s))"
proof (cases "match_tokens prev s level_tokens")
  case None
  then show ?thesis
    using match_tokens_word [of "takeWhile is_word s" level_tokens s prev]
    by (auto simp: is_level_word_def)
next
  case (Some m)
  with match_tokens_Some [OF this] show ?thesis by (auto simp: is_level_word_def)
qed

text \<open>Inside a word the scan runs to the word's end; between words, to the next word.\<close>

lemma find_level_in_word:
  "is_word_opt prev \<Longrightarrow> find_level prev s =
     (case dropWhile is_word s of [] \<Rightarrow> None | c # r \<Rightarrow> find_level (Some c) r)"
proof (induction prev s rule: find_level.induct)
  case (2 prev c s)
  show ?case
  proof (cases "is_word c")
    case True
    with 2 show ?thesis by (simp add: match_level_tokens is_word_opt_def)
  next
    case False
    with 2 show ?thesis by (simp add: match_level_tokens)
  qed
qed (simp add: match_level_tokens)

lemma not_level_Nil [simp]: "\<not> is_level_word []"
  by (simp add: is_level_word_def level_tokens_def)

lemma find_level_words:
  "\<not> is_word_opt prev \<Longrightarrow> find_level prev s = find is_level_word (words_of s)"
proof (induction "length s" arbitrary: prev s rule: less_induct)
  case less
  show ?case
  proof (cases s)
    case Nil
    then show ?thesis by (simp add: match_level_tokens words_of.simps [of "[]"])
  next
    case (Cons c r)
    show ?thesis
    proof (cases "is_word c")
      case False
      with less.prems Cons have "find_level prev s = find_level (Some c) r"
        by (simp add: match_level_tokens)
      also have "\<dots> = find is_level_word (words_of r)"
        using Cons False by (intro less.hyps) (simp_all add: is_word_opt_def)
      also have "words_of r = words_of s"
        using False by (simp add: Cons words_of.simps [of r] words_of.simps [of "c # r"])
      finally show ?thesis .
    next
      case True
      let ?w = "takeWhile is_word s" and ?r = "dropWhile is_word s"
      have ws: "words_of s = ?w # words_of ?r"
        using True by (simp add: Cons words_of.simps [of "c # r"])
      have rest: "find_level (Some c) r = find is_level_word (words_of ?r)"
      proof (cases ?r)
        case Nil
        with True Cons have "dropWhile is_word r = []" by simp
        with True Nil show ?thesis
          by (simp add: find_level_in_word is_word_opt_def words_of.simps [of "[]"]
              del: dropWhile_eq_Nil_conv)
      next
        case r: (Cons d t)
        then have nd: "\<not> is_word d" by (metis dropWhile_eq_Cons_conv)
        have "length t < length s" using r length_dropWhile_le [of is_word s] by simp
        with nd have "find_level (Some d) t = find is_level_word (words_of t)"
          by (intro less.hyps) (simp_all add: is_word_opt_def)
        moreover have "words_of t = words_of ?r"
          using nd unfolding r by (simp add: words_of.simps [of t] words_of.simps [of "d # t"])
        moreover have "dropWhile is_word r = d # t" using r True Cons by simp
        ultimately show ?thesis using True by (simp add: find_level_in_word is_word_opt_def)
      qed
      show ?thesis
        using less.prems rest ws Cons by (simp add: match_level_tokens)
    qed
  qed
qed

lemma find_SomeD: "find P xs = Some x \<Longrightarrow> P x"
  by (induction xs) (auto split: if_splits)

lemma find_level_SomeD: "find_level None line = Some m \<Longrightarrow> is_level_word m"
proof -
  assume "find_level None line = Some m"
  then have "find is_level_word (words_of line) = Some m"
    by (simp only: find_level_words is_word_opt_def option.case not_False_eq_True)
  then show ?thesis by (rule find_SomeD)
qed

lemma is_level_word_ascii: "is_level_word m \<Longrightarrow> is_ascii m"
proof -
  assume "is_level_word m"
  then have "list_all is_word m" using upper_token_word [of m] by (simp add: is_level_word_def)
  then show ?thesis by (auto simp: is_ascii_def list_all_iff is_word_def)
qed

section \<open>The severity order\<close>

definition level_order :: "string list" where
  "level_order = [''FATAL'', ''ERROR'', ''WARN'', ''INFO'', ''DEBUG'', ''TRACE'']"

fun index_from :: "int \<Rightarrow> string list \<Rightarrow> string \<Rightarrow> int \<times> bool" where
  "index_from i [] level = (-1, False)"
| "index_from i (l # ls) level = (if l = level then (i, True) else index_from (i + 1) ls level)"

definition severity_of :: "string \<Rightarrow> int \<times> bool" where
  "severity_of level = index_from 0 level_order (to_upper level)"

definition levels_at_or_above :: "string \<Rightarrow> string list \<times> bool" where
  "levels_at_or_above min_level =
     (case severity_of min_level of (idx, ok) \<Rightarrow>
        if \<not> ok then ([], False) else (take (nat (idx + 1)) level_order, True))"

lemma severity_of_cases:
  "severity_of l = (if to_upper l = ''FATAL'' then (0, True) else if to_upper l = ''ERROR'' then (1, True)
     else if to_upper l = ''WARN'' then (2, True) else if to_upper l = ''INFO'' then (3, True)
     else if to_upper l = ''DEBUG'' then (4, True) else if to_upper l = ''TRACE'' then (5, True)
     else (-1, False))"
  by (simp add: severity_of_def level_order_def eq_commute)

lemma severity_of_names:
  "severity_of ''FATAL'' = (0, True)" "severity_of ''ERROR'' = (1, True)"
  "severity_of ''WARN'' = (2, True)" "severity_of ''INFO'' = (3, True)"
  "severity_of ''DEBUG'' = (4, True)" "severity_of ''TRACE'' = (5, True)"
  by (simp_all add: severity_of_cases ascii_upper_def)

lemma level_ranks:
  "\<forall>i \<in> {0, 1, 2, 3, 4, 5}. \<forall>l \<in> set level_order.
     l \<in> set (take (nat (i + 1)) level_order) \<longleftrightarrow> fst (severity_of l) \<le> i"
  by (simp add: level_order_def severity_of_names nat_add_distrib)

section \<open>Properties\<close>

text \<open>
  C39: \<open>detectLevel\<close>, the scan by the regular expression, returns the level of the first whole
  word of the line that is a level name (case ignored), \<open>WARN\<close> for \<open>WARNING\<close>, and \<open>""\<close> for a line
  with no such word: a level name inside a longer word never counts.
\<close>

theorem detect_level_first_word: "detect_level line = detect_level_spec line"
proof (cases "find_level None line")
  case None
  then show ?thesis
    by (simp add: detect_level_def detect_level_spec_def find_level_words is_word_opt_def)
next
  case (Some m)
  then have "to_upper m = map ascii_upper m"
    by (intro to_upper_ascii is_level_word_ascii find_level_SomeD)
  with Some show ?thesis
    by (simp add: detect_level_def detect_level_spec_def find_level_words is_word_opt_def
        normal_level_def Let_def)
qed

text \<open>
  Every non-empty level that \<open>detectLevel\<close> stores is one the search filter ranks, so a
  stored level is never one that no tab can select.
\<close>

lemma detected_level_ranked:
  "detect_level line = '''' \<or>
   (detect_level line \<in> set level_order \<and> snd (severity_of (detect_level line)))"
proof (cases "find_level None line")
  case None
  then show ?thesis by (simp add: detect_level_def)
next
  case (Some m)
  then have w: "is_level_word m" by (rule find_level_SomeD)
  then have "to_upper m = map ascii_upper m" by (intro to_upper_ascii is_level_word_ascii)
  with w Some have "detect_level line \<in> set level_order"
    by (auto simp: detect_level_def is_level_word_def level_tokens_def level_order_def Let_def)
  then show ?thesis
    by (auto simp: level_order_def severity_of_names)
qed

text \<open>
  The level filter is upward closed in severity: with a recognized minimum (any case), a
  stored level passes exactly when it is recognized in upper case and ranks at least as severe;
  an unrecognized minimum filters nothing.
\<close>

lemma levels_at_or_above_spec:
  "(snd (severity_of m) \<longrightarrow> snd (levels_at_or_above m) \<and>
      (\<forall>l. l \<in> set (fst (levels_at_or_above m)) \<longleftrightarrow>
           l \<in> set level_order \<and> fst (severity_of l) \<le> fst (severity_of m)))
   \<and> (\<not> snd (severity_of m) \<longrightarrow> levels_at_or_above m = ([], False))"
proof (cases "snd (severity_of m)")
  case True
  then have "fst (severity_of m) \<in> {0, 1, 2, 3, 4, 5}"
    by (simp add: severity_of_cases split: if_splits)
  then have "\<forall>l \<in> set level_order. l \<in> set (take (nat (fst (severity_of m) + 1)) level_order) \<longleftrightarrow>
      fst (severity_of l) \<le> fst (severity_of m)"
    using level_ranks by blast
  then have "l \<in> set (take (nat (fst (severity_of m) + 1)) level_order) \<longleftrightarrow>
      l \<in> set level_order \<and> fst (severity_of l) \<le> fst (severity_of m)" for l
    by (metis in_set_takeD)
  with True show ?thesis by (cases "severity_of m") (simp add: levels_at_or_above_def)
next
  case False
  then show ?thesis by (cases "severity_of m") (simp add: levels_at_or_above_def)
qed


lemma levels_at_or_above_witness:
  "snd (levels_at_or_above ''WARN'') \<and> ''ERROR'' \<in> set (fst (levels_at_or_above ''WARN''))
   \<and> ''INFO'' \<notin> set (fst (levels_at_or_above ''WARN''))"
proof -
  have "severity_of ''WARN'' = (2, True)" "severity_of ''ERROR'' = (1, True)"
    "severity_of ''INFO'' = (3, True)"
    by (simp_all add: severity_of_names)
  moreover have "''ERROR'' \<in> set level_order" by (simp add: level_order_def)
  ultimately show ?thesis using levels_at_or_above_spec [of "''WARN''"] by simp
qed

end
