(* ===== verification/Query_Text.thy ===== *)
theory Query_Text
  imports Main Prelude Go_Strings
begin

text \<open>
  The two texts of a search that cross a trust boundary (\<open>internal/storage/sqlite.go\<close>): the search
  box query on its way into an FTS5 MATCH expression (\<open>sanitizeMatchQuery\<close>), and a line of log on its
  way into the page's \<open>innerHTML\<close> (\<open>escapeSnippet\<close>).
\<close>

section \<open>sanitizeMatchQuery\<close>

definition quote_term :: "string \<Rightarrow> string" where
  "quote_term f = ''\"'' @ replace_byte CHR ''\"'' ''\"\"'' f @ ''\"''"

definition sanitize_match_query :: "string \<Rightarrow> string" where
  "sanitize_match_query query = join (map quote_term (fields query)) '' ''"

text \<open>
  The specification side: the string literals of FTS5's query syntax. A literal is enclosed in
  double quotes, a double quote inside it is written twice, and literals separated by spaces are
  the phrases of an implicit AND.
\<close>

fun read_quoted :: "string \<Rightarrow> (string \<times> string) option" where
  "read_quoted [] = None"
| "read_quoted [c] = (if c = CHR ''\"'' then Some ([], []) else None)"
| "read_quoted (c # d # s) =
     (if c = CHR ''\"'' then
        (if d = CHR ''\"'' then map_option (\<lambda>(x, r). (CHR ''\"'' # x, r)) (read_quoted s)
         else Some ([], d # s))
      else map_option (\<lambda>(x, r). (c # x, r)) (read_quoted (d # s)))"

lemma read_quoted_shorter: "read_quoted s = Some (x, r) \<Longrightarrow> length r < length s"
  by (induction s arbitrary: x r rule: read_quoted.induct) (fastforce split: if_splits)+

function fts5_phrases :: "string \<Rightarrow> string list option" where
  "fts5_phrases [] = Some []"
| "fts5_phrases (c # s) =
     (if c = CHR '' '' then fts5_phrases s
      else if c = CHR ''\"'' then
        (case read_quoted s of
           None \<Rightarrow> None
         | Some (x, r) \<Rightarrow> map_option (\<lambda>xs. x # xs) (fts5_phrases r))
      else None)"
  by pat_completeness auto
termination
  by (relation "measure length") (auto dest: read_quoted_shorter)

lemma read_quoted_plain:
  "c \<noteq> CHR ''\"'' \<Longrightarrow> read_quoted (c # s) = map_option (\<lambda>(x, r). (c # x, r)) (read_quoted s)"
  by (cases s) auto

lemma read_quoted_close: "r = [] \<or> hd r \<noteq> CHR ''\"'' \<Longrightarrow> read_quoted (CHR ''\"'' # r) = Some ([], r)"
  by (cases r) auto

lemma read_quoted_escaped:
  "r = [] \<or> hd r \<noteq> CHR ''\"'' \<Longrightarrow>
   read_quoted (replace_byte CHR ''\"'' ''\"\"'' f @ CHR ''\"'' # r) = Some (f, r)"
proof (induction f)
  case Nil
  then show ?case by (simp add: read_quoted_close)
next
  case (Cons c f)
  then show ?case by (cases "c = CHR ''\"''") (simp_all add: read_quoted_plain)
qed

lemma fts5_phrases_quoted: "fts5_phrases (join (map quote_term fs) '' '') = Some fs"
proof (induction fs rule: induct_list012)
  case (2 f)
  show ?case by (simp add: quote_term_def read_quoted_escaped)
next
  case (3 f g fs)
  let ?rest = "CHR '' '' # join (map quote_term (g # fs)) '' ''"
  have "read_quoted (replace_byte CHR ''\"'' ''\"\"'' f @ CHR ''\"'' # ?rest) = Some (f, ?rest)"
    by (rule read_quoted_escaped) simp
  moreover have "join (map quote_term (f # g # fs)) '' '' =
      CHR ''\"'' # replace_byte CHR ''\"'' ''\"\"'' f @ CHR ''\"'' # ?rest"
    by (simp add: quote_term_def [of f])
  ultimately show ?case using 3 by simp
qed simp

section \<open>escapeSnippet\<close>

text \<open>\<open>html.EscapeString\<close> and the two sentinel bytes.\<close>

definition escape_char :: "char \<Rightarrow> string" where
  "escape_char c =
     (if c = CHR ''&'' then ''&amp;'' else if c = CHR 0x27 then ''&#39;''
      else if c = CHR ''<'' then ''&lt;'' else if c = CHR ''>'' then ''&gt;''
      else if c = CHR ''\"'' then ''&#34;'' else [c])"

definition html_escape :: "string \<Rightarrow> string" where
  "html_escape s = concat (map escape_char s)"

definition snippet_mark_start :: char where "snippet_mark_start = CHR 0x01"
definition snippet_mark_end :: char where "snippet_mark_end = CHR 0x02"

definition escape_snippet :: "string \<Rightarrow> string" where
  "escape_snippet raw =
     (let escaped = html_escape raw;
          escaped = replace_byte snippet_mark_start ''<mark>'' escaped
      in replace_byte snippet_mark_end ''</mark>'' escaped)"

text \<open>What one byte of the line becomes.\<close>

definition snippet_char :: "char \<Rightarrow> string" where
  "snippet_char c =
     (if c = snippet_mark_start then ''<mark>'' else if c = snippet_mark_end then ''</mark>''
      else escape_char c)"

lemmas mark_defs = snippet_mark_start_def snippet_mark_end_def

lemma escape_snippet_chars: "escape_snippet raw = concat (map snippet_char raw)"
proof (induction raw)
  case Nil
  then show ?case by (simp add: escape_snippet_def html_escape_def)
next
  case (Cons c raw)
  have "replace_byte snippet_mark_end ''</mark>''
      (replace_byte snippet_mark_start ''<mark>'' (escape_char c)) = snippet_char c"
    by (simp add: escape_char_def snippet_char_def mark_defs)
  with Cons show ?case by (simp add: escape_snippet_def html_escape_def Let_def)
qed

text \<open>
  The specification side: how a browser reads the text. \<open>only_marks\<close> holds of a text in which
  every tag is \<open><mark>\<close> or \<open></mark>\<close> and no bare \<open>></\<close> or quote is left; \<open>browser_text\<close> is
  the text it shows, without the tags and with the five character references decoded.
\<close>

function only_marks :: "string \<Rightarrow> bool" where
  "only_marks [] = True"
| "only_marks (c # s) =
     (if c = CHR ''<'' then
        (if has_prefix s ''mark>'' then only_marks (drop 5 s)
         else if has_prefix s ''/mark>'' then only_marks (drop 6 s)
         else False)
      else c \<noteq> CHR ''>'' \<and> c \<noteq> CHR ''\"'' \<and> c \<noteq> CHR 0x27 \<and> only_marks s)"
  by pat_completeness auto
termination
  by (relation "measure length") auto

function browser_text :: "string \<Rightarrow> string" where
  "browser_text [] = []"
| "browser_text (c # s) =
     (if c = CHR ''<'' \<and> has_prefix s ''mark>'' then browser_text (drop 5 s)
      else if c = CHR ''<'' \<and> has_prefix s ''/mark>'' then browser_text (drop 6 s)
      else if c = CHR ''&'' \<and> has_prefix s ''amp;'' then CHR ''&'' # browser_text (drop 4 s)
      else if c = CHR ''&'' \<and> has_prefix s ''#39;'' then CHR 0x27 # browser_text (drop 4 s)
      else if c = CHR ''&'' \<and> has_prefix s ''lt;'' then CHR ''<'' # browser_text (drop 3 s)
      else if c = CHR ''&'' \<and> has_prefix s ''gt;'' then CHR ''>'' # browser_text (drop 3 s)
      else if c = CHR ''&'' \<and> has_prefix s ''#34;'' then CHR ''\"'' # browser_text (drop 4 s)
      else c # browser_text s)"
  by pat_completeness auto
termination
  by (relation "measure length") auto

lemma only_marks_snippet_char: "only_marks (snippet_char c @ s) = only_marks s"
  by (simp add: snippet_char_def escape_char_def mark_defs has_prefix_def)

lemma browser_text_snippet_char:
  "browser_text (snippet_char c @ s) =
     (if c = snippet_mark_start \<or> c = snippet_mark_end then browser_text s else c # browser_text s)"
  by (simp add: snippet_char_def escape_char_def mark_defs has_prefix_def)

section \<open>Properties\<close>

text \<open>
  C31: for every line of log, the snippet sent to the page contains no markup besides
  \<open><mark>\<close> and \<open></mark>\<close>: nothing in a line can open another tag or an attribute.
\<close>

theorem escape_snippet_only_marks: "only_marks (escape_snippet raw)"
proof (induction raw)
  case Nil
  then show ?case by (simp add: escape_snippet_chars)
next
  case (Cons c raw)
  then show ?case by (simp add: escape_snippet_chars only_marks_snippet_char)
qed

text \<open>
  C32: nothing of the line is lost or altered: what the browser shows for the snippet is the line
  itself, less the sentinel bytes of the highlighting.
\<close>

theorem escape_snippet_shows_line:
  "browser_text (escape_snippet raw) =
     filter (\<lambda>c. c \<noteq> snippet_mark_start \<and> c \<noteq> snippet_mark_end) raw"
proof (induction raw)
  case Nil
  then show ?case by (simp add: escape_snippet_chars)
next
  case (Cons c raw)
  then show ?case by (simp add: escape_snippet_chars browser_text_snippet_char)
qed

text \<open>
  C30: whatever is typed into the search box, the MATCH expression is a list of FTS5 string
  literals whose contents are exactly the white-space separated terms of the query: no byte of
  the query is read as an operator of the query syntax.
\<close>

theorem sanitize_match_query_literal:
  "fts5_phrases (sanitize_match_query query) = Some (fields query)"
  unfolding sanitize_match_query_def by (rule fts5_phrases_quoted)

text \<open>
  A line of log that contains a sentinel byte is shown with a highlight of its own making, also in
  browse mode, where nothing was searched for.
\<close>

lemma escape_snippet_forged_mark:
  "escape_snippet (CHR 0x01 # ''x'' @ [CHR 0x02]) = ''<mark>x</mark>''"
  by (simp add: escape_snippet_chars snippet_char_def escape_char_def mark_defs)

end
