(* ===== verification/Cursor.thy ===== *)
theory Cursor
  imports Main Prelude Go_Strings Go_Time_Text
begin

text \<open>
  The pagination cursor (\<open>searchCursor\<close>, \<open>encodeCursor\<close> and \<open>decodeCursor\<close> of
  \<open>internal/storage/sqlite.go\<close>) with the encodings of Go's library it is made of: unpadded
  URL-safe base64 and the hexadecimal text of a \<open>float64\<close>.
\<close>

section \<open>base64.RawURLEncoding\<close>

definition b64_char :: "nat \<Rightarrow> char" where
  "b64_char n =
     (if n < 26 then char_of (65 + n) else if n < 52 then char_of (97 + (n - 26))
      else if n < 62 then char_of (48 + (n - 52)) else if n = 62 then CHR ''-'' else CHR ''_'')"

definition b64_val :: "char \<Rightarrow> nat option" where
  "b64_val c =
     (if 65 \<le> byte c \<and> byte c \<le> 90 then Some (byte c - 65)
      else if 97 \<le> byte c \<and> byte c \<le> 122 then Some (byte c - 97 + 26)
      else if 48 \<le> byte c \<and> byte c \<le> 57 then Some (byte c - 48 + 52)
      else if c = CHR ''-'' then Some 62 else if c = CHR ''_'' then Some 63 else None)"

fun b64_split :: "nat list \<Rightarrow> nat list" where
  "b64_split [] = []"
| "b64_split [a] = [a div 4, a mod 4 * 16]"
| "b64_split [a, b] = [a div 4, a mod 4 * 16 + b div 16, b mod 16 * 4]"
| "b64_split (a # b # c # r) =
     [a div 4, a mod 4 * 16 + b div 16, b mod 16 * 4 + c div 64, c mod 64] @ b64_split r"

fun b64_join :: "nat list \<Rightarrow> nat list option" where
  "b64_join [] = Some []"
| "b64_join [x] = None"
| "b64_join [x, y] = Some [x * 4 + y div 16]"
| "b64_join [x, y, z] = Some [x * 4 + y div 16, y mod 16 * 16 + z div 4]"
| "b64_join (x # y # z # w # r) =
     map_option (\<lambda>bs. [x * 4 + y div 16, y mod 16 * 16 + z div 4, z mod 4 * 64 + w] @ bs) (b64_join r)"

definition b64_encode :: "string \<Rightarrow> string" where
  "b64_encode s = map b64_char (b64_split (map byte s))"

text \<open>The decoder skips line breaks, has no padding and ignores the unused low bits at the end.\<close>

definition b64_decode :: "string \<Rightarrow> string option" where
  "b64_decode s =
     (case those (map b64_val (filter (\<lambda>c. c \<noteq> CHR 0x0A \<and> c \<noteq> CHR 0x0D) s)) of
        None \<Rightarrow> None
      | Some vs \<Rightarrow> map_option (map char_of) (b64_join vs))"

lemma b64_val_char: "n < 64 \<Longrightarrow> b64_val (b64_char n) = Some n"
  by (auto simp: b64_char_def b64_val_def)

lemma b64_char_no_break: "b64_char n \<noteq> CHR 0x0A" "b64_char n \<noteq> CHR 0x0D" if "n < 64"
  using b64_val_char [OF that] by (auto simp: b64_val_def)

lemma b64_split_bound: "\<forall>a \<in> set as. a < 256 \<Longrightarrow> \<forall>x \<in> set (b64_split as). x < 64"
proof (induction as rule: b64_split.induct)
  case (4 a b c r)
  have "a div 4 < 64" "a mod 4 * 16 + b div 16 < 64" "b mod 16 * 4 + c div 64 < 64" "c mod 64 < 64"
    if "a < 256" "b < 256" "c < 256"
  proof -
    have "a mod 4 < 4" "b div 16 < 16" "b mod 16 < 16" "c div 64 < 4"
      using that by (simp_all add: less_mult_imp_div_less)
    then show "a div 4 < 64" "a mod 4 * 16 + b div 16 < 64" "b mod 16 * 4 + c div 64 < 64"
      "c mod 64 < 64" using that by (simp_all add: less_mult_imp_div_less)
  qed
  with 4 show ?case by simp
next
  case (2 a)
  then have "a mod 4 < 4" "a div 4 < 64" by (simp_all add: less_mult_imp_div_less)
  then show ?case by simp
next
  case (3 a b)
  then have "a mod 4 < 4" "b div 16 < 16" "b mod 16 < 16" "a div 4 < 64"
    by (simp_all add: less_mult_imp_div_less)
  then show ?case by simp
qed simp

lemma b64_bytes:
  fixes a b c :: nat
  assumes "a < 256" "b < 256" "c < 256"
  shows "a div 4 * 4 + (a mod 4 * 16 + b div 16) div 16 = a"
    "(a mod 4 * 16 + b div 16) mod 16 * 16 + (b mod 16 * 4 + c div 64) div 4 = b"
    "(b mod 16 * 4 + c div 64) mod 4 * 64 + c mod 64 = c"
proof -
  have d: "b div 16 < 16" "c div 64 < 4" using assms by (simp_all add: less_mult_imp_div_less)
  then have "(a mod 4 * 16 + b div 16) div 16 = a mod 4" "(a mod 4 * 16 + b div 16) mod 16 = b div 16"
    "(b mod 16 * 4 + c div 64) div 4 = b mod 16" "(b mod 16 * 4 + c div 64) mod 4 = c div 64"
    by simp_all
  then show "a div 4 * 4 + (a mod 4 * 16 + b div 16) div 16 = a"
    "(a mod 4 * 16 + b div 16) mod 16 * 16 + (b mod 16 * 4 + c div 64) div 4 = b"
    "(b mod 16 * 4 + c div 64) mod 4 * 64 + c mod 64 = c"
    by (simp_all only: div_mult_mod_eq)
qed

lemma b64_join_split: "\<forall>a \<in> set as. a < 256 \<Longrightarrow> b64_join (b64_split as) = Some as"
proof (induction as rule: b64_split.induct)
  case (2 a)
  then show ?case using b64_bytes(1) [of a 0 0] by simp
next
  case (3 a b)
  then show ?case using b64_bytes(1,2) [of a b 0] by simp
next
  case (4 a b c r)
  then show ?case using b64_bytes [of a b c] by simp
qed simp

lemma those_map_Some: "\<forall>x \<in> set xs. f (g x) = Some x \<Longrightarrow> those (map f (map g xs)) = Some xs"
  by (induction xs) auto

lemma b64_decode_encode [text_simps]: "b64_decode (b64_encode s) = Some s"
proof -
  let ?bs = "b64_split (map byte s)"
  have b: "\<forall>a \<in> set (map byte s). a < 256" by auto
  then have x: "\<forall>x \<in> set ?bs. x < 64" by (rule b64_split_bound)
  then have "filter (\<lambda>c. c \<noteq> CHR 0x0A \<and> c \<noteq> CHR 0x0D) (b64_encode s) = map b64_char ?bs"
    using b64_char_no_break by (auto simp: b64_encode_def intro!: filter_True)
  moreover have "those (map b64_val (map b64_char ?bs)) = Some ?bs"
    using x b64_val_char by (intro those_map_Some) auto
  moreover have "b64_join ?bs = Some (map byte s)" using b by (rule b64_join_split)
  moreover have "map char_of (map byte s) = s" by (induction s) auto
  ultimately show ?thesis by (simp add: b64_decode_def)
qed

lemma b64_encode_Nil: "b64_encode s = [] \<longleftrightarrow> s = []"
proof
  assume "b64_encode s = []"
  then have "b64_decode [] = Some s" using b64_decode_encode [of s] by simp
  then show "s = []" by (simp add: b64_decode_def)
qed (simp add: b64_encode_def)

section \<open>float64 and its hexadecimal text\<close>

text \<open>
  A \<open>float64\<close> is its three IEEE 754 fields: the sign, the 11-bit exponent and the 52-bit fraction.
  \<open>float_key\<close> orders the values that are no NaN as their numeric values, with both zeros equal.
\<close>

datatype float64 = Float64 (f_neg: bool) (f_exp: nat) (f_frac: nat)

definition float_wf :: "float64 \<Rightarrow> bool" where
  "float_wf f \<longleftrightarrow> f_exp f < 2048 \<and> f_frac f < 2 ^ 52"

definition is_nan :: "float64 \<Rightarrow> bool" where
  "is_nan f \<longleftrightarrow> f_exp f = 2047 \<and> f_frac f \<noteq> 0"

definition float_key :: "float64 \<Rightarrow> int" where
  "float_key f = (if f_neg f then -1 else 1) * int (f_exp f * 2 ^ 52 + f_frac f)"

definition float_zero :: float64 where
  "float_zero = Float64 False 0 0"

definition hex_char :: "nat \<Rightarrow> char" where
  "hex_char n = (if n < 10 then char_of (48 + n) else char_of (87 + n))"

definition is_hex :: "char \<Rightarrow> bool" where
  "is_hex c \<longleftrightarrow> is_digit c \<or> (97 \<le> byte c \<and> byte c \<le> 102)"

definition hex_val :: "char \<Rightarrow> nat" where
  "hex_val c = (if is_digit c then byte c - 48 else byte c - 87)"

fun hexw :: "nat \<Rightarrow> nat \<Rightarrow> string" where
  "hexw 0 n = []"
| "hexw (Suc w) n = hexw w (n div 16) @ [hex_char (n mod 16)]"

definition read_hex :: "string \<Rightarrow> nat" where
  "read_hex s = foldl (\<lambda>acc c. 16 * acc + hex_val c) 0 s"

text \<open>\<open>fmtX\<close> shifts the mantissa until its leading bit is bit 52.\<close>

function norm_mant :: "nat \<Rightarrow> int \<Rightarrow> nat \<times> int" where
  "norm_mant m e = (if m = 0 \<or> 2 ^ 52 \<le> m then (m, e) else norm_mant (2 * m) (e - 1))"
  by pat_completeness auto
termination
  by (relation "measure (\<lambda>(m, e). 2 ^ 52 - m)") auto

declare norm_mant.simps [simp del]

definition fmt_exp :: "int \<Rightarrow> string" where
  "fmt_exp e = (if e < 0 then CHR ''-'' else CHR ''+'') # zpad 2 (nat \<bar>e\<bar>)"

text \<open>\<open>strconv.FormatFloat(f, 'x', -1, 64)\<close>\<close>

definition format_float_x :: "float64 \<Rightarrow> string" where
  "format_float_x f =
     (if f_exp f = 2047 then
        (if f_frac f \<noteq> 0 then ''NaN'' else if f_neg f then ''-Inf'' else ''+Inf'')
      else
        (let (m0, e0) = (if f_exp f = 0 then (f_frac f, -1022)
                         else (2 ^ 52 + f_frac f, int (f_exp f) - 1023));
             (m, e) = norm_mant m0 (if m0 = 0 then 0 else e0);
             frac = m mod 2 ^ 52
         in (if f_neg f then ''-'' else []) @ ''0x'' @ [hex_char (m div 2 ^ 52)]
            @ (if frac = 0 then [] else CHR ''.'' # trim_zeros (hexw 13 frac))
            @ ''p'' @ fmt_exp e))"

text \<open>
  \<open>strconv.ParseFloat(s, 64)\<close> on the texts that \<open>FormatFloat\<close> with format \<open>x\<close> prints: infinities, NaN
  and normalized hexadecimal numbers that are exactly a \<open>float64\<close>. The rest of its grammar
  (decimals, underscores, inexact numbers, errors) is the argument \<open>other\<close> of \<open>parse_float\<close>.
\<close>

definition float_of_hex :: "bool \<Rightarrow> nat \<Rightarrow> int \<Rightarrow> float64 option" where
  "float_of_hex neg frac e =
     (if - 1022 \<le> e \<and> e \<le> 1023 then Some (Float64 neg (nat (e + 1023)) frac)
      else if e < - 1022 \<and> - 1074 \<le> e \<and> (2 ^ 52 + frac) mod 2 ^ nat (- 1022 - e) = 0
      then Some (Float64 neg 0 ((2 ^ 52 + frac) div 2 ^ nat (- 1022 - e)))
      else None)"

definition parse_exp :: "string \<Rightarrow> int option" where
  "parse_exp s =
     (case s of
        [] \<Rightarrow> None
      | g # ds \<Rightarrow>
          if ds = [] \<or> \<not> list_all is_digit ds then None
          else if g = CHR ''+'' then Some (int (read_nat ds))
          else if g = CHR ''-'' then Some (- int (read_nat ds))
          else None)"

definition parse_hex_body :: "bool \<Rightarrow> string \<Rightarrow> float64 option" where
  "parse_hex_body neg s =
     (case s of
        CHR ''0'' # CHR ''x'' # l # r \<Rightarrow>
          (let (frac, rest) =
                 (if r \<noteq> [] \<and> hd r = CHR ''.''
                  then (takeWhile is_hex (tl r), dropWhile is_hex (tl r)) else ([], r))
           in case rest of
                [] \<Rightarrow> None
              | p # es \<Rightarrow>
                  if p \<noteq> CHR ''p'' \<or> 13 < length frac then None
                  else (case parse_exp es of
                          None \<Rightarrow> None
                        | Some e \<Rightarrow>
                            if l = CHR ''1''
                            then float_of_hex neg (read_hex frac * 16 ^ (13 - length frac)) e
                            else if l = CHR ''0'' \<and> read_hex frac = 0 then Some (Float64 neg 0 0)
                            else None))
      | _ \<Rightarrow> None)"

definition parse_float_x :: "string \<Rightarrow> float64 option" where
  "parse_float_x s =
     (if s = ''NaN'' then Some (Float64 False 2047 (2 ^ 51 + 1))
      else if s = ''+Inf'' then Some (Float64 False 2047 0)
      else if s = ''-Inf'' then Some (Float64 True 2047 0)
      else if s \<noteq> [] \<and> hd s = CHR ''-'' then parse_hex_body True (tl s)
      else parse_hex_body False s)"

definition parse_float :: "(string \<Rightarrow> float64 option) \<Rightarrow> string \<Rightarrow> float64 option" where
  "parse_float other s = (case parse_float_x s of Some f \<Rightarrow> Some f | None \<Rightarrow> other s)"

lemma hex_val_char: "n < 16 \<Longrightarrow> hex_val (hex_char n) = n"
  by (auto simp: hex_val_def hex_char_def is_digit_def)

lemma is_hex_char: "n < 16 \<Longrightarrow> is_hex (hex_char n)"
  by (auto simp: is_hex_def hex_char_def is_digit_def)

lemma read_hex_Nil [simp]: "read_hex [] = 0"
  by (simp add: read_hex_def)

lemma read_hex_snoc [simp]: "read_hex (s @ [c]) = 16 * read_hex s + hex_val c"
  by (simp add: read_hex_def)

lemma length_hexw [simp]: "length (hexw w n) = w"
  by (induction w arbitrary: n) auto

lemma hexw_hex: "list_all is_hex (hexw w n)"
  by (induction w arbitrary: n) (auto simp: is_hex_char)

lemma read_hexw: "n < 16 ^ w \<Longrightarrow> read_hex (hexw w n) = n"
proof (induction w arbitrary: n)
  case (Suc w)
  then have "n div 16 < 16 ^ w" by (simp add: less_mult_imp_div_less mult.commute)
  with Suc.IH show ?case by (simp add: hex_val_char)
qed simp

lemma read_hex_zeros: "read_hex (s @ replicate k CHR ''0'') = read_hex s * 16 ^ k"
proof (induction k)
  case (Suc k)
  have "read_hex ((s @ replicate k CHR ''0'') @ [CHR ''0'']) = 16 * read_hex (s @ replicate k CHR ''0'')"
    by (simp only: read_hex_snoc) (simp add: hex_val_def)
  with Suc show ?case by (simp add: replicate_append_same)
qed simp

text \<open>Every value that is no NaN reads back from its text.\<close>

lemma zpad_2_digits: "list_all is_digit (zpad 2 n) \<and> zpad 2 n \<noteq> [] \<and> read_nat (zpad 2 n) = n"
proof (cases "n < 10 ^ 2")
  case True
  then have "padw 2 n \<noteq> []" by (metis length_padw list.size(3) zero_neq_numeral)
  with True show ?thesis using padw_digits [of 2 n] read_padw [OF True]
    by (simp add: zpad_def list_all_iff)
next
  case False
  then show ?thesis using show_nat_digits [of n] by (simp add: zpad_def list_all_iff)
qed

lemma parse_fmt_exp: "parse_exp (fmt_exp e) = Some e"
  using zpad_2_digits [of "nat \<bar>e\<bar>"] by (simp add: parse_exp_def fmt_exp_def)

definition hex_text :: "nat \<Rightarrow> int \<Rightarrow> string" where
  "hex_text frac e =
     (if frac = 0 then [] else CHR ''.'' # trim_zeros (hexw 13 frac)) @ ''p'' @ fmt_exp e"

lemma trim_hexw:
  assumes "frac < 2 ^ 52"
  shows "list_all is_hex (trim_zeros (hexw 13 frac))" "length (trim_zeros (hexw 13 frac)) \<le> 13"
    "read_hex (trim_zeros (hexw 13 frac)) * 16 ^ (13 - length (trim_zeros (hexw 13 frac))) = frac"
proof -
  obtain k where k: "hexw 13 frac = trim_zeros (hexw 13 frac) @ replicate k CHR ''0''"
    using trim_zeros_split by blast
  have len: "13 = length (trim_zeros (hexw 13 frac)) + k"
    by (metis k length_append length_hexw length_replicate)
  then show "length (trim_zeros (hexw 13 frac)) \<le> 13" by linarith
  show "list_all is_hex (trim_zeros (hexw 13 frac))"
    using hexw_hex [of 13 frac] k by (metis list_all_append)
  have "read_hex (hexw 13 frac) = frac" using assms by (intro read_hexw) simp
  then have "read_hex (trim_zeros (hexw 13 frac)) * 16 ^ k = frac"
    using k read_hex_zeros by metis
  moreover have "13 - length (trim_zeros (hexw 13 frac)) = k" using len by linarith
  ultimately show "read_hex (trim_zeros (hexw 13 frac)) *
      16 ^ (13 - length (trim_zeros (hexw 13 frac))) = frac" by simp
qed

lemma parse_hex_text:
  assumes "frac < 2 ^ 52"
  shows "parse_hex_body neg (''0x1'' @ hex_text frac e) = float_of_hex neg frac e"
    and "parse_hex_body neg (''0x0'' @ hex_text 0 e) = Some (Float64 neg 0 0)"
proof -
  have p: "\<not> is_hex CHR ''p''" by (simp add: is_hex_def is_digit_def)
  show "parse_hex_body neg (''0x0'' @ hex_text 0 e) = Some (Float64 neg 0 0)"
    by (simp add: hex_text_def parse_hex_body_def parse_fmt_exp)
  show "parse_hex_body neg (''0x1'' @ hex_text frac e) = float_of_hex neg frac e"
  proof (cases "frac = 0")
    case True
    then show ?thesis by (simp add: hex_text_def parse_hex_body_def parse_fmt_exp)
  next
    case False
    let ?t = "trim_zeros (hexw 13 frac)"
    note t = trim_hexw [OF assms]
    have "takeWhile is_hex (?t @ CHR ''p'' # fmt_exp e) = ?t"
      "dropWhile is_hex (?t @ CHR ''p'' # fmt_exp e) = CHR ''p'' # fmt_exp e"
      using t(1) p by (auto simp: list_all_iff intro: takeWhile_append_stop dropWhile_append_stop)
    with False t(2,3) show ?thesis
      by (simp add: hex_text_def parse_hex_body_def parse_fmt_exp)
  qed
qed

lemma norm_mant_spec:
  "0 < m \<Longrightarrow> m < 2 ^ 53 \<Longrightarrow>
   \<exists>k. norm_mant m e = (m * 2 ^ k, e - int k) \<and> 2 ^ 52 \<le> m * 2 ^ k \<and> m * 2 ^ k < 2 ^ 53"
proof (induction m e rule: norm_mant.induct)
  case (1 m e)
  show ?case
  proof (cases "2 ^ 52 \<le> m")
    case True
    with 1 show ?thesis by (intro exI [of _ 0]) (simp add: norm_mant.simps [of m e])
  next
    case False
    with "1.prems" have "\<not> (m = 0 \<or> 2 ^ 52 \<le> m)" "0 < 2 * m" "2 * m < 2 ^ 53" by simp_all
    from "1.IH" [OF this] obtain k where k: "norm_mant (2 * m) (e - 1) = (2 * m * 2 ^ k, e - 1 - int k)"
      "2 ^ 52 \<le> 2 * m * 2 ^ k" "2 * m * 2 ^ k < 2 ^ 53" by blast
    with False "1.prems" show ?thesis
      by (intro exI [of _ "Suc k"]) (simp add: norm_mant.simps [of m e] algebra_simps)
  qed
qed

lemma div_mod_plus_bit:
  "(n::nat) < 2 ^ 52 \<Longrightarrow> (2 ^ 52 + n) div 2 ^ 52 = 1 \<and> (2 ^ 52 + n) mod 2 ^ 52 = n"
  by (simp add: div_nat_eqI)

lemma norm_mant_id: "2 ^ 52 \<le> m \<Longrightarrow> norm_mant m e = (m, e)"
  by (simp add: norm_mant.simps [of m])

lemma hex_char_1: "hex_char (Suc 0) = CHR ''1''"
  by code_simp

lemma char_48: "char_of (48::nat) = CHR ''0''"
  by code_simp

lemma format_float_x_finite:
  assumes "float_wf f" and "f_exp f \<noteq> 2047" and "(f_exp f, f_frac f) \<noteq> (0, 0)"
  shows "\<exists>frac e. format_float_x f = (if f_neg f then ''-'' else []) @ ''0x1'' @ hex_text frac e
    \<and> frac < 2 ^ 52 \<and> float_of_hex (f_neg f) frac e = Some f"
proof (cases "f_exp f = 0")
  case False
  let ?m = "2 ^ 52 + f_frac f"
  have m: "?m div 2 ^ 52 = 1" "?m mod 2 ^ 52 = f_frac f" "f_frac f < 2 ^ 52"
    using assms(1) div_mod_plus_bit [of "f_frac f"] by (simp_all add: float_wf_def)
  have "format_float_x f =
      (if f_neg f then ''-'' else []) @ ''0x1'' @ hex_text (f_frac f) (int (f_exp f) - 1023)"
    using assms(2) False m norm_mant_id [of ?m "int (f_exp f) - 1023"]
    by (simp add: format_float_x_def hex_text_def hex_char_1)
  moreover have "float_of_hex (f_neg f) (f_frac f) (int (f_exp f) - 1023) = Some f"
    using assms False by (cases f) (auto simp: float_of_hex_def float_wf_def)
  ultimately show ?thesis using m(3) by blast
next
  case True
  with assms have fr: "0 < f_frac f" "f_frac f < 2 ^ 52" by (auto simp: float_wf_def)
  then obtain k where k: "norm_mant (f_frac f) (-1022) = (f_frac f * 2 ^ k, -1022 - int k)"
    "2 ^ 52 \<le> f_frac f * 2 ^ k" "f_frac f * 2 ^ k < 2 ^ 53"
    using norm_mant_spec [of "f_frac f" "-1022"] by auto
  define frac where "frac = f_frac f * 2 ^ k - 2 ^ 52"
  have frac: "f_frac f * 2 ^ k = 2 ^ 52 + frac" "frac < 2 ^ 52" using k by (simp_all add: frac_def)
  then have d: "f_frac f * 2 ^ k div 2 ^ 52 = 1" "f_frac f * 2 ^ k mod 2 ^ 52 = frac"
    using div_mod_plus_bit [of frac] by simp_all
  have "format_float_x f =
      (if f_neg f then ''-'' else []) @ ''0x1'' @ hex_text frac (-1022 - int k)"
    using True fr k(1) d by (simp add: format_float_x_def hex_text_def hex_char_1)
  moreover have "float_of_hex (f_neg f) frac (-1022 - int k) = Some f"
  proof -
    have "0 < k" using fr(2) k(2) by (cases k) auto
    have "(2::nat) ^ k \<le> f_frac f * 2 ^ k" using fr(1) by simp
    then have "(2::nat) ^ k < 2 ^ 53" by (rule le_less_trans [OF _ k(3)])
    then have "k < 53" by (simp only: power_strict_increasing_iff)
    moreover have "(2 ^ 52 + frac) mod 2 ^ k = 0" "(2 ^ 52 + frac) div 2 ^ k = f_frac f"
      unfolding frac(1) [symmetric] by simp_all
    ultimately show ?thesis
      using True \<open>0 < k\<close> by (cases f) (simp add: float_of_hex_def)
  qed
  ultimately show ?thesis using frac(2) by blast
qed

lemma parse_format_float [text_simps]:
  assumes "float_wf f" and "\<not> is_nan f"
  shows "parse_float other (format_float_x f) = Some f"
proof -
  have "parse_float_x (format_float_x f) = Some f"
  proof (cases "f_exp f = 2047")
    case True
    with assms show ?thesis
      by (cases f) (auto simp: is_nan_def format_float_x_def parse_float_x_def)
  next
    case fin: False
    show ?thesis
    proof (cases "(f_exp f, f_frac f) = (0, 0)")
      case True
      then have "format_float_x f = (if f_neg f then ''-'' else []) @ ''0x0'' @ hex_text 0 0"
        by (simp add: format_float_x_def norm_mant.simps [of 0] hex_text_def hex_char_def char_48)
      with True parse_hex_text(2) [of 0 "f_neg f" 0] show ?thesis
        by (cases f; cases "f_neg f"; simp add: parse_float_x_def)
    next
      case False
      from format_float_x_finite [OF assms(1) fin this] obtain frac e where
        "format_float_x f = (if f_neg f then ''-'' else []) @ ''0x1'' @ hex_text frac e"
        "frac < 2 ^ 52" "float_of_hex (f_neg f) frac e = Some f" by blast
      with parse_hex_text(1) [of frac "f_neg f" e] show ?thesis
        by (cases "f_neg f") (simp_all add: parse_float_x_def)
    qed
  qed
  then show ?thesis by (simp add: parse_float_def)
qed

section \<open>The cursor\<close>

record search_cursor =
  c_browse :: bool
  c_rank :: float64
  c_shard :: string
  c_row_id :: int

definition encode_cursor :: "search_cursor \<Rightarrow> string" where
  "encode_cursor c =
     (let mode = (if c_browse c then ''b'' else ''m'');
          raw = mode @ ''|'' @ format_float_x (c_rank c) @ ''|'' @ c_shard c @ ''|''
                @ show_int (c_row_id c)
      in b64_encode raw)"

definition decode_cursor ::
  "(string \<Rightarrow> float64 option) \<Rightarrow> string \<Rightarrow> search_cursor result" where
  "decode_cursor other s =
     (case b64_decode s of
        None \<Rightarrow> Inl ''invalid cursor''
      | Some raw \<Rightarrow>
          (case split_n raw CHR ''|'' 4 of
             [p0, p1, p2, p3] \<Rightarrow>
               (case parse_float other p1 of
                  None \<Rightarrow> Inl ''invalid cursor''
                | Some r \<Rightarrow>
                    (case parse_int64 p3 of
                       None \<Rightarrow> Inl ''invalid cursor''
                     | Some n \<Rightarrow> Inr \<lparr>c_browse = (p0 = ''b''), c_rank = r, c_shard = p2,
                                      c_row_id = n\<rparr>))
           | _ \<Rightarrow> Inl ''invalid cursor''))"

text \<open>The cursors that \<open>Search\<close> builds: a rank that is a number, a shard alias, a 64-bit rowid.\<close>

definition cursor_wf :: "search_cursor \<Rightarrow> bool" where
  "cursor_wf c \<longleftrightarrow> float_wf (c_rank c) \<and> \<not> is_nan (c_rank c) \<and> CHR ''|'' \<notin> set (c_shard c)
     \<and> - (2 ^ 63) \<le> c_row_id c \<and> c_row_id c < 2 ^ 63"

lemma set_hexw_no_bar: "CHR ''|'' \<notin> set (hexw w n)"
  using hexw_hex [of w n] by (auto simp: list_all_iff is_hex_def is_digit_def)

lemma set_trim_zeros: "set (trim_zeros s) \<subseteq> set s"
  using set_dropWhileD by (fastforce simp: trim_zeros_def)

lemma hex_text_no_bar: "CHR ''|'' \<notin> set (hex_text frac e)"
proof -
  have "\<not> is_digit CHR ''|''" by (simp add: is_digit_def)
  then have "CHR ''|'' \<notin> set (zpad 2 (nat \<bar>e\<bar>))"
    using zpad_2_digits [of "nat \<bar>e\<bar>"] unfolding list_all_iff by blast
  then show ?thesis
    using set_hexw_no_bar [of 13 frac] set_trim_zeros [of "hexw 13 frac"]
    by (auto simp: hex_text_def fmt_exp_def)
qed

lemma format_float_x_no_bar:
  assumes "float_wf f"
  shows "CHR ''|'' \<notin> set (format_float_x f)"
proof (cases "f_exp f = 2047")
  case True
  then show ?thesis by (simp add: format_float_x_def)
next
  case fin: False
  show ?thesis
  proof (cases "(f_exp f, f_frac f) = (0, 0)")
    case True
    then have "format_float_x f = (if f_neg f then ''-'' else []) @ ''0x0'' @ hex_text 0 0"
      by (simp add: format_float_x_def norm_mant.simps [of 0] hex_text_def hex_char_def char_48)
    then show ?thesis using hex_text_no_bar by simp
  next
    case False
    from format_float_x_finite [OF assms fin this] show ?thesis using hex_text_no_bar by auto
  qed
qed

lemma split_n_4:
  assumes "CHR ''|'' \<notin> set a" "CHR ''|'' \<notin> set b" "CHR ''|'' \<notin> set c"
  shows "split_n (a @ CHR ''|'' # b @ CHR ''|'' # c @ CHR ''|'' # d) CHR ''|'' 4 = [a, b, c, d]"
proof -
  have four: "4 = Suc (Suc (Suc (Suc 0)))" by simp
  show ?thesis
    unfolding four using assms by (simp add: split_n_found del: split_n.simps(3))
qed

lemma decode_encode:
  assumes "cursor_wf c"
  shows "decode_cursor other (encode_cursor c) = Inr c"
proof -
  let ?mode = "if c_browse c then ''b'' else ''m''"
  have "CHR ''|'' \<notin> set (format_float_x (c_rank c))" "CHR ''|'' \<notin> set ?mode"
    "CHR ''|'' \<notin> set (c_shard c)"
    using assms format_float_x_no_bar by (auto simp: cursor_wf_def)
  from split_n_4 [OF this(2,1,3)] assms show ?thesis
    by (simp add: decode_cursor_def encode_cursor_def cursor_wf_def Let_def b64_decode_encode
        parse_format_float parse_show_int del: split_n.simps)
qed

section \<open>Properties\<close>

text \<open>
  C21: a cursor survives its trip through the client: decoding the text of a well-formed cursor
  gives back that cursor, whatever the part of \<open>ParseFloat\<close> that is not modelled does.
\<close>

theorem decode_encode_cursor:
  assumes "cursor_wf c"
  shows "decode_cursor other (encode_cursor c) = Inr c \<and> encode_cursor c \<noteq> ''''"
  using decode_encode [OF assms] by (simp add: encode_cursor_def b64_encode_Nil Let_def)

lemma decode_encode_cursor_witness:
  "decode_cursor (\<lambda>_. None) (encode_cursor \<lparr>c_browse = False, c_rank = Float64 True 1024 123456789,
      c_shard = ''d20240229'', c_row_id = 42\<rparr>)
   = Inr \<lparr>c_browse = False, c_rank = Float64 True 1024 123456789, c_shard = ''d20240229'', c_row_id = 42\<rparr>"
  by (rule decode_encode_cursor [THEN conjunct1]) (simp add: cursor_wf_def float_wf_def is_nan_def)

end
