(* ===== verification/Metrics.thy ===== *)
theory Metrics
  imports Main Prelude
begin

text \<open>
  The collectors of \<open>internal/metrics/metrics.go\<close>. A counter is the number of its increments, a
  histogram the list of the observed durations. The components hold a pointer that may be nil, here
  an option; \<open>bump\<close> is an update behind the nil check.
\<close>

record metrics =
  insert_requests_total :: nat
  insert_errors_total :: nat
  insert_duration :: "int list"
  lines_dropped_total :: nat
  tail_streams_total :: nat
  tail_stream_errors_total :: nat
  search_requests_total :: nat
  search_errors_total :: nat
  search_duration :: "int list"

definition new_metrics :: metrics where
  "new_metrics =
     \<lparr>insert_requests_total = 0, insert_errors_total = 0, insert_duration = [],
      lines_dropped_total = 0, tail_streams_total = 0, tail_stream_errors_total = 0,
      search_requests_total = 0, search_errors_total = 0, search_duration = []\<rparr>"

definition bump :: "(metrics \<Rightarrow> metrics) \<Rightarrow> metrics option \<Rightarrow> metrics option" where
  "bump f m = map_option f m"

lemma bump_simps [simp]: "bump f None = None" "bump f (Some m) = Some (f m)"
  by (simp_all add: bump_def)

end
