(* ===== verification/Store.thy ===== *)
theory Store
  imports Main Prelude Go_Strings Go_Time Go_Time_Text
begin

text \<open>
  The store of daily shards (\<open>type Store\<close> of \<open>internal/storage/sqlite.go\<close>): its data directory, the
  shard files with their \<open>fts\<close> tables, the open write handles, and the write path
  \<open>InsertBatch\<close> / \<open>insertGroup\<close> / \<open>getOrOpenDB\<close> / \<open>migrateLegacySchema\<close>.

  SQLite and the operating system are not part of the repository. What their calls return besides
  success is the argument \<open>flt\<close> of every operation: it says for each call whether it fails, and
  with which error. A failed statement leaves the database as it was, and a transaction that is not
  committed leaves no trace (SQLite's documented atomicity). The SQL texts of the program are
  translated: \<open>CREATE VIRTUAL TABLE IF NOT EXISTS\<close>, \<open>DROP TABLE\<close>, \<open>INSERT\<close> (which numbers the
  rows of a table 1, 2, 3, \<dots>, as rows are never deleted) and, in the theories that build on this
  one, \<open>SELECT\<close>.
\<close>

section \<open>Data\<close>

record log_line =
  l_pod :: string
  l_namespace :: string
  l_container :: string
  l_timestamp :: go_time
  l_level :: string
  l_content :: string

text \<open>A row of the \<open>fts\<close> table: all columns are text.\<close>

record log_row =
  r_pod :: string
  r_namespace :: string
  r_container :: string
  r_timestamp :: string
  r_level :: string
  r_line :: string

text \<open>
  A database file: without the table, with the table of the schema before v0.3.0 (no \<open>level\<close>
  column), or with the current table. Rows carry their rowid.
\<close>

type_synonym fts_rows = "(int \<times> log_row) list"

datatype fts_table = No_table | Legacy_table fts_rows | Fts_table fts_rows

datatype dir_entry = Dir_entry | Other_file | Shard_file fts_table

record store =
  data_dir :: string
  files :: "(string \<times> dir_entry) list"
  dbs :: "string set"

text \<open>The calls into SQLite and the operating system that can fail.\<close>

datatype ext_call =
    Mkdir_all | Stat string | Read_dir
  | Open_db string | Exec_schema string | Check_level string | Drop_legacy string | Recreate string
  | Begin_tx string | Prepare_tx string | Exec_insert string nat | Commit_tx string
  | Open_memory | Attach string | Query_rows | Scan_row nat | Rows_err
  | Open_shard string | Query_max string | Vacuum string | Remove string

type_synonym faults = "ext_call \<Rightarrow> err option"

definition no_faults :: faults where
  "no_faults c = None"

section \<open>NewStore and the names of shards\<close>

definition new_store ::
  "faults \<Rightarrow> (string \<times> dir_entry) list \<Rightarrow> string \<Rightarrow> store result" where
  "new_store flt existing dir =
     (let dir = (if dir = [] then ''/data'' else dir)
      in case flt Mkdir_all of
           Some e \<Rightarrow> Inl (''create data dir '' @ dir @ '': '' @ e)
         | None \<Rightarrow> Inr \<lparr>data_dir = dir, files = existing, dbs = {}\<rparr>)"

definition shard_name :: "string \<Rightarrow> string" where
  "shard_name date = ''logs_'' @ date @ ''.db''"

definition db_path :: "store \<Rightarrow> string \<Rightarrow> string" where
  "db_path s date = data_dir s @ ''/'' @ shard_name date"

lemma shard_name_inj [simp]: "shard_name a = shard_name b \<longleftrightarrow> a = b"
  by (simp add: shard_name_def)

text \<open>The table of a shard, if there is a database file for the date.\<close>

definition table_of :: "store \<Rightarrow> string \<Rightarrow> fts_table option" where
  "table_of s date =
     (case map_of (files s) (shard_name date) of Some (Shard_file t) \<Rightarrow> Some t | _ \<Rightarrow> None)"

definition set_table :: "string \<Rightarrow> fts_table \<Rightarrow> store \<Rightarrow> store" where
  "set_table date t s = s\<lparr>files := upd (shard_name date) (Shard_file t) (files s)\<rparr>"

lemma table_of_set_table [simp]:
  "table_of (set_table d t s) e = (if e = d then Some t else table_of s e)"
  by (simp add: table_of_def set_table_def map_of_upd)

lemma set_table_fields [simp]:
  "dbs (set_table d t s) = dbs s" "data_dir (set_table d t s) = data_dir s"
  by (simp_all add: set_table_def)

lemma table_of_dbs [simp]: "table_of (s\<lparr>dbs := D\<rparr>) d = table_of s d"
  by (simp add: table_of_def)

section \<open>getOrOpenDB and migrateLegacySchema\<close>

text \<open>\<open>CREATE VIRTUAL TABLE IF NOT EXISTS fts \<dots>\<close>\<close>

definition exec_schema :: "fts_table \<Rightarrow> fts_table" where
  "exec_schema t = (case t of No_table \<Rightarrow> Fts_table [] | _ \<Rightarrow> t)"

text \<open>\<open>SELECT count(*) FROM pragma_table_info('fts') WHERE name = 'level'\<close>\<close>

definition has_level :: "fts_table \<Rightarrow> bool" where
  "has_level t = (case t of Fts_table _ \<Rightarrow> True | _ \<Rightarrow> False)"

definition migrate_legacy_schema :: "faults \<Rightarrow> string \<Rightarrow> store \<Rightarrow> store \<times> unit result" where
  "migrate_legacy_schema flt date s =
     (case table_of s date of
        None \<Rightarrow> (s, Inl ''check for level column: no database'')
      | Some t \<Rightarrow>
          (case flt (Check_level date) of
             Some e \<Rightarrow> (s, Inl (''check for level column: '' @ e))
           | None \<Rightarrow>
               if has_level t then (s, Inr ())
               else
                 (case flt (Drop_legacy date) of
                    Some e \<Rightarrow> (s, Inl (''drop legacy fts table: '' @ e))
                  | None \<Rightarrow>
                      (let s1 = set_table date No_table s
                       in case flt (Recreate date) of
                            Some e \<Rightarrow> (s1, Inl (''recreate fts table: '' @ e))
                          | None \<Rightarrow> (set_table date (exec_schema No_table) s1, Inr ())))))"

text \<open>
  Opening a shard creates its file when there is none; a directory or another file of that name is
  no database, and the schema statement fails.
\<close>

definition open_table :: "store \<Rightarrow> string \<Rightarrow> fts_table result" where
  "open_table s date =
     (case map_of (files s) (shard_name date) of
        None \<Rightarrow> Inr No_table
      | Some (Shard_file t) \<Rightarrow> Inr t
      | Some _ \<Rightarrow> Inl ''file is not a database'')"

definition get_or_open_db :: "faults \<Rightarrow> string \<Rightarrow> store \<Rightarrow> store \<times> unit result" where
  "get_or_open_db flt date s =
     (if date \<in> dbs s then (s, Inr ())
      else
        (case flt (Open_db date) of
           Some e \<Rightarrow> (s, Inl (''open '' @ db_path s date @ '': '' @ e))
         | None \<Rightarrow>
             (case flt (Exec_schema date) of
                Some e \<Rightarrow> (s, Inl (''init schema for '' @ db_path s date @ '': '' @ e))
              | None \<Rightarrow>
                  (case open_table s date of
                     Inl e \<Rightarrow> (s, Inl (''init schema for '' @ db_path s date @ '': '' @ e))
                   | Inr t \<Rightarrow>
                       (case migrate_legacy_schema flt date (set_table date (exec_schema t) s) of
                          (s2, Inl e) \<Rightarrow>
                            (s2, Inl (''migrate schema for '' @ db_path s date @ '': '' @ e))
                        | (s2, Inr _) \<Rightarrow> (s2\<lparr>dbs := insert date (dbs s2)\<rparr>, Inr ()))))))"

section \<open>insertGroup and InsertBatch\<close>

definition row_of_line :: "log_line \<Rightarrow> log_row" where
  "row_of_line l =
     \<lparr>r_pod = l_pod l, r_namespace = l_namespace l, r_container = l_container l,
      r_timestamp = format_rfc3339nano (l_timestamp l), r_level = l_level l, r_line = l_content l\<rparr>"

definition next_rowid :: "fts_rows \<Rightarrow> int" where
  "next_rowid rows = (if rows = [] then 1 else fst (last rows) + 1)"

definition insert_row :: "log_line \<Rightarrow> fts_rows \<Rightarrow> fts_rows" where
  "insert_row l rows = rows @ [(next_rowid rows, row_of_line l)]"

text \<open>The loop over the lines of a group; \<open>i\<close> numbers the \<open>ExecContext\<close> calls.\<close>

fun exec_inserts :: "faults \<Rightarrow> string \<Rightarrow> nat \<Rightarrow> log_line list \<Rightarrow> fts_rows \<Rightarrow> fts_rows result" where
  "exec_inserts flt date i [] rows = Inr rows"
| "exec_inserts flt date i (l # ls) rows =
     (case flt (Exec_insert date i) of
        Some e \<Rightarrow> Inl e
      | None \<Rightarrow> exec_inserts flt date (Suc i) ls (insert_row l rows))"

definition insert_group ::
  "faults \<Rightarrow> string \<Rightarrow> log_line list \<Rightarrow> store \<Rightarrow> store \<times> unit result" where
  "insert_group flt date lines s =
     (case flt (Begin_tx date) of
        Some e \<Rightarrow> (s, Inl e)
      | None \<Rightarrow>
          (case flt (Prepare_tx date) of
             Some e \<Rightarrow> (s, Inl e)
           | None \<Rightarrow>
               (case table_of s date of
                  Some (Fts_table rows) \<Rightarrow>
                    (case exec_inserts flt date 0 lines rows of
                       Inl e \<Rightarrow> (s, Inl e)
                     | Inr rows' \<Rightarrow>
                         (case flt (Commit_tx date) of
                            Some e \<Rightarrow> (s, Inl e)
                          | None \<Rightarrow> (set_table date (Fts_table rows') s, Inr ())))
                | _ \<Rightarrow> (s, Inl ''no such table: fts''))))"

definition line_date :: "log_line \<Rightarrow> string" where
  "line_date l = format_date (l_timestamp l)"

text \<open>The map \<open>byDate\<close>, as an association list in the order of first appearance.\<close>

definition add_by_date ::
  "(string \<times> log_line list) list \<Rightarrow> log_line \<Rightarrow> (string \<times> log_line list) list" where
  "add_by_date m l =
     (let d = line_date l
      in upd d ((case map_of m d of None \<Rightarrow> [] | Some g \<Rightarrow> g) @ [l]) m)"

definition by_date :: "log_line list \<Rightarrow> (string \<times> log_line list) list" where
  "by_date lines = foldl add_by_date [] lines"

fun insert_groups ::
  "faults \<Rightarrow> (string \<times> log_line list) list \<Rightarrow> string list \<Rightarrow> store \<Rightarrow> store \<times> unit result" where
  "insert_groups flt m [] s = (s, Inr ())"
| "insert_groups flt m (d # ds) s =
     (case get_or_open_db flt d s of
        (s1, Inl e) \<Rightarrow> (s1, Inl e)
      | (s1, Inr _) \<Rightarrow>
          (case insert_group flt d (case map_of m d of None \<Rightarrow> [] | Some g \<Rightarrow> g) s1 of
             (s2, Inl e) \<Rightarrow> (s2, Inl (''insert into shard '' @ d @ '': '' @ e))
           | (s2, Inr _) \<Rightarrow> insert_groups flt m ds s2))"

text \<open>
  \<open>InsertBatch\<close>: \<open>ctx_err\<close> is \<open>ctx.Err()\<close> on entry, \<open>order\<close> the order in which the \<open>range\<close> over the
  map visits its keys, which Go leaves open.
\<close>

definition insert_batch ::
  "faults \<Rightarrow> err option \<Rightarrow> string list \<Rightarrow> log_line list \<Rightarrow> store \<Rightarrow> store \<times> unit result" where
  "insert_batch flt ctx_err order lines s =
     (if lines = [] then (s, Inr ())
      else case ctx_err of
             Some e \<Rightarrow> (s, Inl e)
           | None \<Rightarrow> insert_groups flt (by_date lines) order s)"

text \<open>The orders that the \<open>range\<close> can take.\<close>

definition map_order :: "log_line list \<Rightarrow> string list \<Rightarrow> bool" where
  "map_order lines order \<longleftrightarrow> distinct order \<and> set order = set (map line_date lines)"

section \<open>The rows a search can read\<close>

text \<open>
  The abstraction of the store: for each date the rows of the current table, without rowids, which are
  what a search can return. A legacy table counts as none, although its file still has rows: no search
  returns them, and the first write or cleanup that opens the shard drops them.
\<close>

definition shard_rows :: "store \<Rightarrow> string \<Rightarrow> log_row list" where
  "shard_rows s d = (case table_of s d of Some (Fts_table rows) \<Rightarrow> map snd rows | _ \<Rightarrow> [])"

definition numbered :: "fts_rows \<Rightarrow> bool" where
  "numbered rows \<longleftrightarrow> map fst rows = map int [1..<Suc (length rows)]"

text \<open>
  The store's invariant: file names are distinct, an open handle has a current table behind it, and
  the rows of every table are numbered from 1.
\<close>

definition store_inv :: "store \<Rightarrow> bool" where
  "store_inv s \<longleftrightarrow> distinct (map fst (files s))
     \<and> (\<forall>d \<in> dbs s. \<exists>rows. table_of s d = Some (Fts_table rows))
     \<and> (\<forall>d rows. table_of s d = Some (Fts_table rows) \<longrightarrow> numbered rows)"

text \<open>A date whose shard can be opened: no file yet, or a database file.\<close>

definition writable :: "store \<Rightarrow> string \<Rightarrow> bool" where
  "writable s d \<longleftrightarrow> (\<exists>t. open_table s d = Inr t)"

lemma numbered_Nil [simp]: "numbered []"
  by (simp add: numbered_def)

lemma next_rowid_numbered: "numbered rows \<Longrightarrow> next_rowid rows = int (length rows) + 1"
proof (cases rows rule: rev_cases)
  case (snoc xs x)
  assume n: "numbered rows"
  have "fst x = last (map fst rows)" using snoc by simp
  also have "\<dots> = int (length rows)" using n snoc by (simp add: numbered_def)
  finally show ?thesis using snoc by (simp add: next_rowid_def)
qed (simp add: next_rowid_def)

lemma numbered_insert_row [wf_intros]: "numbered rows \<Longrightarrow> numbered (insert_row l rows)"
  by (simp add: insert_row_def numbered_def next_rowid_numbered [unfolded numbered_def])

lemma exec_inserts_Inr:
  "exec_inserts flt d i ls rows = Inr rows' \<Longrightarrow>
   map snd rows' = map snd rows @ map row_of_line ls \<and> (numbered rows \<longrightarrow> numbered rows')"
proof (induction flt d i ls rows rule: exec_inserts.induct)
  case (2 flt d i l ls rows)
  then show ?case
    by (auto simp: insert_row_def numbered_insert_row [unfolded insert_row_def] split: option.splits)
qed simp

lemma exec_inserts_no_faults: "\<exists>rows'. exec_inserts no_faults d i ls rows = Inr rows'"
  by (induction ls arbitrary: i rows) (auto simp: no_faults_def)

lemma shard_rows_set_table:
  "shard_rows (set_table d t s) =
     (shard_rows s)(d := (case t of Fts_table rows \<Rightarrow> map snd rows | _ \<Rightarrow> []))"
  by (auto simp: shard_rows_def)

lemma shard_rows_dbs [simp]: "shard_rows (s\<lparr>dbs := D\<rparr>) = shard_rows s"
  by (rule ext) (simp add: shard_rows_def)

lemma open_table_Inr:
  "open_table s d = Inr t \<Longrightarrow> table_of s d = Some t \<or> table_of s d = None \<and> t = No_table"
  by (auto simp: open_table_def table_of_def split: option.splits dir_entry.splits)

lemma shard_rows_exec_schema:
  "open_table s d = Inr t \<Longrightarrow> shard_rows (set_table d (exec_schema t) s) = shard_rows s"
  by (drule open_table_Inr)
    (auto simp: shard_rows_set_table exec_schema_def shard_rows_def split: fts_table.splits)

lemma migrate_rows:
  "migrate_legacy_schema flt d s = (s', r) \<Longrightarrow> shard_rows s' = shard_rows s"
  by (auto simp: migrate_legacy_schema_def shard_rows_set_table exec_schema_def has_level_def Let_def
      shard_rows_def split: option.splits if_splits fts_table.splits)

text \<open>What opening a shard can do: nothing, or run the migration on the opened table.\<close>

lemma get_or_open_cases:
  assumes "get_or_open_db flt d s = (s', r)"
  obtains "s' = s" "r = Inr () \<Longrightarrow> d \<in> dbs s"
  | t s2 r2 where "open_table s d = Inr t" "d \<notin> dbs s"
      "migrate_legacy_schema flt d (set_table d (exec_schema t) s) = (s2, r2)"
      "r2 = Inr () \<and> r = Inr () \<and> s' = s2\<lparr>dbs := insert d (dbs s2)\<rparr>
       \<or> (\<exists>e e'. r2 = Inl e \<and> r = Inl e' \<and> s' = s2)"
proof (cases "d \<in> dbs s \<or> flt (Open_db d) \<noteq> None \<or> flt (Exec_schema d) \<noteq> None")
  case True
  then show ?thesis
    using assms that(1) by (cases "d \<in> dbs s") (force simp: get_or_open_db_def split: option.splits)+
next
  case no_err: False
  show ?thesis
  proof (cases "open_table s d")
    case (Inl e)
    with assms no_err that(1) show ?thesis by (auto simp: get_or_open_db_def)
  next
    case (Inr t)
    obtain s2 r2 where m: "migrate_legacy_schema flt d (set_table d (exec_schema t) s) = (s2, r2)"
      by fastforce
    have new: "d \<notin> dbs s" and ok: "flt (Open_db d) = None" "flt (Exec_schema d) = None"
      using no_err by simp_all
    have eq: "get_or_open_db flt d s =
        (case r2 of Inl e \<Rightarrow> (s2, Inl (''migrate schema for '' @ db_path s d @ '': '' @ e))
         | Inr _ \<Rightarrow> (s2\<lparr>dbs := insert d (dbs s2)\<rparr>, Inr ()))"
      by (cases r2) (simp_all add: get_or_open_db_def new ok Inr m)
    show ?thesis
      by (rule that(2) [OF Inr new m]) (use eq assms in \<open>cases r2; simp\<close>)
  qed
qed

text \<open>Opening a shard never changes what a search can read.\<close>

lemma get_or_open_rows:
  assumes "get_or_open_db flt d s = (s', r)"
  shows "shard_rows s' = shard_rows s"
  using assms
proof (cases rule: get_or_open_cases)
  case (2 t s2 r2)
  then show ?thesis using migrate_rows [OF 2(3)] shard_rows_exec_schema [OF 2(1)] by auto
qed simp

lemma migrate_current:
  "migrate_legacy_schema flt d s = (s', Inr ()) \<Longrightarrow> \<exists>rows. table_of s' d = Some (Fts_table rows)"
  by (auto simp: migrate_legacy_schema_def exec_schema_def has_level_def Let_def
      split: option.splits if_splits fts_table.splits)

lemma insert_group_rows:
  assumes "insert_group flt d ls s = (s', r)"
  shows "shard_rows s' =
    (case r of Inl _ \<Rightarrow> shard_rows s
     | Inr _ \<Rightarrow> (shard_rows s)(d := shard_rows s d @ map row_of_line ls))"
  using assms
  by (auto simp: insert_group_def shard_rows_set_table shard_rows_def dest: exec_inserts_Inr
      split: option.splits sum.splits fts_table.splits)

lemma add_by_date_get:
  "map_of (add_by_date m l) d =
     (if d = line_date l then Some ((case map_of m d of None \<Rightarrow> [] | Some g \<Rightarrow> g) @ [l])
      else map_of m d)"
  by (simp add: add_by_date_def Let_def map_of_upd)

lemma by_date_get:
  "(case map_of (by_date lines) d of None \<Rightarrow> [] | Some g \<Rightarrow> g) =
     filter (\<lambda>l. line_date l = d) lines"
proof (induction lines rule: rev_induct)
  case (snoc l lines)
  then show ?case by (simp add: by_date_def add_by_date_get split: option.splits)
qed (simp add: by_date_def)


section \<open>The invariant is kept\<close>

lemma set_table_inv [wf_intros]:
  assumes "store_inv s" and "d \<in> dbs s \<Longrightarrow> \<exists>rows. t = Fts_table rows"
    and "\<And>rows. t = Fts_table rows \<Longrightarrow> numbered rows"
  shows "store_inv (set_table d t s)"
proof -
  have "distinct (map fst (files (set_table d t s)))"
    using assms(1) by (simp add: store_inv_def set_table_def distinct_upd)
  with assms show ?thesis by (auto simp: store_inv_def)
qed

lemma exec_schema_inv:
  assumes "store_inv s" "d \<notin> dbs s" "open_table s d = Inr t"
  shows "store_inv (set_table d (exec_schema t) s)"
  using assms(1)
proof (rule set_table_inv)
  fix rows assume "exec_schema t = Fts_table rows"
  then have "t = Fts_table rows \<or> rows = []" by (cases t) (auto simp: exec_schema_def)
  then show "numbered rows"
    using assms(1) open_table_Inr [OF assms(3)] by (auto simp: store_inv_def)
qed (use assms(2) in simp)

lemma migrate_outcome:
  assumes "migrate_legacy_schema flt d s = (s', r)"
  shows "s' = s \<and> (r = Inr () \<longrightarrow> (\<exists>rows. table_of s d = Some (Fts_table rows)))
    \<or> r \<noteq> Inr () \<and> s' = set_table d No_table s
    \<or> r = Inr () \<and> s' = set_table d (Fts_table []) (set_table d No_table s)"
  using assms
  by (auto simp: migrate_legacy_schema_def has_level_def exec_schema_def Let_def
      split: option.splits if_splits fts_table.splits)

lemma migrate_inv:
  assumes "migrate_legacy_schema flt d s = (s', r)" "store_inv s" "d \<notin> dbs s"
  shows "store_inv s' \<and> d \<notin> dbs s'"
  using migrate_outcome [OF assms(1)] assms(2,3) by (auto intro!: set_table_inv)

lemma get_or_open_inv [wf_intros]:
  assumes "get_or_open_db flt d s = (s', r)" "store_inv s"
  shows "store_inv s'"
  using assms(1)
proof (cases rule: get_or_open_cases)
  case 1
  with assms(2) show ?thesis by simp
next
  case (2 t s2 r2)
  have "store_inv s2 \<and> d \<notin> dbs s2"
    using exec_schema_inv [OF assms(2) 2(2,1)] 2(2) by (intro migrate_inv [OF 2(3)]) simp_all
  with 2(4) show ?thesis
    using migrate_current [of flt d "set_table d (exec_schema t) s" s2] 2(3)
    by (auto simp: store_inv_def)
qed

text \<open>The handle that \<open>getOrOpenDB\<close> returns is for a database with the current table.\<close>

lemma get_or_open_current:
  assumes "get_or_open_db flt d s = (s', Inr ())" "store_inv s"
  shows "d \<in> dbs s' \<and> (\<exists>rows. table_of s' d = Some (Fts_table rows))"
  using assms(1)
proof (cases rule: get_or_open_cases)
  case 1
  with assms(2) show ?thesis by (simp add: store_inv_def)
next
  case (2 t s2 r2)
  then show ?thesis
    using migrate_current [of flt d "set_table d (exec_schema t) s" s2] by auto
qed

lemma insert_group_inv [wf_intros]:
  assumes "insert_group flt d ls s = (s', r)" "store_inv s"
  shows "store_inv s'"
proof (cases "s' = s")
  case False
  with assms(1) obtain rows rows' where t: "table_of s d = Some (Fts_table rows)"
    and e: "exec_inserts flt d 0 ls rows = Inr rows'" and s': "s' = set_table d (Fts_table rows') s"
    by (auto simp: insert_group_def split: option.splits sum.splits fts_table.splits)
  have "numbered rows'" using exec_inserts_Inr [OF e] assms(2) t by (auto simp: store_inv_def)
  with assms(2) show ?thesis unfolding s' by (intro set_table_inv) auto
qed (use assms(2) in simp)

section \<open>The groups\<close>

abbreviation group_of :: "(string \<times> log_line list) list \<Rightarrow> string \<Rightarrow> log_line list" where
  "group_of m d \<equiv> (case map_of m d of None \<Rightarrow> [] | Some g \<Rightarrow> g)"

lemma insert_groups_inv:
  "insert_groups flt m ds s = (s', r) \<Longrightarrow> store_inv s \<Longrightarrow> store_inv s'"
proof (induction flt m ds s arbitrary: s' r rule: insert_groups.induct)
  case (2 flt m d ds s)
  then show ?case
    by (auto split: prod.splits sum.splits dest: get_or_open_inv insert_group_inv)
qed simp

text \<open>
  Whatever fails, each shard has either all rows of its group or none of them; without an error all
  groups are there.
\<close>

lemma insert_groups_rows:
  "insert_groups flt m ds s = (s', r) \<Longrightarrow> distinct ds \<Longrightarrow>
   (r = Inr () \<longrightarrow> (\<forall>d \<in> set ds. shard_rows s' d = shard_rows s d @ map row_of_line (group_of m d)))
   \<and> (\<forall>d. shard_rows s' d = shard_rows s d
        \<or> d \<in> set ds \<and> shard_rows s' d = shard_rows s d @ map row_of_line (group_of m d))"
proof (induction flt m ds s arbitrary: s' r rule: insert_groups.induct)
  case (2 flt m d ds s)
  obtain s1 r1 where 1: "get_or_open_db flt d s = (s1, r1)" by fastforce
  note rows1 = get_or_open_rows [OF 1]
  show ?case
  proof (cases r1)
    case (Inl e)
    with 1 "2.prems" rows1 show ?thesis by auto
  next
    case ok1: (Inr u)
    obtain s2 r2 where 2: "insert_group flt d (group_of m d) s1 = (s2, r2)" by fastforce
    note rows2 = insert_group_rows [OF 2]
    show ?thesis
    proof (cases r2)
      case (Inl e)
      with 1 ok1 2 "2.prems" rows1 rows2 show ?thesis by auto
    next
      case ok2: (Inr u')
      have rest: "insert_groups flt m ds s2 = (s', r)" using "2.prems"(1) 1 ok1 2 ok2 by simp
      have ih: "(r = Inr () \<longrightarrow>
          (\<forall>e \<in> set ds. shard_rows s' e = shard_rows s2 e @ map row_of_line (group_of m e)))
        \<and> (\<forall>e. shard_rows s' e = shard_rows s2 e
           \<or> e \<in> set ds \<and> shard_rows s' e = shard_rows s2 e @ map row_of_line (group_of m e))"
        using "2.IH" [OF 1 [symmetric] ok1 2 [symmetric] ok2 rest] "2.prems"(2) by simp
      have s2: "shard_rows s2 = (shard_rows s)(d := shard_rows s d @ map row_of_line (group_of m d))"
        using rows1 rows2 ok2 by simp
      have nd: "d \<notin> set ds" using "2.prems"(2) by simp
      have ih_any: "shard_rows s' e = shard_rows s2 e
        \<or> e \<in> set ds \<and> shard_rows s' e = shard_rows s2 e @ map row_of_line (group_of m e)" for e
        using ih by blast
      show ?thesis
      proof (intro conjI impI allI ballI)
        fix e assume "r = Inr ()" "e \<in> set (d # ds)"
        with ih ih_any [of e] nd show "shard_rows s' e = shard_rows s e @ map row_of_line (group_of m e)"
          by (cases "e = d") (auto simp: s2)
      next
        fix e
        show "shard_rows s' e = shard_rows s e
          \<or> e \<in> set (d # ds) \<and> shard_rows s' e = shard_rows s e @ map row_of_line (group_of m e)"
          using ih_any [of e] nd by (cases "e = d") (auto simp: s2)
      qed
    qed
  qed
qed auto


section \<open>Success\<close>

lemma migrate_no_faults:
  assumes "migrate_legacy_schema no_faults d s = (s', r)" "table_of s d = Some t"
  shows "r = Inr ()"
  using assms by (auto simp: migrate_legacy_schema_def no_faults_def Let_def split: if_splits)

lemma get_or_open_no_faults:
  assumes "get_or_open_db no_faults d s = (s', r)" "writable s d"
  shows "r = Inr ()"
proof -
  obtain t where t: "open_table s d = Inr t" using assms(2) by (auto simp: writable_def)
  obtain s2 r2 where m: "migrate_legacy_schema no_faults d (set_table d (exec_schema t) s) = (s2, r2)"
    by fastforce
  then have "r2 = Inr ()" by (rule migrate_no_faults) simp
  with assms(1) t m show ?thesis
    by (cases "d \<in> dbs s") (simp_all add: get_or_open_db_def no_faults_def [of "Open_db d"]
        no_faults_def [of "Exec_schema d"])
qed

lemma insert_group_no_faults:
  assumes "insert_group no_faults d ls s = (s', r)" "table_of s d = Some (Fts_table rows)"
  shows "r = Inr ()"
  using assms exec_inserts_no_faults [of d 0 ls rows]
  by (auto simp: insert_group_def no_faults_def [of "Begin_tx d"] no_faults_def [of "Prepare_tx d"]
      no_faults_def [of "Commit_tx d"])

text \<open>Writing to one shard does not make another one unwritable.\<close>

lemma writable_set_table: "writable s e \<Longrightarrow> writable (set_table d t s) e"
  by (auto simp: writable_def open_table_def set_table_def map_of_upd)

lemma writable_dbs [simp]: "writable (s\<lparr>dbs := D\<rparr>) e = writable s e"
  by (simp add: writable_def open_table_def)

lemma writable_get_or_open:
  assumes "get_or_open_db flt d s = (s', r)" "writable s e"
  shows "writable s' e"
  using assms(1)
proof (cases rule: get_or_open_cases)
  case (2 t s2 r2)
  have "writable s2 e"
    using migrate_outcome [OF 2(3)] assms(2) by (auto intro!: writable_set_table)
  with 2(4) show ?thesis by auto
qed (use assms(2) in simp)

lemma writable_insert_group:
  assumes "insert_group flt d ls s = (s', r)" "writable s e"
  shows "writable s' e"
  using assms
  by (auto simp: insert_group_def intro: writable_set_table
      split: option.splits sum.splits fts_table.splits)

lemma insert_groups_no_faults:
  "insert_groups no_faults m ds s = (s', r) \<Longrightarrow> store_inv s \<Longrightarrow> \<forall>d \<in> set ds. writable s d \<Longrightarrow>
   r = Inr ()"
proof (induction ds arbitrary: s)
  case (Cons d ds)
  obtain s1 r1 where 1: "get_or_open_db no_faults d s = (s1, r1)" by fastforce
  with Cons.prems(3) have r1: "r1 = Inr ()" by (intro get_or_open_no_faults [OF 1]) simp
  have inv1: "store_inv s1" using get_or_open_inv [OF 1] Cons.prems(2) by simp
  obtain s2 r2 where 2: "insert_group no_faults d (group_of m d) s1 = (s2, r2)" by fastforce
  obtain rows where "table_of s1 d = Some (Fts_table rows)"
    using get_or_open_current [OF 1 [unfolded r1] Cons.prems(2)] by blast
  then have r2: "r2 = Inr ()" by (rule insert_group_no_faults [OF 2])
  have "insert_groups no_faults m ds s2 = (s', r)" using Cons.prems(1) 1 r1 2 r2 by simp
  moreover have "store_inv s2" using insert_group_inv [OF 2 inv1] .
  moreover have "\<forall>d \<in> set ds. writable s2 d"
    using Cons.prems(3) writable_get_or_open [OF 1] writable_insert_group [OF 2] by simp
  ultimately show ?case by (rule Cons.IH)
qed simp


lemma insert_batch_stores:
  assumes "store_inv s" and "map_order lines order" and "\<forall>l \<in> set lines. writable s (line_date l)"
  shows "\<exists>s'. insert_batch no_faults None order lines s = (s', Inr ()) \<and> store_inv s'
    \<and> (\<forall>d. shard_rows s' d =
         shard_rows s d @ map row_of_line (filter (\<lambda>l. line_date l = d) lines))"
proof (cases "lines = []")
  case True
  with assms(1) show ?thesis by (simp add: insert_batch_def)
next
  case False
  obtain s' r where g: "insert_groups no_faults (by_date lines) order s = (s', r)" by fastforce
  have r: "r = Inr ()"
    using assms by (intro insert_groups_no_faults [OF g]) (auto simp: map_order_def)
  have ord: "distinct order" "set order = line_date ` set lines"
    using assms(2) by (simp_all add: map_order_def)
  note rows = insert_groups_rows [OF g ord(1)]
  have "shard_rows s' d = shard_rows s d @ map row_of_line (filter (\<lambda>l. line_date l = d) lines)" for d
  proof (cases "d \<in> set order")
    case True
    with rows r show ?thesis by (simp add: by_date_get)
  next
    case no_line: False
    with ord(2) have "filter (\<lambda>l. line_date l = d) lines = []" by (auto simp: filter_empty_conv)
    with rows no_line show ?thesis by auto
  qed
  with g r insert_groups_inv [OF g assms(1)] False show ?thesis by (simp add: insert_batch_def)
qed

text \<open>A store in which every shard can be opened: no other kind of file has the name of a shard.\<close>

definition all_writable :: "store \<Rightarrow> bool" where
  "all_writable s \<longleftrightarrow> (\<forall>d. writable s d)"

lemma insert_groups_writable:
  "insert_groups flt m ds s = (s', r) \<Longrightarrow> writable s e \<Longrightarrow> writable s' e"
proof (induction flt m ds s arbitrary: s' r rule: insert_groups.induct)
  case (2 flt m d ds s)
  then show ?case
    by (auto split: prod.splits sum.splits dest: writable_get_or_open writable_insert_group)
qed simp

lemma insert_batch_writable:
  assumes "insert_batch flt ctx order lines s = (s', r)" "all_writable s"
  shows "all_writable s'"
  using assms insert_groups_writable
  by (fastforce simp: insert_batch_def all_writable_def split: if_splits option.splits)

section \<open>The interface of the writers\<close>

text \<open>
  What a component that hands batches to the store relies on: a successful insert appends the rows
  of the batch, each to the shard of its day. \<open>holds\<close> says that a store has what another one had and
  then the given lines.
\<close>

definition holds ::
  "('s \<Rightarrow> string \<Rightarrow> log_row list) \<Rightarrow> 's \<Rightarrow> log_line list \<Rightarrow> 's \<Rightarrow> bool" where
  "holds rows st ls s \<longleftrightarrow>
     (\<forall>d. rows s d = rows st d @ map row_of_line (filter (\<lambda>l. line_date l = d) ls))"

locale line_store =
  fixes ok :: "'s \<Rightarrow> bool" and rows :: "'s \<Rightarrow> string \<Rightarrow> log_row list"
    and put :: "'s \<Rightarrow> log_line list \<Rightarrow> 's \<Rightarrow> bool"
  assumes put_ok: "ok s \<Longrightarrow> put s ls s' \<Longrightarrow> ok s'"
    and put_appends: "ok s \<Longrightarrow> put s ls s' \<Longrightarrow> holds rows s ls s'"
begin

lemma holds_put:
  assumes "ok s" "holds rows st acc s" "put s ls s'"
  shows "ok s' \<and> holds rows st (acc @ ls) s'"
  using put_ok [OF assms(1,3)] put_appends [OF assms(1,3)] assms(2) by (simp add: holds_def)

end

definition put_batch :: "store \<Rightarrow> log_line list \<Rightarrow> store \<Rightarrow> bool" where
  "put_batch s ls s' \<longleftrightarrow>
     (\<exists>order. map_order ls order \<and> insert_batch no_faults None order ls s = (s', Inr ()))"

interpretation disk: line_store "\<lambda>s. store_inv s \<and> all_writable s" shard_rows put_batch
proof unfold_locales
  fix s ls s' assume ok: "store_inv s \<and> all_writable s" and "put_batch s ls s'"
  then obtain order where o: "map_order ls order" "insert_batch no_faults None order ls s = (s', Inr ())"
    by (auto simp: put_batch_def)
  with insert_batch_stores [of s ls order] ok have "store_inv s' \<and> holds shard_rows s ls s'"
    by (simp add: all_writable_def holds_def)
  with insert_batch_writable [OF o(2)] ok
  show "store_inv s' \<and> all_writable s'" "holds shard_rows s ls s'" by simp_all
qed

section \<open>Properties\<close>

text \<open>
  C1: a batch that meets no failure is stored completely: \<open>InsertBatch\<close> returns no error and appends
  to the shard of each day exactly the lines of that day, in the order of the batch, whatever order
  the \<open>range\<close> over the map takes; no other shard changes, and the invariant is kept.
\<close>

theorem insert_batch_complete:
  assumes "store_inv s" and "map_order lines order" and "\<forall>l \<in> set lines. writable s (line_date l)"
  shows "\<exists>s'. insert_batch no_faults None order lines s = (s', Inr ()) \<and> store_inv s'
    \<and> (\<forall>d. shard_rows s' d =
         shard_rows s d @ map row_of_line (filter (\<lambda>l. line_date l = d) lines))"
  using assms by (rule insert_batch_stores)

definition example_line :: log_line where
  "example_line = \<lparr>l_pod = ''web-0'', l_namespace = ''default'', l_container = ''app'',
     l_timestamp = \<lparr>instant = 63835596800000000000, zone_off = 0\<rparr>, l_level = ''ERROR'',
     l_content = ''ERROR boom''\<rparr>"

definition empty_store :: store where
  "empty_store = \<lparr>data_dir = ''/data'', files = [], dbs = {}\<rparr>"

lemma empty_store_simps [simp]:
  "store_inv empty_store" "writable empty_store d" "shard_rows empty_store d = []"
  "data_dir empty_store = ''/data''" "files empty_store = []" "dbs empty_store = {}"
  by (simp_all add: empty_store_def store_inv_def table_of_def writable_def open_table_def
      shard_rows_def)

lemma insert_batch_complete_witness:
  "\<exists>s'. insert_batch no_faults None [line_date example_line] [example_line, example_line] empty_store
       = (s', Inr ())
     \<and> shard_rows s' (line_date example_line) = [row_of_line example_line, row_of_line example_line]"
  using insert_batch_complete [of empty_store "[example_line, example_line]"
      "[line_date example_line]"]
  by (auto simp: map_order_def)

text \<open>Whatever fails, a shard gets all lines of its day or none.\<close>

lemma insert_batch_outcome:
  assumes "map_order lines order" and "insert_batch flt ctx order lines s = (s', r)"
  shows "(shard_rows s' d = shard_rows s d
       \<or> shard_rows s' d = shard_rows s d @ map row_of_line (filter (\<lambda>l. line_date l = d) lines))
    \<and> (r = Inr () \<longrightarrow>
       shard_rows s' d = shard_rows s d @ map row_of_line (filter (\<lambda>l. line_date l = d) lines))
    \<and> (store_inv s \<longrightarrow> store_inv s')"
proof -
  have ord: "distinct order" "set order = line_date ` set lines"
    using assms(1) by (simp_all add: map_order_def)
  have cases: "s' = s \<and> (r = Inr () \<longrightarrow> lines = [])
      \<or> insert_groups flt (by_date lines) order s = (s', r)"
    using assms(2) by (auto simp: insert_batch_def split: if_splits option.splits)
  have none: "d \<notin> set order \<Longrightarrow> filter (\<lambda>l. line_date l = d) lines = []"
    using ord(2) by (auto simp: filter_empty_conv)
  show ?thesis
  proof (intro conjI impI)
    show "shard_rows s' d = shard_rows s d
      \<or> shard_rows s' d = shard_rows s d @ map row_of_line (filter (\<lambda>l. line_date l = d) lines)"
      using cases insert_groups_rows [OF _ ord(1)] by (fastforce simp: by_date_get)
    show "shard_rows s' d = shard_rows s d @ map row_of_line (filter (\<lambda>l. line_date l = d) lines)"
      if "r = Inr ()"
      using cases insert_groups_rows [OF _ ord(1), of flt "by_date lines" s s' r] none that
      by (cases "d \<in> set order") (auto simp: by_date_get)
    show "store_inv s'" if "store_inv s"
      using cases insert_groups_inv that by blast
  qed
qed

text \<open>
  C2: a batch is atomic for each shard: whatever calls fail, and also when the context is already
  cancelled, a shard afterwards has either all the lines of its day or is as before; and if
  \<open>InsertBatch\<close> returns no error then every shard has all its lines.
\<close>

theorem insert_batch_atomic_per_shard:
  assumes "map_order lines order" and "insert_batch flt ctx order lines s = (s', r)"
  shows "(shard_rows s' d = shard_rows s d
       \<or> shard_rows s' d = shard_rows s d @ map row_of_line (filter (\<lambda>l. line_date l = d) lines))
    \<and> (r = Inr () \<longrightarrow>
       shard_rows s' d = shard_rows s d @ map row_of_line (filter (\<lambda>l. line_date l = d) lines))
    \<and> (store_inv s \<longrightarrow> store_inv s')"
  using assms by (rule insert_batch_outcome)

text \<open>A commit that fails: the shard was created, and holds nothing of the batch.\<close>

definition commit_fault :: faults where
  "commit_fault c = (case c of Commit_tx _ \<Rightarrow> Some ''disk full'' | _ \<Rightarrow> None)"

lemma insert_batch_atomic_witness:
  "let (s', r) = insert_batch commit_fault None [line_date example_line] [example_line] empty_store
   in r \<noteq> Inr () \<and> store_inv s' \<and> shard_rows s' (line_date example_line) = []"
proof -
  obtain s' r where i:
    "insert_batch commit_fault None [line_date example_line] [example_line] empty_store = (s', r)"
    by fastforce
  have "r \<noteq> Inr ()" "shard_rows s' (line_date example_line) = []"
    using i
    by (auto simp: insert_batch_def by_date_def add_by_date_def get_or_open_db_def open_table_def
        migrate_legacy_schema_def has_level_def exec_schema_def insert_group_def commit_fault_def
        shard_rows_set_table)
  with i insert_batch_atomic_per_shard [of "[example_line]" "[line_date example_line]" commit_fault
      None empty_store s' r]
  show ?thesis by (simp add: map_order_def)
qed

end
