(* ===== verification/Paging.thy ===== *)
theory Paging
  imports Main Prelude Cursor
begin

text \<open>
  Keyset pagination: the sort keys of the two search modes as a linear order, the effect of
  \<open>ORDER BY \<dots> LIMIT\<close> on the matching rows, and the interface \<open>keyset_pager\<close> between a query and the
  client that follows its cursors. The contract has one law, that the WHERE clause built from the
  cursor of a row keeps the rows that sort after it; from it follows that the pages put together are
  the sorted result, nothing missing and nothing twice.
\<close>

section \<open>The rows of a search result\<close>

record search_result =
  sr_pod :: string
  sr_namespace :: string
  sr_container :: string
  sr_timestamp :: string
  sr_level :: string
  sr_snippet :: string
  sr_rank :: float64

text \<open>\<open>rawResult\<close>: a result with the shard alias and the rowid that the cursor needs.\<close>

record raw_result =
  rr_result :: search_result
  rr_shard :: string
  rr_row_id :: int

section \<open>The sort keys\<close>

text \<open>
  \<open>ORDER BY shard DESC, local_rowid DESC\<close> in browse mode, and
  \<open>ORDER BY rank ASC, shard ASC, local_rowid ASC\<close> for a keyword query.
\<close>

datatype search_key = Browse_key string int | Match_key int string int

instantiation search_key :: linorder
begin

fun less_search_key :: "search_key \<Rightarrow> search_key \<Rightarrow> bool" where
  "less_search_key (Browse_key s n) (Browse_key s' n') \<longleftrightarrow> s' < s \<or> s' = s \<and> n' < n"
| "less_search_key (Match_key r s n) (Match_key r' s' n') \<longleftrightarrow>
     r < r' \<or> r = r' \<and> (s < s' \<or> s = s' \<and> n < n')"
| "less_search_key (Browse_key s n) (Match_key r' s' n') \<longleftrightarrow> True"
| "less_search_key (Match_key r s n) (Browse_key s' n') \<longleftrightarrow> False"

definition less_eq_search_key :: "search_key \<Rightarrow> search_key \<Rightarrow> bool" where
  "less_eq_search_key k k' \<longleftrightarrow> k = k' \<or> k < k'"

instance
proof
  fix j k l :: search_key
  have irrefl: "\<not> k < k" for k :: search_key by (cases k) auto
  have trans: "i < m" if "i < j" "j < m" for i j m :: search_key
    using that by (cases i; cases j; cases m) (auto dest: less_trans)
  show "(j < k) = (j \<le> k \<and> \<not> k \<le> j)"
    unfolding less_eq_search_key_def by (metis irrefl trans)
  show "j \<le> j" by (simp add: less_eq_search_key_def)
  show "j \<le> k \<Longrightarrow> k \<le> l \<Longrightarrow> j \<le> l" using trans unfolding less_eq_search_key_def by blast
  show "j \<le> k \<Longrightarrow> k \<le> j \<Longrightarrow> j = k" using irrefl trans unfolding less_eq_search_key_def by blast
  show "j \<le> k \<or> k \<le> j" unfolding less_eq_search_key_def by (cases j; cases k) auto
qed

end

definition search_key :: "bool \<Rightarrow> raw_result \<Rightarrow> search_key" where
  "search_key browse r =
     (if browse then Browse_key (rr_shard r) (rr_row_id r)
      else Match_key (float_key (sr_rank (rr_result r))) (rr_shard r) (rr_row_id r))"

definition cursor_of :: "bool \<Rightarrow> raw_result \<Rightarrow> search_cursor" where
  "cursor_of browse r =
     \<lparr>c_browse = browse, c_rank = sr_rank (rr_result r), c_shard = rr_shard r,
      c_row_id = rr_row_id r\<rparr>"

text \<open>The WHERE clause of the outer SELECT for a cursor.\<close>

definition after_cursor :: "bool \<Rightarrow> search_cursor \<Rightarrow> raw_result \<Rightarrow> bool" where
  "after_cursor browse c r =
     (let rank = float_key (sr_rank (rr_result r)); shard = rr_shard r; local_rowid = rr_row_id r
      in if browse
         then shard < c_shard c \<or> (shard = c_shard c \<and> local_rowid < c_row_id c)
         else float_key (c_rank c) < rank
            \<or> (rank = float_key (c_rank c)
               \<and> (c_shard c < shard \<or> (shard = c_shard c \<and> c_row_id c < local_rowid))))"

text \<open>\<open>SELECT \<dots> WHERE \<dots> ORDER BY \<dots> LIMIT\<close>\<close>

definition select_page :: "('r \<Rightarrow> 'k::linorder) \<Rightarrow> ('r \<Rightarrow> bool) \<Rightarrow> nat \<Rightarrow> 'r list \<Rightarrow> 'r list" where
  "select_page key where_ok n rows = take n (sort_key key (filter where_ok rows))"

text \<open>
  A client that follows the cursors: each query asks for one row more than the page, and there is a
  next page when it gets it. Too little fuel is \<open>None\<close>.
\<close>

fun pages :: "('c option \<Rightarrow> 'r list) \<Rightarrow> ('r \<Rightarrow> 'c) \<Rightarrow> nat \<Rightarrow> nat \<Rightarrow> 'c option \<Rightarrow> 'r list option" where
  "pages query cur_of limit 0 c = None"
| "pages query cur_of limit (Suc fuel) c =
     (let raw = query c
      in if limit < length raw
         then map_option (\<lambda>rest. take limit raw @ rest)
                (pages query cur_of limit fuel (Some (cur_of (raw ! (limit - 1)))))
         else Some raw)"

definition query_rows ::
  "('r \<Rightarrow> 'k::linorder) \<Rightarrow> ('c \<Rightarrow> 'r \<Rightarrow> bool) \<Rightarrow> nat \<Rightarrow> 'r list \<Rightarrow> 'c option \<Rightarrow> 'r list" where
  "query_rows key after_c n rows c =
     select_page key (case c of None \<Rightarrow> \<lambda>_. True | Some c \<Rightarrow> after_c c) n rows"

section \<open>The interface\<close>

locale keyset_pager =
  fixes key :: "'r \<Rightarrow> 'k::linorder" and cur_of :: "'r \<Rightarrow> 'c" and after :: "'c \<Rightarrow> 'r \<Rightarrow> bool"
  assumes after_cur_of: "after (cur_of x) y \<longleftrightarrow> key x < key y"
begin

text \<open>With distinct keys, the rows after the row at position \<open>i\<close> are those from position \<open>i + 1\<close> on.\<close>

lemma strictly_sorted:
  assumes "distinct rows" "inj_on key (set rows)"
  shows "sorted_wrt (\<lambda>x y. key x < key y) (sort_key key rows)"
proof -
  have "distinct (map key (sort_key key rows))" using assms by (simp add: distinct_map)
  moreover have "sorted (map key (sort_key key rows))" by simp
  ultimately have "sorted_wrt (<) (map key (sort_key key rows))"
    by (simp add: strict_sorted_iff)
  then show ?thesis by (simp add: sorted_wrt_map)
qed

lemma after_position:
  assumes "distinct rows" "inj_on key (set rows)" "i < length rows"
  shows "sort_key key (filter (after (cur_of (sort_key key rows ! i))) rows) =
    drop (Suc i) (sort_key key rows)"
proof -
  let ?ys = "sort_key key rows"
  have less: "key (?ys ! i) < key y \<longleftrightarrow> y \<in> set (drop (Suc i) ?ys)" if y: "y \<in> set ?ys" for y
  proof -
    obtain j where j: "j < length ?ys" "y = ?ys ! j" using y by (metis in_set_conv_nth)
    have sw: "a < b \<Longrightarrow> b < length ?ys \<Longrightarrow> key (?ys ! a) < key (?ys ! b)" for a b
      using strictly_sorted [OF assms(1,2)] by (simp add: sorted_wrt_iff_nth_less)
    show ?thesis
    proof (cases "i < j")
      case True
      then have "?ys ! j \<in> set (drop (Suc i) ?ys)"
        using j(1) by (auto simp: in_set_conv_nth intro!: exI [of _ "j - Suc i"])
      with sw True j show ?thesis by simp
    next
      case False
      then have "\<not> key (?ys ! i) < key (?ys ! j)"
        using sw [of j i] assms(3) by (cases "i = j") (auto dest: less_asym)
      moreover have "?ys ! j \<notin> set (drop (Suc i) ?ys)"
      proof
        assume "?ys ! j \<in> set (drop (Suc i) ?ys)"
        then obtain k where "k < length ?ys - Suc i" "?ys ! (Suc i + k) = ?ys ! j"
          by (auto simp: in_set_conv_nth)
        moreover from this(1) have "Suc i + k < length ?ys" by arith
        ultimately show False using sw [of j "Suc i + k"] False by simp
      qed
      ultimately show ?thesis using j by simp
    qed
  qed
  have "sort_key key (filter (after (cur_of (?ys ! i))) rows) =
      filter (\<lambda>y. y \<in> set (drop (Suc i) ?ys)) ?ys"
    using less by (simp add: filter_sort [symmetric] after_cur_of cong: filter_cong)
  also have "\<dots> = drop (Suc i) ?ys"
  proof -
    have d: "distinct (take (Suc i) ?ys @ drop (Suc i) ?ys)" using assms(1) by simp
    have "filter (\<lambda>y. y \<in> set (drop (Suc i) ?ys)) (take (Suc i) ?ys @ drop (Suc i) ?ys)
        = drop (Suc i) ?ys"
      using d by (auto simp: filter_empty_conv filter_id_conv simp del: append_take_drop_id)
    then show ?thesis by simp
  qed
  finally show ?thesis .
qed

lemma pages_from:
  assumes "distinct rows" "inj_on key (set rows)" "0 < limit"
    and "i < length rows" "length rows \<le> Suc i + fuel"
  shows "pages (query_rows key after (Suc limit) rows) cur_of limit (Suc fuel)
      (Some (cur_of (sort_key key rows ! i))) = Some (drop (Suc i) (sort_key key rows))"
  using assms(4,5)
proof (induction fuel arbitrary: i)
  case 0
  then have "drop (Suc i) (sort_key key rows) = []" by simp
  with 0 assms show ?case
    by (simp add: query_rows_def select_page_def after_position del: drop_eq_Nil)
next
  case (Suc fuel)
  let ?ys = "sort_key key rows"
  have q: "query_rows key after (Suc limit) rows (Some (cur_of (?ys ! i))) = take (Suc limit) (drop (Suc i) ?ys)"
    using assms(1,2) Suc.prems by (simp add: query_rows_def select_page_def after_position)
  show ?case
  proof (cases "limit < length (drop (Suc i) ?ys)")
    case True
    then have last: "take (Suc limit) (drop (Suc i) ?ys) ! (limit - 1) = ?ys ! (i + limit)"
      using assms(3) Suc.prems by simp
    have "pages (query_rows key after (Suc limit) rows) cur_of limit (Suc fuel)
        (Some (cur_of (?ys ! (i + limit)))) = Some (drop (Suc (i + limit)) ?ys)"
      using True assms(3) Suc.prems by (intro Suc.IH) auto
    moreover have "take limit (drop (Suc i) ?ys) @ drop (Suc (i + limit)) ?ys = drop (Suc i) ?ys"
      by (metis add_Suc_right append_take_drop_id drop_drop add.commute)
    ultimately show ?thesis
      using True q last by (subst pages.simps) (simp add: Let_def min_def)
  next
    case False
    then show ?thesis using q by (subst pages.simps) (simp add: Let_def)
  qed
qed

theorem pages_complete:
  assumes "distinct rows" "inj_on key (set rows)" "0 < limit"
  shows "pages (query_rows key after (Suc limit) rows) cur_of limit (Suc (length rows)) None =
    Some (sort_key key rows)"
proof -
  let ?ys = "sort_key key rows"
  have q: "query_rows key after (Suc limit) rows None = take (Suc limit) ?ys"
    by (simp add: query_rows_def select_page_def)
  show ?thesis
  proof (cases "limit < length rows")
    case True
    then have "length rows = Suc (length rows - 1)" by simp
    moreover have "pages (query_rows key after (Suc limit) rows) cur_of limit (Suc (length rows - 1))
        (Some (cur_of (?ys ! (limit - 1)))) = Some (drop (Suc (limit - 1)) ?ys)"
      using True assms by (intro pages_from) auto
    ultimately have "pages (query_rows key after (Suc limit) rows) cur_of limit (length rows)
        (Some (cur_of (?ys ! (limit - 1)))) = Some (drop limit ?ys)"
      using assms(3) by simp
    with True q assms(3) show ?thesis by (simp add: Let_def)
  next
    case False
    with q show ?thesis by (simp add: Let_def)
  qed
qed

end

text \<open>Both modes of \<open>Search\<close> keep the contract.\<close>

lemma after_cursor_iff:
  "after_cursor browse (cursor_of browse x) y \<longleftrightarrow> search_key browse x < search_key browse y"
  by (auto simp: after_cursor_def cursor_of_def search_key_def Let_def)

interpretation pager: keyset_pager "search_key browse" "cursor_of browse" "after_cursor browse"
  for browse
  by unfold_locales (rule after_cursor_iff)

end
