(* ===== verification/Search.thy ===== *)
theory Search
  imports Main "HOL-Library.Multiset" Prelude Go_Strings Go_Time Go_Time_Text Levels Query_Text
    Cursor Store Paging
begin

text \<open>
  \<open>Store.Search\<close> of \<open>internal/storage/sqlite.go\<close>: the choice of the shards, the SQL text it builds
  (translated to list functions), the pages and their cursors. The FTS5 engine is not part of the
  repository: what its MATCH, bm25() and snippet() return is the parameter \<open>fts_engine\<close>.
\<close>

section \<open>existingShardDates\<close>

definition max_attached_shards :: nat where
  "max_attached_shards = 10"

text \<open>\<open>os.Stat\<close> on the path of a shard.\<close>

definition stat_ok :: "faults \<Rightarrow> store \<Rightarrow> string \<Rightarrow> bool" where
  "stat_ok flt s date \<longleftrightarrow> flt (Stat date) = None \<and> map_of (files s) (shard_name date) \<noteq> None"

text \<open>The loop \<open>for d := start; !d.After(end); d = d.AddDate(0, 0, 1)\<close>.\<close>

function stat_dates :: "faults \<Rightarrow> store \<Rightarrow> go_time \<Rightarrow> go_time \<Rightarrow> string list" where
  "stat_dates flt s d end_t =
     (if after d end_t then []
      else let date = format_date d; rest = stat_dates flt s (add_days d 1) end_t
           in if stat_ok flt s date then date # rest else rest)"
  by pat_completeness auto
termination
  by (relation "measure (\<lambda>(flt, s, d, end_t). nat (instant end_t - instant d + 1))")
    (auto simp: after_def day_ns_def)

declare stat_dates.simps [simp del]

definition existing_shard_dates ::
  "faults \<Rightarrow> store \<Rightarrow> go_time \<Rightarrow> go_time \<Rightarrow> string list \<times> bool" where
  "existing_shard_dates flt s start_t end_t =
     (let dates = stat_dates flt s start_t end_t
      in if max_attached_shards < length dates
         then (drop (length dates - max_attached_shards) dates, True)
         else (dates, False))"

section \<open>The query\<close>

record fts_engine =
  fe_syntax :: "string \<Rightarrow> err option"
  fe_match :: "string \<Rightarrow> string \<Rightarrow> bool"
  fe_bm25 :: "string \<Rightarrow> fts_rows \<Rightarrow> int \<Rightarrow> float64"
  fe_snippet :: "string \<Rightarrow> string \<Rightarrow> string"

record search_options =
  o_query :: string
  o_start :: go_time
  o_end :: go_time
  o_limit :: int
  o_cursor :: string
  o_min_level :: string
  o_pod :: string

record search_page =
  p_results :: "search_result list"
  p_next_cursor :: string

definition empty_page :: search_page where
  "empty_page = \<lparr>p_results = [], p_next_cursor = ''''\<rparr>"

definition shard_alias :: "string \<Rightarrow> string" where
  "shard_alias date = ''d'' @ replace_byte CHR ''-'' [] date"

text \<open>The conditions \<open>level IN (\<dots>)\<close> and \<open>pod = ?\<close>.\<close>

definition conditions_ok :: "search_options \<Rightarrow> log_row \<Rightarrow> bool" where
  "conditions_ok opts row =
     (let (levels, filter_level) = levels_at_or_above (o_min_level opts);
          filter_pod = (o_pod opts \<noteq> [])
      in (filter_level \<longrightarrow> r_level row \<in> set levels) \<and> (filter_pod \<longrightarrow> r_pod row = o_pod opts))"

definition raw_of ::
  "string \<Rightarrow> (log_row \<Rightarrow> string) \<Rightarrow> (int \<Rightarrow> float64) \<Rightarrow> int \<times> log_row \<Rightarrow> raw_result" where
  "raw_of alias snip rank r =
     (case r of (rowid, row) \<Rightarrow>
        \<lparr>rr_result = \<lparr>sr_pod = r_pod row, sr_namespace = r_namespace row,
                      sr_container = r_container row, sr_timestamp = r_timestamp row,
                      sr_level = r_level row, sr_snippet = snip row, sr_rank = rank rowid\<rparr>,
         rr_shard = alias, rr_row_id = rowid\<rparr>)"

text \<open>The SELECT of one shard: \<open>browse\<close> without MATCH, else with it.\<close>

definition shard_select ::
  "fts_engine \<Rightarrow> search_options \<Rightarrow> string \<Rightarrow> fts_rows \<Rightarrow> raw_result list" where
  "shard_select eng opts date rows =
     (let query = sanitize_match_query (o_query opts); alias = shard_alias date
      in if o_query opts = []
         then map (raw_of alias r_line (\<lambda>_. float_zero))
                (filter (\<lambda>r. conditions_ok opts (snd r)) rows)
         else map (raw_of alias (\<lambda>row. fe_snippet eng query (r_line row)) (fe_bm25 eng query rows))
                (filter (\<lambda>r. fe_match eng query (r_line (snd r)) \<and> conditions_ok opts (snd r)) rows))"

text \<open>The \<open>UNION ALL\<close>: a shard without the table or without the column fails the whole query.\<close>

fun select_shards ::
  "fts_engine \<Rightarrow> search_options \<Rightarrow> store \<Rightarrow> string list \<Rightarrow> raw_result list result" where
  "select_shards eng opts s [] = Inr []"
| "select_shards eng opts s (date # dates) =
     (case table_of s date of
        Some (Fts_table rows) \<Rightarrow>
          (case select_shards eng opts s dates of
             Inl e \<Rightarrow> Inl e
           | Inr rest \<Rightarrow> Inr (shard_select eng opts date rows @ rest))
      | Some (Legacy_table rows) \<Rightarrow> Inl ''no such column: level''
      | _ \<Rightarrow> Inl ''no such table: fts'')"

text \<open>\<open>ATTACH DATABASE\<close> for each date; a shard that cannot be attached is skipped.\<close>

definition attach_shards :: "faults \<Rightarrow> store \<Rightarrow> string list \<Rightarrow> string list" where
  "attach_shards flt s dates = filter (\<lambda>d. flt (Attach d) = None \<and> table_of s d \<noteq> None) dates"

definition run_query ::
  "fts_engine \<Rightarrow> faults \<Rightarrow> search_options \<Rightarrow> store \<Rightarrow> string list \<Rightarrow> nat \<Rightarrow> search_cursor option
   \<Rightarrow> raw_result list result" where
  "run_query eng flt opts s attached limit cursor =
     (let browse = (o_query opts = [])
      in case flt Query_rows of
           Some e \<Rightarrow> Inl e
         | None \<Rightarrow>
             (case (if browse then None else fe_syntax eng (sanitize_match_query (o_query opts))) of
                Some e \<Rightarrow> Inl e
              | None \<Rightarrow>
                  (case select_shards eng opts s attached of
                     Inl e \<Rightarrow> Inl e
                   | Inr hits \<Rightarrow>
                       Inr (query_rows (search_key browse) (after_cursor browse) (Suc limit)
                              hits cursor))))"

definition escape_result :: "raw_result \<Rightarrow> raw_result" where
  "escape_result r =
     r\<lparr>rr_result := (rr_result r)\<lparr>sr_snippet := escape_snippet (sr_snippet (rr_result r))\<rparr>\<rparr>"

fun scan_rows :: "faults \<Rightarrow> nat \<Rightarrow> raw_result list \<Rightarrow> raw_result list result" where
  "scan_rows flt i [] = (case flt Rows_err of Some e \<Rightarrow> Inl e | None \<Rightarrow> Inr [])"
| "scan_rows flt i (r # rs) =
     (case flt (Scan_row i) of
        Some e \<Rightarrow> Inl (''scan result: '' @ e)
      | None \<Rightarrow>
          (case scan_rows flt (Suc i) rs of Inl e \<Rightarrow> Inl e | Inr rest \<Rightarrow> Inr (escape_result r # rest)))"

definition make_page :: "bool \<Rightarrow> nat \<Rightarrow> raw_result list \<Rightarrow> search_page" where
  "make_page browse limit raw =
     \<lparr>p_results = map rr_result (take limit raw),
      p_next_cursor =
        (if limit < length raw then encode_cursor (cursor_of browse (raw ! (limit - 1))) else '''')\<rparr>"

definition page_limit :: "search_options \<Rightarrow> nat" where
  "page_limit opts = (if o_limit opts \<le> 0 \<or> 500 < o_limit opts then 500 else nat (o_limit opts))"

definition search ::
  "fts_engine \<Rightarrow> (string \<Rightarrow> float64 option) \<Rightarrow> faults \<Rightarrow> err option \<Rightarrow> search_options \<Rightarrow> store
   \<Rightarrow> search_page result" where
  "search eng other flt ctx_err opts s =
     (case ctx_err of
        Some e \<Rightarrow> Inl e
      | None \<Rightarrow>
          (let limit = page_limit opts;
               browse = (o_query opts = []);
               (dates, capped) = existing_shard_dates flt s (o_start opts) (o_end opts)
           in if dates = [] then Inr empty_page
              else
                (case (if o_cursor opts = [] then Inr None
                       else map_sum id Some (decode_cursor other (o_cursor opts))) of
                   Inl e \<Rightarrow> Inl e
                 | Inr cursor \<Rightarrow>
                     (case flt Open_memory of
                        Some e \<Rightarrow> Inl (''open search connection: '' @ e)
                      | None \<Rightarrow>
                          (let attached = attach_shards flt s dates
                           in if attached = [] then Inr empty_page
                              else
                                (case run_query eng flt opts s attached limit cursor of
                                   Inl e \<Rightarrow> Inl (''search query: '' @ e)
                                 | Inr rows \<Rightarrow>
                                     (case scan_rows flt 0 rows of
                                        Inl e \<Rightarrow> Inl e
                                      | Inr raw \<Rightarrow> Inr (make_page browse limit raw))))))))"


section \<open>Which shards are searched\<close>

text \<open>The last day the loop visits.\<close>

definition last_day :: "go_time \<Rightarrow> go_time \<Rightarrow> int" where
  "last_day start_t end_t = day_of start_t + (instant end_t - instant start_t) div day_ns"

definition range_in_years :: "go_time \<Rightarrow> go_time \<Rightarrow> bool" where
  "range_in_years start_t end_t \<longleftrightarrow> in_years (day_of start_t) \<and> in_years (last_day start_t end_t)"

lemma last_day_step: "last_day (add_days d 1) end_t = last_day d end_t"
proof -
  have "(instant end_t - instant (add_days d 1)) div day_ns
      = ((instant end_t - instant d) + (-1) * day_ns) div day_ns" by (simp add: algebra_simps)
  also have "\<dots> = -1 + (instant end_t - instant d) div day_ns"
    by (rule div_mult_self1) (simp add: day_ns_def)
  finally show ?thesis unfolding last_day_def day_of_add_days by linarith
qed

lemma stat_dates_upto:
  "stat_dates flt s d end_t = filter (stat_ok flt s) (map fmt_day [day_of d..last_day d end_t])"
proof (induction flt s d end_t rule: stat_dates.induct)
  case (1 flt s d end_t)
  have le: "day_of d \<le> last_day d end_t \<longleftrightarrow> \<not> after d end_t"
    by (simp add: last_day_def after_def pos_imp_zdiv_nonneg_iff day_ns_def not_less)
  show ?case
  proof (cases "after d end_t")
    case True
    with le show ?thesis by (subst stat_dates.simps) simp
  next
    case False
    with 1 le have "stat_dates flt s (add_days d 1) end_t =
        filter (stat_ok flt s) (map fmt_day [day_of d + 1..last_day d end_t])"
      by (simp add: last_day_step)
    with False le show ?thesis
      by (subst stat_dates.simps) (simp add: upto_rec1 format_date_def Let_def)
  qed
qed

lemma in_years_between: "in_years a \<Longrightarrow> in_years b \<Longrightarrow> a \<le> n \<Longrightarrow> n \<le> b \<Longrightarrow> in_years n"
  using year_of_mono [of a n] year_of_mono [of n b] by (auto simp: in_years_def)

lemma dates_sorted:
  assumes "range_in_years start_t end_t"
  shows "sorted_wrt (<) (map fmt_day [day_of start_t..last_day start_t end_t])"
proof -
  have y: "in_years n" if "n \<in> {day_of start_t..last_day start_t end_t}" for n
    using assms that in_years_between by (auto simp: range_in_years_def)
  show ?thesis
    unfolding sorted_wrt_map
    by (rule sorted_wrt_mono_rel [of _ "(<)"]) (use y fmt_day_less in auto)
qed

lemma stat_dates_sorted:
  "range_in_years start_t end_t \<Longrightarrow> sorted_wrt (<) (stat_dates flt s start_t end_t)"
  unfolding stat_dates_upto by (rule sorted_wrt_filter) (rule dates_sorted)

lemma existing_dates_suffix:
  "\<exists>k. fst (existing_shard_dates flt s start_t end_t) = drop k (stat_dates flt s start_t end_t)"
  by (auto simp: existing_shard_dates_def Let_def intro: exI [of _ 0])

lemma existing_dates_sorted:
  assumes "range_in_years start_t end_t"
  shows "sorted_wrt (<) (fst (existing_shard_dates flt s start_t end_t))"
  using existing_dates_suffix [of flt s start_t end_t] stat_dates_sorted [OF assms, of flt s]
  by (metis sorted_wrt_drop)

lemma existing_dates_day:
  assumes "date \<in> set (fst (existing_shard_dates flt s start_t end_t))"
    "range_in_years start_t end_t"
  obtains n where "date = fmt_day n" "in_years n" "stat_ok flt s date"
proof -
  have "date \<in> set (stat_dates flt s start_t end_t)"
    using existing_dates_suffix [of flt s start_t end_t] assms(1) by (metis in_set_dropD)
  then obtain n where n: "date = fmt_day n" "stat_ok flt s date"
    "day_of start_t \<le> n" "n \<le> last_day start_t end_t"
    by (auto simp: stat_dates_upto)
  with assms(2) have "in_years n" using in_years_between by (auto simp: range_in_years_def)
  with n that show ?thesis by blast
qed

section \<open>Shard aliases\<close>

lemma replace_byte_digits: "list_all is_digit s \<Longrightarrow> replace_byte CHR ''-'' [] s = s"
  by (rule replace_byte_absent) (auto simp: list_all_iff)

lemma shard_alias_padw:
  assumes "in_years n" "civil_of_days n = (y, m, d)"
  shows "shard_alias (fmt_day n) = ''d'' @ padw 4 (nat y) @ padw 2 (nat m) @ padw 2 (nat d)"
  using padw_digits
  by (simp add: shard_alias_def fmt_day_padw(1) [OF assms] replace_byte_digits list_all_iff)

text \<open>The aliases are ordered as the dates are, so \<open>shard DESC\<close> is the most recent day first.\<close>

lemma shard_alias_less_iff:
  assumes "in_years a" "in_years b"
  shows "shard_alias (fmt_day a) < shard_alias (fmt_day b) \<longleftrightarrow> fmt_day a < fmt_day b"
proof -
  obtain y m d where a: "civil_of_days a = (y, m, d)" by (cases "civil_of_days a")
  obtain y' m' d' where b: "civil_of_days b = (y', m', d')" by (cases "civil_of_days b")
  show ?thesis
    by (simp only: shard_alias_padw [OF assms(1) a] shard_alias_padw [OF assms(2) b],
        simp only: fmt_day_padw(1) [OF assms(1) a] fmt_day_padw(1) [OF assms(2) b])
      (simp add: less_append_same_length)
qed

lemma shard_alias_inj:
  assumes "in_years a" "in_years b" "shard_alias (fmt_day a) = shard_alias (fmt_day b)"
  shows "fmt_day a = fmt_day b"
  using assms shard_alias_less_iff [of a b] shard_alias_less_iff [of b a]
  by (metis less_irrefl less_linear)

lemma shard_alias_no_bar: "CHR ''|'' \<notin> set (shard_alias (fmt_day n))" if "in_years n"
proof -
  obtain y m d where c: "civil_of_days n = (y, m, d)" by (cases "civil_of_days n")
  have "\<not> is_digit CHR ''|''" by (simp add: is_digit_def)
  then show ?thesis
    using padw_digits unfolding shard_alias_padw [OF that c] by auto
qed


section \<open>The matching rows\<close>

definition table_rows :: "store \<Rightarrow> string \<Rightarrow> fts_rows" where
  "table_rows s d = (case table_of s d of Some (Fts_table rows) \<Rightarrow> rows | _ \<Rightarrow> [])"

definition matching_hits ::
  "fts_engine \<Rightarrow> search_options \<Rightarrow> store \<Rightarrow> string list \<Rightarrow> raw_result list" where
  "matching_hits eng opts s dates =
     concat (map (\<lambda>d. shard_select eng opts d (table_rows s d)) dates)"

definition current_shard :: "store \<Rightarrow> string \<Rightarrow> bool" where
  "current_shard s d \<longleftrightarrow> (\<exists>rows. table_of s d = Some (Fts_table rows))"

lemma select_shards_Inr:
  "select_shards eng opts s dates = Inr hits \<longleftrightarrow>
     (\<forall>d \<in> set dates. current_shard s d) \<and> hits = matching_hits eng opts s dates"
proof (induction dates arbitrary: hits)
  case (Cons d dates)
  show ?case
  proof (cases "current_shard s d")
    case True
    then obtain rows where "table_of s d = Some (Fts_table rows)" by (auto simp: current_shard_def)
    with True Cons show ?thesis
      by (cases "select_shards eng opts s dates")
        (auto simp: matching_hits_def table_rows_def)
  next
    case False
    then show ?thesis
      by (auto simp: current_shard_def split: option.splits fts_table.splits)
  qed
qed (auto simp: matching_hits_def)

lemma raw_of_fields [simp]:
  "rr_shard (raw_of alias snip rank r) = alias" "rr_row_id (raw_of alias snip rank r) = fst r"
  by (simp_all add: raw_of_def split: prod.split)

lemma shard_select_shard: "r \<in> set (shard_select eng opts d rows) \<Longrightarrow> rr_shard r = shard_alias d"
  by (auto simp: shard_select_def Let_def split: if_splits)

lemma shard_select_row_id: "r \<in> set (shard_select eng opts d rows) \<Longrightarrow> rr_row_id r \<in> fst ` set rows"
  by (force simp: shard_select_def Let_def split: if_splits)

lemma shard_select_distinct:
  "distinct (map fst rows) \<Longrightarrow> distinct (map rr_row_id (shard_select eng opts d rows))"
  by (simp add: shard_select_def Let_def o_def distinct_map_filter)

lemma numbered_distinct: "numbered rows \<Longrightarrow> distinct (map fst rows)"
  by (simp add: numbered_def distinct_map)

lemma table_rows_numbered: "store_inv s \<Longrightarrow> numbered (table_rows s d)"
  by (auto simp: table_rows_def store_inv_def split: option.splits fts_table.splits)

definition row_place :: "raw_result \<Rightarrow> string \<times> int" where
  "row_place r = (rr_shard r, rr_row_id r)"

lemma matching_hits_places:
  assumes "store_inv s" "distinct dates" "inj_on shard_alias (set dates)"
  shows "distinct (map row_place (matching_hits eng opts s dates))"
  using assms(2,3)
proof (induction dates)
  case (Cons d dates)
  let ?here = "shard_select eng opts d (table_rows s d)"
  have "distinct (map rr_row_id ?here)"
    using assms(1) by (intro shard_select_distinct numbered_distinct table_rows_numbered)
  then have "distinct (map row_place ?here)"
    by (auto simp: distinct_map inj_on_def row_place_def)
  moreover have "row_place x \<noteq> row_place y"
    if x: "x \<in> set ?here" and y: "y \<in> set (matching_hits eng opts s dates)" for x y
  proof -
    obtain d' where "d' \<in> set dates" "rr_shard y = shard_alias d'"
      using y by (auto simp: matching_hits_def dest: shard_select_shard)
    moreover have "rr_shard x = shard_alias d" using x by (rule shard_select_shard)
    ultimately show ?thesis using Cons.prems by (auto simp: row_place_def)
  qed
  then have "row_place ` set ?here \<inter> row_place ` set (matching_hits eng opts s dates) = {}" by blast
  moreover have "matching_hits eng opts s (d # dates) = ?here @ matching_hits eng opts s dates"
    by (simp add: matching_hits_def)
  ultimately show ?case using Cons by simp
qed (simp add: matching_hits_def)

lemma search_key_place: "search_key browse x = search_key browse y \<Longrightarrow> row_place x = row_place y"
  by (simp add: search_key_def row_place_def split: if_splits)

lemma matching_hits_keys:
  assumes "store_inv s" "distinct dates" "inj_on shard_alias (set dates)"
  shows "distinct (matching_hits eng opts s dates)"
    and "inj_on (search_key browse) (set (matching_hits eng opts s dates))"
proof -
  have p: "distinct (map row_place (matching_hits eng opts s dates))"
    using assms by (rule matching_hits_places)
  then show "distinct (matching_hits eng opts s dates)" by (simp add: distinct_map)
  show "inj_on (search_key browse) (set (matching_hits eng opts s dates))"
  proof (rule inj_onI)
    fix x y assume "x \<in> set (matching_hits eng opts s dates)" "y \<in> set (matching_hits eng opts s dates)"
      "search_key browse x = search_key browse y"
    with p search_key_place [of browse x y] show "x = y" by (auto simp: distinct_map dest: inj_onD)
  qed
qed

lemma dates_distinct_aliases:
  assumes r: "range_in_years start_t end_t" and d: "dates = fst (existing_shard_dates flt s start_t end_t)"
  shows "distinct dates" "inj_on shard_alias (set dates)"
proof -
  show "distinct dates"
    using existing_dates_sorted [OF r, of flt s] by (simp add: d strict_sorted_iff)
  show "inj_on shard_alias (set dates)"
  proof (rule inj_onI)
    fix a b assume ab: "a \<in> set dates" "b \<in> set dates" "shard_alias a = shard_alias b"
    obtain m where "a = fmt_day m" "in_years m"
      using existing_dates_day [OF ab(1) [unfolded d] r] by blast
    moreover obtain n where "b = fmt_day n" "in_years n"
      using existing_dates_day [OF ab(2) [unfolded d] r] by blast
    ultimately show "a = b" using ab(3) shard_alias_inj by blast
  qed
qed


section \<open>One query without failures\<close>

lemma cursor_independent [simp]:
  "conditions_ok (opts\<lparr>o_cursor := c\<rparr>) = conditions_ok opts"
  "shard_select eng (opts\<lparr>o_cursor := c\<rparr>) = shard_select eng opts"
  "matching_hits eng (opts\<lparr>o_cursor := c\<rparr>) s dates = matching_hits eng opts s dates"
  "select_shards eng (opts\<lparr>o_cursor := c\<rparr>) s dates = select_shards eng opts s dates"
  "page_limit (opts\<lparr>o_cursor := c\<rparr>) = page_limit opts"
proof -
  show cond: "conditions_ok (opts\<lparr>o_cursor := c\<rparr>) = conditions_ok opts"
    by (rule ext) (simp add: conditions_ok_def)
  show sel: "shard_select eng (opts\<lparr>o_cursor := c\<rparr>) = shard_select eng opts"
    by (intro ext) (simp add: shard_select_def cond Let_def)
  show "matching_hits eng (opts\<lparr>o_cursor := c\<rparr>) s dates = matching_hits eng opts s dates"
    by (simp add: matching_hits_def sel)
  show "select_shards eng (opts\<lparr>o_cursor := c\<rparr>) s dates = select_shards eng opts s dates"
    by (induction dates) (simp_all add: sel split: option.split fts_table.split sum.split)
  show "page_limit (opts\<lparr>o_cursor := c\<rparr>) = page_limit opts"
    by (simp add: page_limit_def)
qed

text \<open>
  The searched dates, and what a search needs to succeed: calendar dates with four-digit years,
  shards of the current schema, a query that the engine accepts.
\<close>

definition searched_dates :: "faults \<Rightarrow> search_options \<Rightarrow> store \<Rightarrow> string list" where
  "searched_dates flt opts s = fst (existing_shard_dates flt s (o_start opts) (o_end opts))"

definition searchable :: "fts_engine \<Rightarrow> search_options \<Rightarrow> store \<Rightarrow> bool" where
  "searchable eng opts s \<longleftrightarrow> range_in_years (o_start opts) (o_end opts)
     \<and> (\<forall>d \<in> set (searched_dates no_faults opts s). current_shard s d)
     \<and> (o_query opts = [] \<or> fe_syntax eng (sanitize_match_query (o_query opts)) = None)"

lemmas query_calls [simp] = no_faults_def [of Open_memory] no_faults_def [of "Attach d" for d]
  no_faults_def [of Query_rows] no_faults_def [of "Scan_row i" for i] no_faults_def [of Rows_err]

lemma scan_rows_no_faults: "scan_rows no_faults i rs = Inr (map escape_result rs)"
  by (induction rs arbitrary: i) simp_all

lemma existing_dates_cursor [simp]:
  "searched_dates flt (opts\<lparr>o_cursor := c\<rparr>) s = searched_dates flt opts s"
  by (simp add: searched_dates_def)

lemma attach_current:
  "\<forall>d \<in> set dates. current_shard s d \<Longrightarrow> attach_shards no_faults s dates = dates"
  by (auto simp: attach_shards_def filter_id_conv current_shard_def)

lemma search_no_faults:
  assumes "searchable eng opts s"
    and "(if cur = [] then Inr None else map_sum id Some (decode_cursor other cur)) = Inr c"
  shows "search eng other no_faults None (opts\<lparr>o_cursor := cur\<rparr>) s =
    Inr (make_page (o_query opts = []) (page_limit opts)
      (map escape_result (query_rows (search_key (o_query opts = []))
         (after_cursor (o_query opts = [])) (Suc (page_limit opts))
         (matching_hits eng opts s (searched_dates no_faults opts s)) c)))"
proof -
  let ?dates = "searched_dates no_faults opts s"
  obtain dates capped where e:
    "existing_shard_dates no_faults s (o_start opts) (o_end opts) = (dates, capped)" by fastforce
  then have d: "?dates = dates" by (simp add: searched_dates_def)
  have cur: "\<forall>d \<in> set dates. current_shard s d" using assms(1) d by (simp add: searchable_def)
  show ?thesis
  proof (cases "dates = []")
    case True
    then show ?thesis
      by (simp add: search_def e d matching_hits_def query_rows_def select_page_def make_page_def
          empty_page_def)
  next
    case False
    have "select_shards eng opts s dates = Inr (matching_hits eng opts s dates)"
      using cur by (simp add: select_shards_Inr)
    then have "run_query eng no_faults (opts\<lparr>o_cursor := cur\<rparr>) s dates (page_limit opts) c =
        Inr (query_rows (search_key (o_query opts = [])) (after_cursor (o_query opts = []))
          (Suc (page_limit opts)) (matching_hits eng opts s dates) c)"
      using assms(1) by (auto simp: run_query_def searchable_def Let_def)
    then show ?thesis
      using False assms(2)
      by (cases "cur = []")
        (auto simp: search_def e d Let_def attach_current [OF cur] scan_rows_no_faults)
  qed
qed

section \<open>Following the cursors\<close>

text \<open>A client that asks for the next page as long as there is one.\<close>

fun collect_pages ::
  "fts_engine \<Rightarrow> (string \<Rightarrow> float64 option) \<Rightarrow> faults \<Rightarrow> nat \<Rightarrow> search_options \<Rightarrow> store
   \<Rightarrow> search_result list result" where
  "collect_pages eng other flt 0 opts s = Inl ''too many pages''"
| "collect_pages eng other flt (Suc fuel) opts s =
     (case search eng other flt None opts s of
        Inl e \<Rightarrow> Inl e
      | Inr page \<Rightarrow>
          if p_next_cursor page = [] then Inr (p_results page)
          else (case collect_pages eng other flt fuel
                       (opts\<lparr>o_cursor := p_next_cursor page\<rparr>) s of
                  Inl e \<Rightarrow> Inl e
                | Inr rest \<Rightarrow> Inr (p_results page @ rest)))"

lemma page_limit_bounds: "0 < page_limit opts" "page_limit opts \<le> 500"
  by (auto simp: page_limit_def)

lemma encode_cursor_ne [simp]: "encode_cursor c \<noteq> []"
  by (simp add: encode_cursor_def b64_encode_Nil Let_def)

lemma escape_result_simps [simp]:
  "rr_shard (escape_result r) = rr_shard r" "rr_row_id (escape_result r) = rr_row_id r"
  "cursor_of browse (escape_result r) = cursor_of browse r"
  by (simp_all add: escape_result_def cursor_of_def)

definition text_of_cursor :: "search_cursor option \<Rightarrow> string" where
  "text_of_cursor c = (case c of None \<Rightarrow> '''' | Some c \<Rightarrow> encode_cursor c)"

lemma query_rows_subset: "set (query_rows key after_c n rows c) \<subseteq> set rows"
  by (auto simp: query_rows_def select_page_def dest: in_set_takeD split: option.splits)

lemma collect_pages_step:
  assumes "searchable eng opts s"
    and wf: "\<forall>r \<in> set hits. cursor_wf (cursor_of (o_query opts = []) r)"
    and hits: "hits = matching_hits eng opts s (searched_dates no_faults opts s)"
    and "c = None \<or> (\<exists>r \<in> set hits. c = Some (cursor_of (o_query opts = []) r))"
    and "pages (query_rows (search_key (o_query opts = [])) (after_cursor (o_query opts = []))
           (Suc (page_limit opts)) hits) (cursor_of (o_query opts = [])) (page_limit opts) fuel c
         = Some rs"
  shows "collect_pages eng other no_faults fuel (opts\<lparr>o_cursor := text_of_cursor c\<rparr>) s =
    Inr (map (rr_result \<circ> escape_result) rs)"
  using assms(4,5)
proof (induction fuel arbitrary: c rs)
  case (Suc fuel)
  let ?b = "o_query opts = []" and ?n = "page_limit opts"
  let ?q = "query_rows (search_key ?b) (after_cursor ?b) (Suc ?n) hits"
  have "(if text_of_cursor c = [] then Inr None
      else map_sum id Some (decode_cursor other (text_of_cursor c))) = Inr c"
    using Suc.prems(1) wf by (auto simp: text_of_cursor_def decode_encode)
  note page = search_no_faults [OF assms(1) this, folded hits]
  show ?case
  proof (cases "?n < length (?q c)")
    case True
    let ?last = "?q c ! (?n - 1)"
    have "?last \<in> set hits" using True query_rows_subset by (metis nth_mem less_imp_diff_less subsetD)
    moreover from True Suc.prems(2) obtain rest where rest:
      "pages ?q (cursor_of ?b) ?n fuel (Some (cursor_of ?b ?last)) = Some rest"
      "rs = take ?n (?q c) @ rest" by (auto simp: Let_def)
    ultimately have "collect_pages eng other no_faults fuel
        (opts\<lparr>o_cursor := text_of_cursor (Some (cursor_of ?b ?last))\<rparr>) s =
        Inr (map (rr_result \<circ> escape_result) rest)" by (intro Suc.IH) auto
    then show ?thesis
      using True page_limit_bounds(1) [of opts]
      by (simp add: page make_page_def text_of_cursor_def [of "Some _"] rest(2) take_map o_def)
  next
    case False
    with Suc.prems(2) show ?thesis by (simp add: page make_page_def Let_def o_def)
  qed
qed simp


text \<open>
  What the engine is relied on for: bm25() of a row is a number. The rowids fit in 64 bits.
\<close>

definition engine_ok :: "fts_engine \<Rightarrow> bool" where
  "engine_ok eng \<longleftrightarrow> (\<forall>q rows n. float_wf (fe_bm25 eng q rows n) \<and> \<not> is_nan (fe_bm25 eng q rows n))"

definition rowids_fit :: "store \<Rightarrow> bool" where
  "rowids_fit s \<longleftrightarrow> (\<forall>d. length (table_rows s d) < 2 ^ 63)"

lemma raw_of_rank [simp]: "sr_rank (rr_result (raw_of alias snip rank r)) = rank (fst r)"
  by (simp add: raw_of_def split: prod.split)

lemma shard_select_rank:
  assumes "engine_ok eng" "r \<in> set (shard_select eng opts d rows)"
  shows "float_wf (sr_rank (rr_result r)) \<and> \<not> is_nan (sr_rank (rr_result r))"
  using assms
  by (auto simp: shard_select_def Let_def engine_ok_def float_zero_def float_wf_def is_nan_def
      split: if_splits)

lemma numbered_bounds:
  assumes "numbered rows" "n \<in> fst ` set rows"
  shows "1 \<le> n \<and> n \<le> int (length rows)"
proof -
  have "fst ` set rows = set (map fst rows)" by simp
  also have "\<dots> = int ` {1..<Suc (length rows)}"
    using assms(1) unfolding numbered_def by (simp only: set_map set_upt)
  finally show ?thesis using assms(2) by auto
qed

lemma hits_cursor_wf:
  assumes "engine_ok eng" "store_inv s" "rowids_fit s" "range_in_years (o_start opts) (o_end opts)"
    and "r \<in> set (matching_hits eng opts s (searched_dates flt opts s))"
  shows "cursor_wf (cursor_of browse r)"
proof -
  obtain d where d: "d \<in> set (searched_dates flt opts s)"
    and r: "r \<in> set (shard_select eng opts d (table_rows s d))"
    using assms(5) by (auto simp: matching_hits_def)
  obtain n where "d = fmt_day n" "in_years n"
    using existing_dates_day [OF d [unfolded searched_dates_def] assms(4)] by blast
  then have "CHR ''|'' \<notin> set (rr_shard r)"
    using shard_select_shard [OF r] shard_alias_no_bar by simp
  moreover have "1 \<le> rr_row_id r \<and> rr_row_id r \<le> int (length (table_rows s d))"
    using numbered_bounds [OF table_rows_numbered [OF assms(2)] shard_select_row_id [OF r]] .
  moreover have "int (length (table_rows s d)) < 2 ^ 63"
    using assms(3) by (simp add: rowids_fit_def)
  ultimately show ?thesis
    using shard_select_rank [OF assms(1) r] by (simp add: cursor_wf_def cursor_of_def)
qed

text \<open>Following the cursors yields the hits in the order of the sort key.\<close>

lemma collect_pages_hits:
  assumes "searchable eng opts s" "engine_ok eng" "store_inv s" "rowids_fit s" "o_cursor opts = ''''"
  defines "hits \<equiv> matching_hits eng opts s (searched_dates no_faults opts s)"
  shows "distinct hits
    \<and> collect_pages eng other no_faults (Suc (length hits)) opts s =
        Inr (map (rr_result \<circ> escape_result) (sort_key (search_key (o_query opts = [])) hits))"
proof -
  let ?b = "o_query opts = []"
  have r: "range_in_years (o_start opts) (o_end opts)" using assms(1) by (simp add: searchable_def)
  have keys: "distinct hits" "inj_on (search_key ?b) (set hits)"
    unfolding hits_def using dates_distinct_aliases [OF r] assms(3)
    by (auto simp: searched_dates_def intro!: matching_hits_keys)
  have wf: "\<forall>r \<in> set hits. cursor_wf (cursor_of ?b r)"
    unfolding hits_def using hits_cursor_wf [OF assms(2-4) r] by blast
  have "collect_pages eng other no_faults (Suc (length hits))
      (opts\<lparr>o_cursor := text_of_cursor None\<rparr>) s =
      Inr (map (rr_result \<circ> escape_result) (sort_key (search_key ?b) hits))"
    using wf pager.pages_complete [OF keys page_limit_bounds(1) [of opts]]
    by (intro collect_pages_step [OF assms(1) wf]) (simp_all add: hits_def)
  moreover have "opts\<lparr>o_cursor := text_of_cursor None\<rparr> = opts"
    using assms(5) by (simp add: text_of_cursor_def)
  ultimately show ?thesis using keys(1) by simp
qed

section \<open>Properties\<close>

text \<open>
  C3: pagination loses nothing and repeats nothing: following \<open>NextCursor\<close> from the first page
  until it is empty yields exactly the rows of the searched shards that match the query and the
  filters, each once, in the order of the sort key, and ends after at most one page per row.
\<close>

theorem search_pages_complete:
  assumes "searchable eng opts s" "engine_ok eng" "store_inv s" "rowids_fit s" "o_cursor opts = ''''"
  defines "hits \<equiv> matching_hits eng opts s (searched_dates no_faults opts s)"
  shows "distinct hits
    \<and> collect_pages eng other no_faults (Suc (length hits)) opts s =
        Inr (map (rr_result \<circ> escape_result) (sort_key (search_key (o_query opts = [])) hits))"
  unfolding hits_def using assms(1-5) by (rule collect_pages_hits)

text \<open>A store with two lines of one day, 2 January 1970, and a search for that day.\<close>

definition example_engine :: fts_engine where
  "example_engine = \<lparr>fe_syntax = \<lambda>_. None, fe_match = \<lambda>_ _. True, fe_bm25 = \<lambda>_ _ _. float_zero,
     fe_snippet = \<lambda>_ l. l\<rparr>"

definition example_row :: log_row where
  "example_row = \<lparr>r_pod = ''web-0'', r_namespace = ''default'', r_container = ''app'',
     r_timestamp = ''1970-01-02T00:00:00Z'', r_level = ''ERROR'', r_line = ''a<b''\<rparr>"

definition example_store :: store where
  "example_store = \<lparr>data_dir = ''/data'',
     files = [(shard_name (fmt_day 719163), Shard_file (Fts_table [(1, example_row), (2, example_row)]))],
     dbs = {}\<rparr>"

definition example_search :: "string \<Rightarrow> search_options" where
  "example_search q = \<lparr>o_query = q, o_start = midnight 719163, o_end = midnight 719163, o_limit = 1,
     o_cursor = '''', o_min_level = '''', o_pod = ''''\<rparr>"


lemma example_in_years: "in_years 719163"
  by (simp add: in_years_def year_of_def)

lemma example_table:
  "table_of example_store d =
     (if d = fmt_day 719163 then Some (Fts_table [(1, example_row), (2, example_row)]) else None)"
  by (simp add: table_of_def example_store_def)

lemma example_store_inv: "store_inv example_store" "rowids_fit example_store"
  by (auto simp: store_inv_def example_table numbered_def rowids_fit_def table_rows_def)
    (simp_all add: example_store_def)

lemma example_stat: "stat_ok no_faults example_store (fmt_day 719163)"
  by (simp add: stat_ok_def no_faults_def example_store_def)

lemma example_dates:
  "searched_dates no_faults (example_search q) example_store = [fmt_day 719163]"
  using example_stat
  by (simp add: searched_dates_def existing_shard_dates_def stat_dates_upto example_search_def
      last_day_def max_attached_shards_def)

lemma example_searchable: "searchable example_engine (example_search q) example_store"
  using example_in_years
  by (simp add: searchable_def example_dates current_shard_def example_table example_engine_def)
    (simp add: range_in_years_def example_search_def last_day_def)

lemma example_engine_ok: "engine_ok example_engine"
  by (simp add: engine_ok_def example_engine_def float_zero_def float_wf_def is_nan_def)

lemma example_hits:
  "length (matching_hits example_engine (example_search q) example_store [fmt_day 719163]) = 2"
proof -
  have "conditions_ok (example_search q) r" for r
    by (simp add: conditions_ok_def example_search_def levels_at_or_above_def severity_of_cases)
  then show ?thesis
    by (simp add: matching_hits_def table_rows_def example_table shard_select_def example_engine_def Let_def)
qed

lemma search_pages_complete_witness:
  "\<exists>rs. collect_pages example_engine (\<lambda>_. None) no_faults 3 (example_search ''a'') example_store
     = Inr rs \<and> length rs = 2"
proof -
  have "o_cursor (example_search ''a'') = ''''" by (simp add: example_search_def)
  note all = search_pages_complete [OF example_searchable example_engine_ok example_store_inv this,
      of "\<lambda>_. None", THEN conjunct2, unfolded example_dates example_hits]
  then show ?thesis using example_hits [of "''a''"]
    by (simp add: numeral_3_eq_3 numeral_2_eq_2 del: collect_pages.simps)
qed


text \<open>What a successful search returns, whatever failed on the way.\<close>

lemma scan_rows_Inr: "scan_rows flt i rows = Inr raw \<Longrightarrow> raw = map escape_result rows"
  by (induction rows arbitrary: i raw) (auto split: option.splits sum.splits)

lemma run_query_Inr:
  assumes "run_query eng flt opts s attached limit cursor = Inr rows"
  shows "(\<forall>d \<in> set attached. current_shard s d)
    \<and> rows = query_rows (search_key (o_query opts = [])) (after_cursor (o_query opts = [])) (Suc limit)
        (matching_hits eng opts s attached) cursor"
  using assms by (auto simp: run_query_def Let_def select_shards_Inr split: option.splits sum.splits)

lemma search_Inr:
  assumes "search eng other flt ctx_err opts s = Inr page"
  shows "page = empty_page \<or>
    (\<exists>cursor. ctx_err = None \<and> (\<forall>d \<in> set (attach_shards flt s (searched_dates flt opts s)). current_shard s d)
      \<and> page = make_page (o_query opts = []) (page_limit opts)
          (map escape_result (query_rows (search_key (o_query opts = []))
             (after_cursor (o_query opts = [])) (Suc (page_limit opts))
             (matching_hits eng opts s (attach_shards flt s (searched_dates flt opts s))) cursor)))"
proof -
  obtain dates capped where e:
    "existing_shard_dates flt s (o_start opts) (o_end opts) = (dates, capped)" by fastforce
  then have d: "searched_dates flt opts s = dates" by (simp add: searched_dates_def)
  have "page = empty_page \<or> (\<exists>cursor rows raw. ctx_err = None
      \<and> run_query eng flt opts s (attach_shards flt s dates) (page_limit opts) cursor = Inr rows
      \<and> scan_rows flt 0 rows = Inr raw
      \<and> page = make_page (o_query opts = []) (page_limit opts) raw)"
    using assms by (auto simp: search_def e Let_def split: option.splits sum.splits if_splits)
  then show ?thesis
    unfolding d by (auto dest!: run_query_Inr scan_rows_Inr)
qed

lemma attach_subset: "set (attach_shards flt s dates) \<subseteq> set dates"
  by (auto simp: attach_shards_def)

lemma matching_hits_row:
  assumes "r \<in> set (matching_hits eng opts s dates)"
  obtains d n row where "d \<in> set dates" "(n, row) \<in> set (table_rows s d)" "conditions_ok opts row"
    "o_query opts = [] \<and> r = raw_of (shard_alias d) r_line (\<lambda>_. float_zero) (n, row)
     \<or> o_query opts \<noteq> [] \<and> fe_match eng (sanitize_match_query (o_query opts)) (r_line row)
       \<and> r = raw_of (shard_alias d)
               (\<lambda>row. fe_snippet eng (sanitize_match_query (o_query opts)) (r_line row))
               (fe_bm25 eng (sanitize_match_query (o_query opts)) (table_rows s d)) (n, row)"
  using assms by (auto simp: matching_hits_def shard_select_def Let_def split: if_splits)

lemma conditions_ok_iff:
  "conditions_ok opts row \<longleftrightarrow>
     (o_pod opts = [] \<or> r_pod row = o_pod opts)
     \<and> (snd (levels_at_or_above (o_min_level opts)) \<longrightarrow>
          r_level row \<in> set (fst (levels_at_or_above (o_min_level opts))))"
  by (auto simp: conditions_ok_def Let_def split: prod.split)

text \<open>The specification of one result: it shows a row that passes the filters and the query.\<close>

definition result_of_row :: "fts_engine \<Rightarrow> search_options \<Rightarrow> log_row \<Rightarrow> search_result \<Rightarrow> bool" where
  "result_of_row eng opts row r \<longleftrightarrow>
      sr_pod r = r_pod row \<and> sr_namespace r = r_namespace row
      \<and> sr_container r = r_container row \<and> sr_timestamp r = r_timestamp row
      \<and> sr_level r = r_level row
      \<and> (o_pod opts = '''' \<or> r_pod row = o_pod opts)
      \<and> (snd (levels_at_or_above (o_min_level opts)) \<longrightarrow>
           r_level row \<in> set (fst (levels_at_or_above (o_min_level opts))))
      \<and> (if o_query opts = '''' then sr_snippet r = escape_snippet (r_line row)
         else fe_match eng (sanitize_match_query (o_query opts)) (r_line row)
           \<and> sr_snippet r = escape_snippet
                (fe_snippet eng (sanitize_match_query (o_query opts)) (r_line row)))"

lemma search_results_sound:
  assumes "search eng other flt ctx_err opts s = Inr page"
  shows "length (p_results page) \<le> page_limit opts \<and> page_limit opts \<le> 500
    \<and> (p_next_cursor page \<noteq> '''' \<longrightarrow> length (p_results page) = page_limit opts)
    \<and> (\<forall>r \<in> set (p_results page). \<exists>d \<in> set (searched_dates flt opts s).
         \<exists>(n, row) \<in> set (table_rows s d).
           result_of_row eng opts row r)"
proof (cases "page = empty_page")
  case True
  then show ?thesis by (simp add: empty_page_def page_limit_bounds)
next
  case False
  let ?b = "o_query opts = []" and ?n = "page_limit opts"
  let ?hits = "matching_hits eng opts s (attach_shards flt s (searched_dates flt opts s))"
  obtain cursor where page: "page = make_page ?b ?n (map escape_result
      (query_rows (search_key ?b) (after_cursor ?b) (Suc ?n) ?hits cursor))"
    using search_Inr [OF assms] False by blast
  let ?q = "query_rows (search_key ?b) (after_cursor ?b) (Suc ?n) ?hits cursor"
  have len: "length (p_results page) \<le> ?n"
    and full: "p_next_cursor page \<noteq> '''' \<longrightarrow> length (p_results page) = ?n"
    by (auto simp: page make_page_def split: if_splits)
  have rows: "\<exists>d \<in> set (searched_dates flt opts s).
         \<exists>(n, row) \<in> set (table_rows s d).
           result_of_row eng opts row r"
    if r: "r \<in> set (p_results page)" for r
  proof -
    obtain raw where raw: "raw \<in> set ?q" "r = rr_result (escape_result raw)"
      using r by (auto simp: page make_page_def dest!: in_set_takeD)
    from subsetD [OF query_rows_subset raw(1)] have "raw \<in> set ?hits" .
    then obtain d n row where d: "d \<in> set (attach_shards flt s (searched_dates flt opts s))"
      and row: "(n, row) \<in> set (table_rows s d)" "conditions_ok opts row"
      and m: "?b \<and> raw = raw_of (shard_alias d) r_line (\<lambda>_. float_zero) (n, row)
       \<or> \<not> ?b \<and> fe_match eng (sanitize_match_query (o_query opts)) (r_line row)
       \<and> raw = raw_of (shard_alias d)
               (\<lambda>row. fe_snippet eng (sanitize_match_query (o_query opts)) (r_line row))
               (fe_bm25 eng (sanitize_match_query (o_query opts)) (table_rows s d)) (n, row)"
      by (rule matching_hits_row)
    show ?thesis
      using attach_subset d row m raw(2)
      by (intro bexI [of _ d] bexI [of _ "(n, row)"])
        (auto simp: result_of_row_def conditions_ok_iff raw_of_def escape_result_def)
  qed
  show ?thesis using len full rows page_limit_bounds(2) [of opts] by blast
qed

text \<open>
  C15: whatever calls fail, a search that returns a page returns at most \<open>limit\<close> (never more than
  500) results, and each of them is a stored row of a searched shard that passes the pod filter,
  the level filter and the keyword query, with its fields unchanged and its text escaped; a page
  with a next cursor is full.
\<close>

theorem search_results_match:
  assumes "search eng other flt ctx_err opts s = Inr page"
  shows "length (p_results page) \<le> page_limit opts \<and> page_limit opts \<le> 500
    \<and> (p_next_cursor page \<noteq> '''' \<longrightarrow> length (p_results page) = page_limit opts)
    \<and> (\<forall>r \<in> set (p_results page). \<exists>d \<in> set (searched_dates flt opts s).
         \<exists>(n, row) \<in> set (table_rows s d).
           result_of_row eng opts row r)"
  using assms by (rule search_results_sound)

lemma search_results_match_witness:
  "\<exists>page. search example_engine (\<lambda>_. None) no_faults None (example_search ''a'') example_store = Inr page
    \<and> length (p_results page) = 1
    \<and> (\<forall>r \<in> set (p_results page). sr_snippet r = escape_snippet ''a<b'')"
proof -
  have same: "(example_search ''a'')\<lparr>o_cursor := ''''\<rparr> = example_search ''a''"
    by (simp add: example_search_def)
  obtain page where p: "search example_engine (\<lambda>_. None) no_faults None (example_search ''a'')
      example_store = Inr page" and len: "length (p_results page) = 1"
    using search_no_faults [OF example_searchable, of "''''" "\<lambda>_. None" None "''a''"] example_hits [of "''a''"]
    unfolding same
    by (simp add: example_dates make_page_def query_rows_def select_page_def page_limit_def)
      (simp add: example_search_def)
  have "sr_snippet r = escape_snippet ''a<b''" if r: "r \<in> set (p_results page)" for r
  proof -
    obtain d n row where "(n, row) \<in> set (table_rows example_store d)"
      "result_of_row example_engine (example_search ''a'') row r"
      using search_results_match [OF p] r by blast
    then show ?thesis
      by (auto simp: table_rows_def example_table result_of_row_def example_search_def
          example_engine_def example_row_def split: if_splits)
  qed
  with p len show ?thesis by blast
qed

text \<open>The browse order, as a listing.\<close>

lemma sorted_browse_keys:
  assumes "sorted_wrt (\<lambda>a b. shard_alias a < shard_alias b) dates" "store_inv s" "o_query opts = []"
  shows "sorted_wrt (\<lambda>x y. search_key True y < search_key True x) (matching_hits eng opts s dates)"
  using assms(1)
proof (induction dates)
  case (Cons d dates)
  let ?here = "shard_select eng opts d (table_rows s d)"
  have "sorted_wrt (\<lambda>x y. fst x < fst y) (table_rows s d)"
    using table_rows_numbered [OF assms(2), of d]
    by (simp add: numbered_def sorted_wrt_map [symmetric] del: upt_Suc)
      (simp add: sorted_wrt_map del: upt_Suc)
  then have "sorted_wrt (\<lambda>x y. search_key True y < search_key True x) ?here"
    using assms(3) by (auto simp: shard_select_def sorted_wrt_map search_key_def Let_def
        intro: sorted_wrt_mono_rel sorted_wrt_filter)
  moreover have "search_key True y < search_key True x"
    if x: "x \<in> set ?here" and y: "y \<in> set (matching_hits eng opts s dates)" for x y
  proof -
    obtain d' where "d' \<in> set dates" "rr_shard y = shard_alias d'"
      using y by (auto simp: matching_hits_def dest: shard_select_shard)
    moreover have "rr_shard x = shard_alias d" using x by (rule shard_select_shard)
    ultimately show ?thesis using Cons.prems by (simp add: search_key_def)
  qed
  moreover have "matching_hits eng opts s (d # dates) = ?here @ matching_hits eng opts s dates"
    by (simp add: matching_hits_def)
  ultimately show ?case using Cons by (simp add: sorted_wrt_append)
qed (simp add: matching_hits_def)


text \<open>A row as browse mode shows it.\<close>

definition browse_result :: "log_row \<Rightarrow> search_result" where
  "browse_result row =
     \<lparr>sr_pod = r_pod row, sr_namespace = r_namespace row, sr_container = r_container row,
      sr_timestamp = r_timestamp row, sr_level = r_level row,
      sr_snippet = escape_snippet (r_line row), sr_rank = float_zero\<rparr>"

definition browse_listing :: "search_options \<Rightarrow> store \<Rightarrow> string list \<Rightarrow> log_row list" where
  "browse_listing opts s dates =
     concat (map (\<lambda>d. filter (conditions_ok opts) (shard_rows s d)) dates)"

lemma shard_rows_table_rows: "shard_rows s d = map snd (table_rows s d)"
  by (simp add: shard_rows_def table_rows_def split: option.split fts_table.split)

lemma browse_hits_listing:
  assumes "o_query opts = []"
  shows "map (rr_result \<circ> escape_result) (matching_hits eng opts s dates) =
    map browse_result (browse_listing opts s dates)"
proof -
  have "map (rr_result \<circ> escape_result) (shard_select eng opts d rows) =
      map browse_result (filter (conditions_ok opts) (map snd rows))" for d rows
    using assms by (simp add: shard_select_def Let_def filter_map o_def raw_of_def escape_result_def
        browse_result_def split_beta)
  then show ?thesis
    by (simp add: matching_hits_def browse_listing_def map_concat o_def shard_rows_table_rows)
qed

lemma browse_sorted:
  assumes "range_in_years (o_start opts) (o_end opts)" "store_inv s" "o_query opts = []"
    and hits_def: "hits = matching_hits eng opts s (searched_dates flt opts s)"
  shows "sort_key (search_key True) hits = rev hits"
proof -
  let ?dates = "searched_dates flt opts s"
  have "sorted_wrt (<) ?dates"
    using existing_dates_sorted [OF assms(1)] by (simp add: searched_dates_def)
  then have "sorted_wrt (\<lambda>a b. shard_alias a < shard_alias b) ?dates"
  proof (rule sorted_wrt_mono_rel [rotated])
    fix a b assume "a \<in> set ?dates" "b \<in> set ?dates" and ab: "a < b"
    then obtain m n where "a = fmt_day m" "in_years m" "b = fmt_day n" "in_years n"
      using existing_dates_day assms(1) unfolding searched_dates_def by metis
    with ab show "shard_alias a < shard_alias b" by (simp add: shard_alias_less_iff)
  qed
  note sorted = sorted_browse_keys [OF this assms(2,3), of eng, folded hits_def]
  have "inj_on (search_key True) (set hits)"
    unfolding hits_def using dates_distinct_aliases [OF assms(1)] assms(2)
    by (auto simp: searched_dates_def intro!: matching_hits_keys)
  moreover have "sorted_wrt (\<lambda>x y. search_key True x \<le> search_key True y) (rev hits)"
    unfolding sorted_wrt_rev by (rule sorted_wrt_mono_rel [OF _ sorted]) (rule less_imp_le)
  then have "sorted (map (search_key True) (rev hits))" by (simp only: sorted_wrt_map)
  ultimately show ?thesis by (intro sort_key_inj_key_eq) simp_all
qed

text \<open>
  C22: browse mode shows the most recent lines first: without a failure, the first page is the
  beginning of the reversed listing of the searched shards (the days from oldest to newest, the rows
  of a day in the order they were stored), restricted to the rows that pass the filters.
\<close>

theorem browse_newest_first:
  assumes "searchable eng opts s" "store_inv s" "o_query opts = ''''" "o_cursor opts = ''''"
  shows "\<exists>page. search eng other no_faults None opts s = Inr page
    \<and> p_results page = map browse_result
        (take (page_limit opts) (rev (browse_listing opts s (searched_dates no_faults opts s))))"
proof -
  let ?hits = "matching_hits eng opts s (searched_dates no_faults opts s)"
  have r: "range_in_years (o_start opts) (o_end opts)" using assms(1) by (simp add: searchable_def)
  have same: "opts\<lparr>o_cursor := ''''\<rparr> = opts" using assms(4) by simp
  have "map (rr_result \<circ> escape_result) (take (page_limit opts) (rev ?hits)) = map browse_result
      (take (page_limit opts) (rev (browse_listing opts s (searched_dates no_faults opts s))))"
    by (simp only: take_map [symmetric] rev_map [symmetric] browse_hits_listing [OF assms(3)])
  then show ?thesis
    using search_no_faults [OF assms(1), of "''''" other None] assms(3)
      browse_sorted [OF r assms(2,3) refl, of eng no_faults]
    unfolding same
    by (simp add: make_page_def query_rows_def select_page_def o_def take_map min_def)
qed

lemma browse_newest_first_witness:
  "\<exists>page. search example_engine (\<lambda>_. None) no_faults None (example_search '''') example_store = Inr page
     \<and> p_results page = [browse_result example_row]"
proof -
  have "conditions_ok (example_search '''') r" for r
    by (simp add: conditions_ok_def example_search_def levels_at_or_above_def severity_of_cases)
  then show ?thesis
    using browse_newest_first [OF example_searchable example_store_inv(1), of "''''" "\<lambda>_. None"]
    by (simp add: example_dates browse_listing_def shard_rows_def example_table)
      (simp add: example_search_def page_limit_def)
qed


text \<open>
  C23: a search reads the most recent shards: the dates it attaches are in the range, have a file,
  are in ascending order and at most ten; a date of the range with a file is left out only when
  there are more than ten, and then every attached date is later than it.
\<close>

theorem searched_dates_most_recent:
  assumes "range_in_years start_t end_t"
    and "existing_shard_dates flt s start_t end_t = (dates, capped)"
  shows "sorted_wrt (<) dates \<and> length dates \<le> max_attached_shards
    \<and> (\<forall>date \<in> set dates. stat_ok flt s date
         \<and> date \<in> fmt_day ` {day_of start_t..last_day start_t end_t})
    \<and> (\<forall>n \<in> {day_of start_t..last_day start_t end_t}. stat_ok flt s (fmt_day n) \<longrightarrow>
         fmt_day n \<in> set dates
         \<or> capped \<and> length dates = max_attached_shards \<and> (\<forall>date \<in> set dates. fmt_day n < date))"
proof -
  let ?all = "stat_dates flt s start_t end_t"
  define k where "k = length ?all - max_attached_shards"
  have dates: "dates = drop k ?all" and capped: "capped \<longleftrightarrow> max_attached_shards < length ?all"
    using assms(2) by (auto simp: existing_shard_dates_def Let_def k_def split: if_splits)
  have all: "set ?all = {date \<in> fmt_day ` {day_of start_t..last_day start_t end_t}. stat_ok flt s date}"
    by (auto simp: stat_dates_upto)
  have split: "sorted_wrt (<) (take k ?all @ dates)"
    using stat_dates_sorted [OF assms(1), of flt s] by (simp add: dates)
  have "date \<in> set ?all" if "date \<in> set dates" for date
    using that by (auto simp: dates dest: in_set_dropD)
  moreover have "date \<in> set dates \<or> capped \<and> length dates = max_attached_shards
      \<and> (\<forall>e \<in> set dates. date < e)" if date: "date \<in> set ?all" for date
  proof (cases "date \<in> set dates")
    case False
    moreover have "set ?all = set (take k ?all) \<union> set dates"
      by (metis append_take_drop_id dates set_append)
    ultimately have t: "date \<in> set (take k ?all)" using date by blast
    then have "k \<noteq> 0" by (cases k) auto
    then have c: "capped" "length dates = max_attached_shards" by (auto simp: capped k_def dates)
    have "date < e" if "e \<in> set dates" for e
      using split t that unfolding sorted_wrt_append by blast
    with c show ?thesis by blast
  qed simp
  ultimately show ?thesis
    using split unfolding all by (auto simp: sorted_wrt_append dates k_def)
qed

lemma searched_dates_most_recent_witness:
  "existing_shard_dates no_faults example_store (midnight 719163) (midnight 719163)
     = ([fmt_day 719163], False)
   \<and> length [fmt_day 719163] \<le> max_attached_shards"
proof -
  have e: "existing_shard_dates no_faults example_store (midnight 719163) (midnight 719163)
      = ([fmt_day 719163], False)"
    using example_stat
    by (simp add: existing_shard_dates_def stat_dates_upto last_day_def max_attached_shards_def)
  have "range_in_years (midnight 719163) (midnight 719163)"
    using example_in_years by (simp add: range_in_years_def last_day_def)
  from searched_dates_most_recent [OF this e] e show ?thesis by blast
qed

text \<open>
  A shard that the search can attach but that is not of the current schema (a shard from before
  v0.3.0 that was never written since) makes every search over its day fail, it is never shown as
  having no matches.
\<close>

theorem search_legacy_shard_fails:
  assumes "d \<in> set (searched_dates flt opts s)" "flt (Attach d) = None"
    and "table_of s d = Some t" "\<And>rows. t \<noteq> Fts_table rows"
  shows "\<exists>e. search eng other flt ctx_err opts s = Inl e"
proof -
  obtain dates capped where e:
    "existing_shard_dates flt s (o_start opts) (o_end opts) = (dates, capped)" by fastforce
  then have d: "d \<in> set (attach_shards flt s dates)"
    using assms by (simp add: searched_dates_def attach_shards_def)
  then have ne: "attach_shards flt s dates \<noteq> []" by (metis empty_iff list.set(1))
  then have ne': "dates \<noteq> []" by (auto simp: attach_shards_def)
  have "run_query eng flt opts s (attach_shards flt s dates) limit cursor \<noteq> Inr rows" for limit cursor rows
    using run_query_Inr d assms(3,4) by (fastforce simp: current_shard_def)
  then have q: "\<exists>e. run_query eng flt opts s (attach_shards flt s dates) limit cursor = Inl e"
    for limit cursor by (metis old.sum.exhaust)
  show ?thesis
  proof (cases "search eng other flt ctx_err opts s")
    case (Inr page)
    then have False
      using q ne ne' by (auto simp: search_def e Let_def split: option.splits if_splits sum.splits)
        (metis sum.distinct(1))+
    then show ?thesis ..
  qed simp
qed


definition legacy_store :: store where
  "legacy_store = \<lparr>data_dir = ''/data'',
     files = [(shard_name (fmt_day 719163), Shard_file (Legacy_table [(1, example_row)]))], dbs = {}\<rparr>"

lemma legacy_table:
  "table_of legacy_store d = (if d = fmt_day 719163 then Some (Legacy_table [(1, example_row)]) else None)"
  by (simp add: table_of_def legacy_store_def)

lemma legacy_dates: "searched_dates no_faults (example_search q) legacy_store = [fmt_day 719163]"
proof -
  have "stat_ok no_faults legacy_store (fmt_day 719163)"
    by (simp add: stat_ok_def no_faults_def legacy_store_def)
  then show ?thesis
    by (simp add: searched_dates_def existing_shard_dates_def stat_dates_upto example_search_def
        last_day_def max_attached_shards_def)
qed

lemma search_legacy_shard_fails_witness:
  "\<exists>e. search example_engine (\<lambda>_. None) no_faults None (example_search '''') legacy_store = Inl e"
proof (rule search_legacy_shard_fails)
  show "fmt_day 719163 \<in> set (searched_dates no_faults (example_search '''') legacy_store)"
    by (simp add: legacy_dates)
  show "table_of legacy_store (fmt_day 719163) = Some (Legacy_table [(1, example_row)])"
    by (simp add: legacy_table)
qed simp_all

end
