(* ===== verification/Known.thy ===== *)
theory Known
  imports Main Prelude Go_Strings Go_Time Go_Time_Text Store Paging Search
begin

text \<open>
  The two lookups of \<open>internal/storage/sqlite.go\<close> besides the search: \<open>KnownPods\<close>, which fills the
  filter lists of the page, and \<open>LastSeen\<close>, which tells the tailer where to resume.
\<close>

section \<open>KnownPods\<close>

record known_filters =
  kf_pods :: "string list"
  kf_containers :: "string list"

definition no_filters :: known_filters where
  "no_filters = \<lparr>kf_pods = [], kf_containers = []\<rparr>"

text \<open>\<open>SELECT DISTINCT pod, container FROM d.fts\<close>, which a legacy table answers too; \<open>UNION\<close>.\<close>

fun select_known :: "store \<Rightarrow> string list \<Rightarrow> (string \<times> string) list result" where
  "select_known s [] = Inr []"
| "select_known s (date # dates) =
     (case table_of s date of
        Some (Fts_table rows) \<Rightarrow>
          map_sum id (\<lambda>rest. map (\<lambda>(n, r). (r_pod r, r_container r)) rows @ rest) (select_known s dates)
      | Some (Legacy_table rows) \<Rightarrow>
          map_sum id (\<lambda>rest. map (\<lambda>(n, r). (r_pod r, r_container r)) rows @ rest) (select_known s dates)
      | _ \<Rightarrow> Inl ''no such table: fts'')"

text \<open>The loop over the rows: the sets \<open>pods\<close> and \<open>containers\<close>, as lists without duplicates.\<close>

fun scan_known ::
  "faults \<Rightarrow> nat \<Rightarrow> (string \<times> string) list \<Rightarrow> string list \<Rightarrow> string list
   \<Rightarrow> (string list \<times> string list) result" where
  "scan_known flt i [] pods containers =
     (case flt Rows_err of Some e \<Rightarrow> Inl e | None \<Rightarrow> Inr (pods, containers))"
| "scan_known flt i ((pod, container) # rs) pods containers =
     (case flt (Scan_row i) of
        Some e \<Rightarrow> Inl (''scan known-pods row: '' @ e)
      | None \<Rightarrow> scan_known flt (Suc i) rs (List.insert pod pods) (List.insert container containers))"

definition known_pods :: "faults \<Rightarrow> go_time \<Rightarrow> go_time \<Rightarrow> store \<Rightarrow> known_filters result" where
  "known_pods flt now since s =
     (let (dates, capped) = existing_shard_dates flt s since now
      in if dates = [] then Inr no_filters
         else
           (case flt Open_memory of
              Some e \<Rightarrow> Inl (''open known-pods connection: '' @ e)
            | None \<Rightarrow>
                (let attached = attach_shards flt s dates
                 in if attached = [] then Inr no_filters
                    else
                      (case flt Query_rows of
                         Some e \<Rightarrow> Inl (''known-pods query: '' @ e)
                       | None \<Rightarrow>
                           (case select_known s attached of
                              Inl e \<Rightarrow> Inl (''known-pods query: '' @ e)
                            | Inr rows \<Rightarrow>
                                (case scan_known flt 0 (remdups rows) [] [] of
                                   Inl e \<Rightarrow> Inl e
                                 | Inr (pods, containers) \<Rightarrow>
                                     Inr \<lparr>kf_pods = sort pods, kf_containers = sort containers\<rparr>))))))"

lemma scan_known_Inr:
  "scan_known flt i rows pods containers = Inr (ps, cs) \<Longrightarrow> distinct pods \<Longrightarrow> distinct containers \<Longrightarrow>
   distinct ps \<and> distinct cs \<and> set ps = set pods \<union> fst ` set rows
   \<and> set cs = set containers \<union> snd ` set rows"
proof (induction flt i rows pods containers rule: scan_known.induct)
  case (2 flt i pod container rs pods containers)
  then show ?case by (auto split: option.splits)
qed (auto split: option.splits)

text \<open>The rows of a date that KnownPods reads.\<close>

definition all_rows :: "store \<Rightarrow> string \<Rightarrow> log_row list" where
  "all_rows s d =
     (case table_of s d of
        Some (Fts_table rows) \<Rightarrow> map snd rows | Some (Legacy_table rows) \<Rightarrow> map snd rows | _ \<Rightarrow> [])"

lemma select_known_Inr:
  "select_known s dates = Inr rows \<Longrightarrow>
   rows = map (\<lambda>r. (r_pod r, r_container r)) (concat (map (all_rows s) dates))"
proof (induction dates arbitrary: rows)
  case (Cons d dates)
  then show ?case
    by (cases "select_known s dates")
      (auto simp: all_rows_def o_def split_beta split: option.splits fts_table.splits)
qed simp

text \<open>
  C40: \<open>KnownPods\<close> returns exactly the pod and container names that occur in the shards it attached
  (those of the days from \<open>since\<close> to today, at most the ten most recent), each once and in
  ascending order.
\<close>

theorem known_pods_sorted_names:
  assumes "known_pods flt now since s = Inr kf"
  defines "rows \<equiv> concat (map (all_rows s)
    (attach_shards flt s (fst (existing_shard_dates flt s since now))))"
  shows "sorted (kf_pods kf) \<and> distinct (kf_pods kf) \<and> set (kf_pods kf) = r_pod ` set rows
    \<and> sorted (kf_containers kf) \<and> distinct (kf_containers kf)
    \<and> set (kf_containers kf) = r_container ` set rows"
proof -
  obtain dates capped where e: "existing_shard_dates flt s since now = (dates, capped)" by fastforce
  let ?at = "attach_shards flt s dates"
  show ?thesis
  proof (cases "?at = []")
    case True
    with assms(1) have "kf = no_filters"
      by (auto simp: known_pods_def e Let_def split: if_splits option.splits)
    with True show ?thesis by (simp add: no_filters_def rows_def e)
  next
    case False
    then have "dates \<noteq> []" by (auto simp: attach_shards_def)
    with False assms(1) obtain known pods containers where
      k: "select_known s ?at = Inr known" "scan_known flt 0 (remdups known) [] [] = Inr (pods, containers)"
      "kf = \<lparr>kf_pods = sort pods, kf_containers = sort containers\<rparr>"
      by (auto simp: known_pods_def e Let_def split: option.splits sum.splits)
    have "distinct pods \<and> distinct containers \<and> set pods = fst ` set known \<and> set containers = snd ` set known"
      using scan_known_Inr [OF k(2)] by simp
    moreover have "fst ` set known = r_pod ` set rows" "snd ` set known = r_container ` set rows"
      unfolding select_known_Inr [OF k(1)] rows_def e fst_conv set_map image_image by simp_all
    ultimately show ?thesis by (simp add: k(3))
  qed
qed

lemma known_pods_sorted_names_witness:
  "\<exists>kf. known_pods no_faults (midnight 719163) (midnight 719163) example_store = Inr kf
     \<and> set (kf_pods kf) = {''web-0''}"
proof -
  have e: "existing_shard_dates no_faults example_store (midnight 719163) (midnight 719163)
      = ([fmt_day 719163], False)"
    using example_stat
    by (simp add: existing_shard_dates_def stat_dates_upto last_day_def max_attached_shards_def)
  have a: "attach_shards no_faults example_store [fmt_day 719163] = [fmt_day 719163]"
    by (simp add: attach_shards_def example_table)
  obtain kf where k: "known_pods no_faults (midnight 719163) (midnight 719163) example_store = Inr kf"
    by (simp add: known_pods_def e a example_table)
  show ?thesis
    using known_pods_sorted_names [OF k] k
    by (simp add: e a all_rows_def example_table) (simp add: example_row_def)
qed

section \<open>LastSeen\<close>

definition marker_lookback_days :: nat where
  "marker_lookback_days = 30"

text \<open>\<open>MAX\<close> over text, NULL when there is no row.\<close>

fun sql_max :: "string list \<Rightarrow> string option" where
  "sql_max [] = None"
| "sql_max (x # xs) = (case sql_max xs of None \<Rightarrow> Some x | Some y \<Rightarrow> Some (max x y))"

definition pod_rows :: "string \<Rightarrow> string \<Rightarrow> log_row list \<Rightarrow> log_row list" where
  "pod_rows pod container rows = filter (\<lambda>r. r_pod r = pod \<and> r_container r = container) rows"

text \<open>The result \<open>(t, ok)\<close> without an error is \<open>Some t\<close> or \<open>None\<close>.\<close>

definition last_seen_in_shard ::
  "faults \<Rightarrow> string \<Rightarrow> string \<Rightarrow> string \<Rightarrow> store \<Rightarrow> go_time option result" where
  "last_seen_in_shard flt date pod container s =
     (case flt (Open_shard date) of
        Some e \<Rightarrow> Inl (''open '' @ db_path s date @ '': '' @ e)
      | None \<Rightarrow>
          (case flt (Query_max date) of
             Some e \<Rightarrow> Inl (''query last-seen in '' @ db_path s date @ '': '' @ e)
           | None \<Rightarrow>
               (case table_of s date of
                  None \<Rightarrow> Inl (''query last-seen in '' @ db_path s date @ '': unable to open database file'')
                | Some No_table \<Rightarrow> Inl (''query last-seen in '' @ db_path s date @ '': no such table: fts'')
                | Some t \<Rightarrow>
                    (case sql_max (map r_timestamp (pod_rows pod container (all_rows s date))) of
                       None \<Rightarrow> Inr None
                     | Some raw \<Rightarrow>
                         (case parse_rfc3339nano raw of
                            None \<Rightarrow> Inl (''parse timestamp in '' @ db_path s date)
                          | Some ts \<Rightarrow> Inr (Some ts))))))"

text \<open>The loop over the days \<open>today - i\<close>.\<close>

fun scan_days ::
  "faults \<Rightarrow> go_time \<Rightarrow> string \<Rightarrow> string \<Rightarrow> store \<Rightarrow> nat list \<Rightarrow> go_time option result" where
  "scan_days flt today pod container s [] = Inr None"
| "scan_days flt today pod container s (i # is) =
     (let date = format_date (add_days today (- int i))
      in if \<not> stat_ok flt s date then scan_days flt today pod container s is
         else
           (case last_seen_in_shard flt date pod container s of
              Inl e \<Rightarrow> Inl e
            | Inr (Some ts) \<Rightarrow> Inr (Some ts)
            | Inr None \<Rightarrow> scan_days flt today pod container s is))"

definition last_seen ::
  "faults \<Rightarrow> go_time \<Rightarrow> string \<Rightarrow> string \<Rightarrow> store \<Rightarrow> go_time option result" where
  "last_seen flt now pod container s = scan_days flt now pod container s [0..<marker_lookback_days]"


text \<open>
  The tailer stamps a line with \<open>time.Now()\<close>, in the process's local zone. Here that zone is UTC
  (a container without a \<open>TZ\<close> setting), the year is one of 0 to 9999, and the line is in the shard of
  its day, where \<open>InsertBatch\<close> puts it.
\<close>

definition utc_time :: "go_time \<Rightarrow> bool" where
  "utc_time t \<longleftrightarrow> in_years (day_of t) \<and> zone_off t = 0"

definition stamped :: "store \<Rightarrow> bool" where
  "stamped s \<longleftrightarrow> (\<forall>d. \<forall>r \<in> set (all_rows s d).
     \<exists>t. utc_time t \<and> r_timestamp r = format_rfc3339nano t \<and> format_date t = d)"

lemma utc_parse: "utc_time t \<Longrightarrow> parse_rfc3339nano (format_rfc3339nano t) = Some t"
  by (rule parse_format_rfc3339nano) (simp_all add: utc_time_def zone_ok_def)

lemma utc_format_inj: "utc_time a \<Longrightarrow> utc_time b \<Longrightarrow> format_rfc3339nano a = format_rfc3339nano b \<Longrightarrow> a = b"
  by (metis option.inject utc_parse)

lemma sql_max_None [simp]: "sql_max xs = None \<longleftrightarrow> xs = []"
  by (cases xs) (auto split: option.splits)

lemma sql_max_Some: "sql_max xs = Some m \<Longrightarrow> m \<in> set xs \<and> (\<forall>x \<in> set xs. x \<le> m)"
proof (induction xs arbitrary: m)
  case (Cons x xs)
  show ?case
  proof (cases "sql_max xs")
    case None
    with Cons.prems show ?thesis by simp
  next
    case (Some y)
    with Cons.prems have m: "m = max x y" by simp
    have "m = x \<or> m = y" unfolding m max_def by simp
    with Cons.IH [OF Some] show ?thesis by (auto simp: m le_max_iff_disj)
  qed
qed simp

lemma utc_seconds:
  assumes "utc_time a" "utc_time b" "format_rfc3339nano a \<le> format_rfc3339nano b"
  shows "wall_sec a \<le> wall_sec b"
  using stamp_order [of b a] assms by (auto simp: utc_time_def not_less [symmetric])

text \<open>What the lookup in one shard finds.\<close>

lemma last_seen_in_shard_Inr:
  assumes "last_seen_in_shard flt d pod container s = Inr res" "stamped s"
  shows "case res of
      None \<Rightarrow> pod_rows pod container (all_rows s d) = []
    | Some ts \<Rightarrow> utc_time ts \<and> format_date ts = d
        \<and> format_rfc3339nano ts \<in> r_timestamp ` set (pod_rows pod container (all_rows s d))
        \<and> (\<forall>r \<in> set (pod_rows pod container (all_rows s d)).
             r_timestamp r \<le> format_rfc3339nano ts)"
proof -
  let ?rows = "pod_rows pod container (all_rows s d)"
  have cases: "sql_max (map r_timestamp ?rows) = None \<and> res = None \<or>
      (\<exists>raw ts. sql_max (map r_timestamp ?rows) = Some raw \<and> parse_rfc3339nano raw = Some ts
         \<and> res = Some ts)"
    using assms(1) by (auto simp: last_seen_in_shard_def split: option.splits fts_table.splits)
  then show ?thesis
  proof
    assume "sql_max (map r_timestamp ?rows) = None \<and> res = None"
    then show ?thesis by simp
  next
    assume "\<exists>raw ts. sql_max (map r_timestamp ?rows) = Some raw \<and> parse_rfc3339nano raw = Some ts
         \<and> res = Some ts"
    then obtain raw ts where m: "sql_max (map r_timestamp ?rows) = Some raw"
      and p: "parse_rfc3339nano raw = Some ts" "res = Some ts" by blast
    from sql_max_Some [OF m] have "raw \<in> r_timestamp ` set ?rows"
      and le: "\<forall>r \<in> set ?rows. r_timestamp r \<le> raw" by auto
    then obtain r where r: "r \<in> set ?rows" "raw = r_timestamp r" by blast
    then have "r \<in> set (all_rows s d)" by (simp add: pod_rows_def)
    then obtain t where t: "utc_time t" "r_timestamp r = format_rfc3339nano t" "format_date t = d"
      using assms(2) unfolding stamped_def by blast
    with p r have "ts = t" by (simp add: utc_parse)
    with t r le p show ?thesis by (auto intro: image_eqI [of _ _ r])
  qed
qed

lemma table_stat: "all_rows s d \<noteq> [] \<Longrightarrow> stat_ok no_faults s d"
  by (auto simp: all_rows_def table_of_def stat_ok_def no_faults_def split: option.splits)

abbreviation day_rows :: "store \<Rightarrow> go_time \<Rightarrow> string \<Rightarrow> string \<Rightarrow> nat \<Rightarrow> log_row list" where
  "day_rows s now pod container i \<equiv>
     pod_rows pod container (all_rows s (format_date (add_days now (- int i))))"

lemma scan_days_Inr:
  "scan_days no_faults now pod container s is = Inr res \<Longrightarrow> stamped s \<Longrightarrow> sorted_wrt (<) is \<Longrightarrow>
   (case res of
      None \<Rightarrow> \<forall>i \<in> set is. day_rows s now pod container i = []
    | Some ts \<Rightarrow> \<exists>i \<in> set is. (\<forall>j \<in> set is. j < i \<longrightarrow> day_rows s now pod container j = [])
        \<and> last_seen_in_shard no_faults (format_date (add_days now (- int i))) pod container s = Inr (Some ts))"
proof (induction "is" arbitrary: res)
  case (Cons i "is")
  let ?date = "format_date (add_days now (- int i))"
  show ?case
  proof (cases "\<not> stat_ok no_faults s ?date
      \<or> last_seen_in_shard no_faults ?date pod container s = Inr None")
    case True
    then have none: "day_rows s now pod container i = []"
    proof
      assume "\<not> stat_ok no_faults s ?date"
      then have "all_rows s ?date = []" using table_stat by blast
      then show ?thesis by (simp add: pod_rows_def)
    next
      assume "last_seen_in_shard no_faults ?date pod container s = Inr None"
      from last_seen_in_shard_Inr [OF this Cons.prems(2)] show ?thesis by simp
    qed
    have "scan_days no_faults now pod container s is = Inr res"
      using True Cons.prems(1) by (auto simp: Let_def split: if_splits)
    with Cons have ih: "case res of
      None \<Rightarrow> \<forall>i \<in> set is. day_rows s now pod container i = []
    | Some ts \<Rightarrow> \<exists>i \<in> set is. (\<forall>j \<in> set is. j < i \<longrightarrow> day_rows s now pod container j = [])
        \<and> last_seen_in_shard no_faults (format_date (add_days now (- int i))) pod container s = Inr (Some ts)"
      by simp
    with none show ?thesis by (cases res) auto
  next
    case False
    then obtain ts where "res = Some ts"
      "last_seen_in_shard no_faults ?date pod container s = Inr (Some ts)"
      using Cons.prems(1) by (auto simp: Let_def split: sum.splits option.splits)
    with Cons.prems(3) show ?thesis by (auto intro!: bexI [of _ i])
  qed
qed simp

text \<open>The rows of a shard are of its day.\<close>

lemma stamped_day:
  assumes "stamped s" "r \<in> set (all_rows s d)" "utc_time t" "r_timestamp r = format_rfc3339nano t"
  shows "format_date t = d"
proof -
  obtain t' where t': "utc_time t'" "r_timestamp r = format_rfc3339nano t'" "format_date t' = d"
    using assms(1,2) unfolding stamped_def by blast
  with assms(3,4) have "t' = t" using utc_format_inj by simp
  with t'(3) show ?thesis by simp
qed

lemma earlier_day: "day_of a < day_of b \<Longrightarrow> wall_sec a \<le> wall_sec b"
  using clock_bounds(1) [of a] by (simp add: wall_sec_eq)

text \<open>
  C35: the marker is at the last second that was stored: with no failure, \<open>LastSeen\<close> returns the
  timestamp of a stored line of the pod's container, and no line of it in the 30 days looked at is of
  a later second; without a marker there is no such line. (\<open>MAX\<close> compares the timestamps as text,
  so within that second it can pick an earlier one.)
\<close>

theorem last_seen_within_second:
  assumes "last_seen no_faults now pod container s = Inr res" "stamped s"
    and "in_years (day_of now)" "in_years (day_of now - 29)"
  shows "case res of
      None \<Rightarrow> \<forall>i < marker_lookback_days. day_rows s now pod container i = []
    | Some ts \<Rightarrow>
        (\<exists>i < marker_lookback_days. format_rfc3339nano ts \<in> r_timestamp ` set (day_rows s now pod container i))
        \<and> (\<forall>i < marker_lookback_days. \<forall>r \<in> set (day_rows s now pod container i). \<forall>t.
             utc_time t \<and> r_timestamp r = format_rfc3339nano t \<longrightarrow> wall_sec t \<le> wall_sec ts)"
proof -
  have scan: "scan_days no_faults now pod container s [0..<marker_lookback_days] = Inr res"
    using assms(1) by (simp add: last_seen_def)
  have srt: "sorted_wrt (<) [0..<marker_lookback_days]" by (simp add: sorted_wrt_upt)
  note r = scan_days_Inr [OF scan assms(2) srt]
  show ?thesis
  proof (cases res)
    case None
    with r show ?thesis by simp
  next
    case (Some ts)
    with r obtain i where i: "i < marker_lookback_days"
      and before_i: "\<forall>j < i. day_rows s now pod container j = []"
      and hit: "last_seen_in_shard no_faults (format_date (add_days now (- int i))) pod container s = Inr (Some ts)"
      by fastforce
    note h = last_seen_in_shard_Inr [OF hit assms(2), simplified]
    have years: "in_years (day_of now - int j)" if "j < marker_lookback_days" for j
      using that in_years_between [OF assms(4,3), of "day_of now - int j"]
      by (simp add: marker_lookback_days_def)
    have "wall_sec t \<le> wall_sec ts"
      if j: "j < marker_lookback_days" and row: "r \<in> set (day_rows s now pod container j)"
        and t: "utc_time t" "r_timestamp r = format_rfc3339nano t" for j r t
    proof -
      consider "j < i" | "j = i" | "i < j" by linarith
      then show ?thesis
      proof cases
        case 1
        with before_i row show ?thesis by simp
      next
        case 2
        with h row t show ?thesis by (intro utc_seconds) auto
      next
        case 3
        have "format_date t = format_date (add_days now (- int j))"
          using row t by (intro stamped_day [OF assms(2)]) (simp_all add: pod_rows_def)
        then have "day_of t = day_of now - int j" "day_of ts = day_of now - int i"
          using t h years [OF j] years [OF i] fmt_day_inj
          by (auto simp: format_date_def utc_time_def)
        with 3 show ?thesis by (intro earlier_day) simp
      qed
    qed
    with Some i h show ?thesis by auto
  qed
qed

text \<open>
  The order of the stored texts is not the order of the times: within a second, a time without a
  fraction sorts after one with a fraction, as the byte \<open>Z\<close> is larger than the decimal point.
\<close>

lemma whole_second_sorts_last:
  assumes "zone_off a = 0" "zone_off b = 0" "wall_sec a = wall_sec b" "subsec a = 0" "subsec b \<noteq> 0"
  shows "format_rfc3339nano b < format_rfc3339nano a"
proof -
  have "day_of a * 86400 + int (clock_secs a) = day_of b * 86400 + int (clock_secs b)"
    using assms(3) by (simp only: wall_sec_eq)
  moreover from this have day: "day_of a = day_of b"
    using clock_bounds(1) [of a] clock_bounds(1) [of b] by linarith
  ultimately have same: "day_of a = day_of b" "clock_secs a = clock_secs b" by simp_all
  show ?thesis
    using assms same by (simp add: format_rfc3339nano_def format_date_def fmt_zone_def fmt_frac_def
        less_char_def less_append_same_length)
qed


text \<open>Two lines half a second apart; the marker is that of the first.\<close>

definition noon :: go_time where
  "noon = \<lparr>instant = 719163 * day_ns + 43200 * second_ns, zone_off = 0\<rparr>"

definition noon_half :: go_time where
  "noon_half = noon\<lparr>instant := instant noon + 500000000\<rparr>"

definition two_lines_store :: store where
  "two_lines_store = \<lparr>data_dir = ''/data'',
     files = [(shard_name (fmt_day 719163), Shard_file (Fts_table
       [(1, example_row\<lparr>r_timestamp := format_rfc3339nano noon\<rparr>),
        (2, example_row\<lparr>r_timestamp := format_rfc3339nano noon_half\<rparr>)]))], dbs = {}\<rparr>"

lemma noon_days: "day_of noon = 719163" "day_of noon_half = 719163" "utc_time noon" "utc_time noon_half"
  "subsec noon = 0" "subsec noon_half \<noteq> 0" "wall_sec noon = wall_sec noon_half"
  using example_in_years
  by (simp_all add: noon_half_def noon_def day_of_def wall_def day_ns_def second_ns_def utc_time_def
      subsec_def ns_of_day_def wall_sec_def)

lemma two_lines_rows:
  "all_rows two_lines_store d = (if d = fmt_day 719163
     then [example_row\<lparr>r_timestamp := format_rfc3339nano noon\<rparr>,
           example_row\<lparr>r_timestamp := format_rfc3339nano noon_half\<rparr>] else [])"
  by (simp add: all_rows_def table_of_def two_lines_store_def)

lemma two_lines_stamped: "stamped two_lines_store"
  using noon_days(1-4) by (fastforce simp: stamped_def two_lines_rows format_date_def split: if_splits)

lemma last_seen_picks_earlier:
  "last_seen no_faults noon_half ''web-0'' ''app'' two_lines_store = Inr (Some noon)"
  "instant noon < instant noon_half"
proof -
  have less: "format_rfc3339nano noon_half < format_rfc3339nano noon"
    using noon_days by (intro whole_second_sorts_last) (simp_all add: noon_half_def noon_def)
  have rows: "sql_max (map r_timestamp (pod_rows ''web-0'' ''app'' (all_rows two_lines_store (fmt_day 719163))))
      = Some (format_rfc3339nano noon)"
    using less [folded not_le] by (simp add: two_lines_rows pod_rows_def example_row_def max_def)
  have stat: "stat_ok no_faults two_lines_store (fmt_day 719163)"
    by (intro table_stat) (simp add: two_lines_rows)
  obtain t where "table_of two_lines_store (fmt_day 719163) = Some (Fts_table t)"
    by (simp add: table_of_def two_lines_store_def)
  then have hit: "last_seen_in_shard no_faults (fmt_day 719163) ''web-0'' ''app'' two_lines_store
      = Inr (Some noon)"
    using rows noon_days(3)
    by (simp add: last_seen_in_shard_def no_faults_def [of "Open_shard d" for d]
        no_faults_def [of "Query_max d" for d] utc_parse)
  have "[0..<marker_lookback_days] = 0 # [1..<marker_lookback_days]"
    by (simp add: marker_lookback_days_def upt_rec)
  then show "last_seen no_faults noon_half ''web-0'' ''app'' two_lines_store = Inr (Some noon)"
    using hit stat noon_days by (simp add: last_seen_def format_date_def Let_def)
  show "instant noon < instant noon_half" by (simp add: noon_half_def)
qed

lemma last_seen_within_second_witness:
  "utc_time noon_half \<and> wall_sec noon_half \<le> wall_sec noon"
proof -
  have "in_years 719134" by (simp add: in_years_def year_of_def)
  then have y: "in_years (day_of noon_half)" "in_years (day_of noon_half - 29)"
    using example_in_years by (simp_all add: noon_days(2))
  have day: "format_date (add_days noon_half (- int 0)) = fmt_day 719163"
    using noon_days(2) by (simp add: add_days_eq format_date_def)
  let ?row = "example_row\<lparr>r_timestamp := format_rfc3339nano noon_half\<rparr>"
  have row: "?row \<in> set (day_rows two_lines_store noon_half ''web-0'' ''app'' 0)"
    unfolding day by (simp add: two_lines_rows pod_rows_def) (simp add: example_row_def)
  have "0 < marker_lookback_days" by (simp add: marker_lookback_days_def)
  with last_seen_within_second [OF last_seen_picks_earlier(1) two_lines_stamped y] row
  have "\<forall>t. utc_time t \<and> r_timestamp ?row = format_rfc3339nano t \<longrightarrow> wall_sec t \<le> wall_sec noon"
    unfolding option.case by blast
  then show ?thesis using noon_days(4) by simp
qed

end
