(* ===== verification/Retention.thy ===== *)
theory Retention
  imports Main Prelude Go_Strings Go_Time Go_Time_Text Store
begin

text \<open>
  Retention of \<open>internal/storage/sqlite.go\<close>: \<open>CleanupOldDBs\<close> with \<open>closeShard\<close> and \<open>vacuumShard\<close>,
  the nightly cron, and \<open>Close\<close>.
\<close>

section \<open>closeShard, vacuumShard and Close\<close>

definition close_shard :: "string \<Rightarrow> store \<Rightarrow> store" where
  "close_shard date s = s\<lparr>dbs := dbs s - {date}\<rparr>"

text \<open>
  The statement is \<open>PRAGMA vacuum\<close>. SQLite has no pragma of that name, and it ignores a pragma
  that it does not know: besides a failure of the call itself, the statement does nothing.
\<close>

definition vacuum_shard :: "faults \<Rightarrow> string \<Rightarrow> store \<Rightarrow> store \<times> unit result" where
  "vacuum_shard flt date s =
     (case get_or_open_db flt date s of
        (s1, Inl e) \<Rightarrow> (s1, Inl e)
      | (s1, Inr _) \<Rightarrow> (case flt (Vacuum date) of Some e \<Rightarrow> (s1, Inl e) | None \<Rightarrow> (s1, Inr ())))"

definition store_close :: "store \<Rightarrow> store" where
  "store_close s = s\<lparr>dbs := {}\<rparr>"

section \<open>CleanupOldDBs\<close>

text \<open>\<open>os.ReadDir\<close> lists the directory in the order of the names.\<close>

definition read_dir :: "store \<Rightarrow> (string \<times> dir_entry) list" where
  "read_dir s = sort_key fst (files s)"

text \<open>The date text and the date of an entry that is a shard file by its name.\<close>

definition shard_entry :: "string \<times> dir_entry \<Rightarrow> (string \<times> go_time) option" where
  "shard_entry e =
     (case e of (name, entry) \<Rightarrow>
        if entry = Dir_entry then None
        else if \<not> has_prefix name ''logs_'' \<or> \<not> has_suffix name ''.db'' then None
        else (let date_str = trim_suffix (trim_prefix name ''logs_'') ''.db''
              in case parse_date date_str of None \<Rightarrow> None | Some date \<Rightarrow> Some (date_str, date)))"

definition remove_file :: "faults \<Rightarrow> string \<Rightarrow> store \<Rightarrow> store" where
  "remove_file flt name s =
     (case flt (Remove name) of Some e \<Rightarrow> s | None \<Rightarrow> s\<lparr>files := del name (files s)\<rparr>)"

definition delete_shard :: "faults \<Rightarrow> string \<Rightarrow> string \<Rightarrow> store \<Rightarrow> store" where
  "delete_shard flt name date_str s =
     foldl (\<lambda>s suffix. remove_file flt (name @ suffix) s) (close_shard date_str s)
       ['''', ''-wal'', ''-shm'']"

text \<open>The body of the first loop, which the cron's step \<open>Cron_entry\<close> takes too.\<close>

definition cleanup_entry ::
  "faults \<Rightarrow> go_time \<Rightarrow> string \<times> dir_entry \<Rightarrow> string list \<Rightarrow> store \<Rightarrow> string list \<times> store" where
  "cleanup_entry flt cutoff e remaining s =
     (case shard_entry e of
        None \<Rightarrow> (remaining, s)
      | Some (date_str, date) \<Rightarrow>
          if before date cutoff then (remaining, delete_shard flt (fst e) date_str s)
          else (remaining @ [date_str], s))"

fun cleanup_entries ::
  "faults \<Rightarrow> go_time \<Rightarrow> (string \<times> dir_entry) list \<Rightarrow> string list \<Rightarrow> store \<Rightarrow> store \<times> string list" where
  "cleanup_entries flt cutoff [] remaining s = (s, remaining)"
| "cleanup_entries flt cutoff (e # es) remaining s =
     (case cleanup_entry flt cutoff e remaining s of
        (remaining', s') \<Rightarrow> cleanup_entries flt cutoff es remaining' s')"

text \<open>The second loop: an error of \<open>vacuumShard\<close> is only logged.\<close>

fun vacuum_all :: "faults \<Rightarrow> string list \<Rightarrow> store \<Rightarrow> store" where
  "vacuum_all flt [] s = s"
| "vacuum_all flt (d # ds) s = vacuum_all flt ds (fst (vacuum_shard flt d s))"

definition retention_or_default :: "int \<Rightarrow> int" where
  "retention_or_default days = (if days \<le> 0 then 7 else days)"

definition cleanup_old_dbs :: "faults \<Rightarrow> int \<Rightarrow> go_time \<Rightarrow> store \<Rightarrow> store \<times> unit result" where
  "cleanup_old_dbs flt retention_days now s =
     (let cutoff = add_days now (- retention_or_default retention_days)
      in case flt Read_dir of
           Some e \<Rightarrow> (s, Inl (''read data dir: '' @ e))
         | None \<Rightarrow>
             (let (s1, remaining) = cleanup_entries flt cutoff (read_dir s) [] s
              in (vacuum_all flt remaining s1, Inr ())))"

section \<open>StartRetentionCron\<close>

text \<open>\<open>time.Date(year, month, day, 3, 0, 0, 0, location)\<close>, the next one after \<open>now\<close>.\<close>

definition three_am :: "go_time \<Rightarrow> go_time" where
  "three_am now = now\<lparr>instant := day_of now * day_ns + 10800 * second_ns - zone_off now * second_ns\<rparr>"

definition next_three_am :: "go_time \<Rightarrow> go_time" where
  "next_three_am now =
     (let next = three_am now in if \<not> after next now then add_days next 1 else next)"

text \<open>
  The select loop as a function of what happens: the timer fires (the clock then shows the due time
  plus a delay), or \<open>stop\<close> is closed. The result has the times at which a cleanup ran.
\<close>

datatype cron_event = Timer_fires nat | Stop_closed

fun retention_cron ::
  "faults \<Rightarrow> int \<Rightarrow> go_time \<Rightarrow> cron_event list \<Rightarrow> store \<Rightarrow> store \<times> go_time list" where
  "retention_cron flt days now [] s = (s, [])"
| "retention_cron flt days now (Stop_closed # evs) s = (s, [])"
| "retention_cron flt days now (Timer_fires late # evs) s =
     (let due = next_three_am now;
          now' = due\<lparr>instant := instant due + int late\<rparr>;
          (s', runs) = retention_cron flt days now' evs (fst (cleanup_old_dbs flt days now' s))
      in (s', now' # runs))"

section \<open>The invariant\<close>

lemma close_shard_inv [wf_intros]: "store_inv s \<Longrightarrow> store_inv (close_shard d s)"
  by (auto simp: store_inv_def close_shard_def)

lemma store_close_inv [wf_intros]: "store_inv s \<Longrightarrow> store_inv (store_close s)"
  by (auto simp: store_inv_def store_close_def)

lemma vacuum_shard_inv [wf_intros]: "store_inv s \<Longrightarrow> store_inv (fst (vacuum_shard flt d s))"
  using get_or_open_inv by (auto simp: vacuum_shard_def split: prod.splits sum.splits option.splits)

lemma vacuum_all_inv [wf_intros]: "store_inv s \<Longrightarrow> store_inv (vacuum_all flt ds s)"
  by (induction ds arbitrary: s) (auto intro: vacuum_shard_inv)

lemma table_of_del:
  "table_of (s\<lparr>files := del name (files s)\<rparr>) d = (if shard_name d = name then None else table_of s d)"
  by (simp add: table_of_def map_of_del)

lemma remove_file_inv:
  assumes "store_inv s" "\<And>d. d \<in> dbs s \<Longrightarrow> shard_name d \<noteq> name"
  shows "store_inv (remove_file flt name s)"
proof (cases "flt (Remove name)")
  case None
  with assms show ?thesis
    by (auto simp: remove_file_def store_inv_def table_of_del distinct_del)
qed (use assms in \<open>simp add: remove_file_def\<close>)

lemma remove_file_dbs [simp]: "dbs (remove_file flt name s) = dbs s"
  by (simp add: remove_file_def split: option.split)

text \<open>The side files \<open>-wal\<close> and \<open>-shm\<close> are no shards.\<close>

lemma side_file_no_shard:
  "shard_name d \<noteq> n @ ''-wal''" "shard_name d \<noteq> n @ ''-shm''"
proof -
  have l: "last (shard_name d) = CHR ''b''" by (simp add: shard_name_def)
  show "shard_name d \<noteq> n @ ''-wal''"
  proof
    assume "shard_name d = n @ ''-wal''"
    with l show False by simp
  qed
  show "shard_name d \<noteq> n @ ''-shm''"
  proof
    assume "shard_name d = n @ ''-shm''"
    with l show False by simp
  qed
qed

lemma has_suffix_tail: "has_suffix (a @ r) p \<Longrightarrow> length p \<le> length r \<Longrightarrow> has_suffix r p"
  by (simp add: has_suffix_def)

lemma shard_entry_Some:
  assumes "shard_entry (name, entry) = Some (date_str, date)"
  obtains n where "in_years n" "date_str = fmt_day n" "date = midnight n" "name = shard_name (fmt_day n)"
    "entry \<noteq> Dir_entry"
proof -
  from assms have c: "entry \<noteq> Dir_entry" "has_prefix name ''logs_''" "has_suffix name ''.db''"
    "date_str = trim_suffix (trim_prefix name ''logs_'') ''.db''" "parse_date date_str = Some date"
    by (auto simp: shard_entry_def Let_def split: if_splits option.splits)
  from parse_date_SomeD [OF c(5)] obtain n where
    n: "in_years n" "date_str = fmt_day n" "date = midnight n" by blast
  from has_prefixD [OF c(2)] obtain r where r: "name = ''logs_'' @ r" by blast
  then have ds: "date_str = trim_suffix r ''.db''" using c(4) trim_prefix_append by metis
  have "has_suffix r ''.db''"
  proof (rule ccontr)
    assume no: "\<not> has_suffix r ''.db''"
    then have "date_str = r" using ds by (simp add: trim_suffix_def)
    then have "length r = 10" using n length_fmt_day [of n] by simp
    with c(3) r has_suffix_tail [of "''logs_''" r "''.db''"] no show False by simp
  qed
  then obtain m where "r = m @ ''.db''" using has_suffixD by blast
  then have "name = shard_name (fmt_day n)"
    using r ds n(2) trim_suffix_append by (metis append.assoc shard_name_def)
  with that n c(1) show ?thesis by blast
qed

lemma shard_entry_shard:
  assumes "in_years n" "entry \<noteq> Dir_entry"
  shows "shard_entry (shard_name (fmt_day n), entry) = Some (fmt_day n, midnight n)"
proof -
  have s: "shard_name (fmt_day n) = ''logs_'' @ (fmt_day n @ ''.db'')" by (simp add: shard_name_def)
  have "has_suffix (shard_name (fmt_day n)) ''.db''"
    unfolding shard_name_def append_assoc [symmetric] by (rule has_suffix_append)
  moreover have "has_prefix (shard_name (fmt_day n)) ''logs_''" unfolding s by (rule has_prefix_append)
  moreover have "trim_suffix (trim_prefix (shard_name (fmt_day n)) ''logs_'') ''.db'' = fmt_day n"
    unfolding s by (simp only: trim_prefix_append trim_suffix_append)
  ultimately show ?thesis
    using assms by (simp add: shard_entry_def Let_def parse_date_fmt_day)
qed

lemma delete_shard_inv:
  assumes "store_inv s"
  shows "store_inv (delete_shard flt (shard_name d) d s)"
proof -
  let ?s1 = "remove_file flt (shard_name d) (close_shard d s)"
  have "store_inv ?s1"
    using assms by (intro remove_file_inv close_shard_inv) (auto simp: close_shard_def)
  then have "store_inv (remove_file flt (shard_name d @ ''-wal'') ?s1)"
    by (rule remove_file_inv) (rule side_file_no_shard)
  then have "store_inv (remove_file flt (shard_name d @ ''-shm'')
      (remove_file flt (shard_name d @ ''-wal'') ?s1))"
    by (rule remove_file_inv) (rule side_file_no_shard)
  then show ?thesis by (simp add: delete_shard_def)
qed

lemma cleanup_entry_cases:
  assumes "cleanup_entry flt cutoff e remaining s = (remaining', s')"
  obtains (skipped) "shard_entry e = None" "remaining' = remaining" "s' = s"
  | (expired) d date where "shard_entry e = Some (d, date)" "before date cutoff" "fst e = shard_name d"
      "remaining' = remaining" "s' = delete_shard flt (shard_name d) d s"
  | (kept) d date where "shard_entry e = Some (d, date)" "\<not> before date cutoff" "fst e = shard_name d"
      "remaining' = remaining @ [d]" "s' = s"
proof (cases "shard_entry e")
  case None
  with assms skipped show ?thesis by (simp add: cleanup_entry_def)
next
  case (Some p)
  obtain d date where p: "p = (d, date)" by (cases p)
  have "fst e = shard_name d" using shard_entry_Some [of "fst e" "snd e" d date] Some p by auto
  with assms Some p expired kept show ?thesis by (auto simp: cleanup_entry_def split: if_splits)
qed

lemma cleanup_entry_inv:
  assumes "cleanup_entry flt cutoff e remaining s = (remaining', s')" "store_inv s"
  shows "store_inv s'"
  using assms(1) by (cases rule: cleanup_entry_cases) (use assms(2) delete_shard_inv in simp_all)

lemma cleanup_entries_inv:
  "cleanup_entries flt cutoff es rem s = (s', rem') \<Longrightarrow> store_inv s \<Longrightarrow> store_inv s'"
  by (induction es arbitrary: rem s) (auto split: prod.splits intro: cleanup_entry_inv)

lemma cleanup_old_dbs_inv [wf_intros]:
  "store_inv s \<Longrightarrow> store_inv (fst (cleanup_old_dbs flt days now s))"
  using cleanup_entries_inv vacuum_all_inv
  by (auto simp: cleanup_old_dbs_def Let_def split: option.split prod.split)


section \<open>What the cleanup does without failures\<close>

lemma get_or_open_other:
  assumes "get_or_open_db flt d s = (s', r)" "e \<noteq> d"
  shows "table_of s' e = table_of s e \<and> (e \<in> dbs s' \<longleftrightarrow> e \<in> dbs s)"
  using assms(1)
proof (cases rule: get_or_open_cases)
  case (2 t s2 r2)
  have "table_of s2 e = table_of s e \<and> (e \<in> dbs s2 \<longleftrightarrow> e \<in> dbs s)"
    using migrate_outcome [OF 2(3)] assms(2) by auto
  with 2(4) assms(2) show ?thesis by auto
qed simp

lemma vacuum_shard_rows: "shard_rows (fst (vacuum_shard flt d s)) = shard_rows s"
  using get_or_open_rows by (auto simp: vacuum_shard_def split: prod.split sum.split option.split)

lemma vacuum_all_rows: "shard_rows (vacuum_all flt ds s) = shard_rows s"
  by (induction ds arbitrary: s) (simp_all add: vacuum_shard_rows)

lemma vacuum_shard_other:
  "e \<noteq> d \<Longrightarrow> table_of (fst (vacuum_shard flt d s)) e = table_of s e
     \<and> (e \<in> dbs (fst (vacuum_shard flt d s)) \<longleftrightarrow> e \<in> dbs s)"
  using get_or_open_other by (auto simp: vacuum_shard_def split: prod.split sum.split option.split)

lemma vacuum_all_other:
  "e \<notin> set ds \<Longrightarrow> table_of (vacuum_all flt ds s) e = table_of s e
     \<and> (e \<in> dbs (vacuum_all flt ds s) \<longleftrightarrow> e \<in> dbs s)"
  by (induction ds arbitrary: s) (simp_all add: vacuum_shard_other)

lemma delete_shard_files:
  "map_of (files (delete_shard no_faults (shard_name d) d s)) (shard_name e) =
     (if e = d then None else map_of (files s) (shard_name e))"
  "dbs (delete_shard no_faults (shard_name d) d s) = dbs s - {d}"
  using side_file_no_shard [of e "shard_name d"]
  by (auto simp: delete_shard_def remove_file_def no_faults_def map_of_del close_shard_def)

definition dated :: "(go_time \<Rightarrow> bool) \<Rightarrow> (string \<times> dir_entry) list \<Rightarrow> string \<Rightarrow> bool" where
  "dated P es d \<longleftrightarrow> (\<exists>e \<in> set es. \<exists>date. shard_entry e = Some (d, date) \<and> P date)"

abbreviation is_expired :: "go_time \<Rightarrow> (string \<times> dir_entry) list \<Rightarrow> string \<Rightarrow> bool" where
  "is_expired cutoff \<equiv> dated (\<lambda>date. before date cutoff)"

lemma cleanup_entries_files:
  "cleanup_entries no_faults cutoff es rem s = (s', rem') \<Longrightarrow>
   (\<forall>d. map_of (files s') (shard_name d) = (if is_expired cutoff es d then None else map_of (files s) (shard_name d))
      \<and> (d \<in> dbs s' \<longleftrightarrow> d \<in> dbs s \<and> \<not> is_expired cutoff es d))
   \<and> (\<forall>d. d \<in> set rem' \<longleftrightarrow> d \<in> set rem \<or> dated (\<lambda>date. \<not> before date cutoff) es d)"
proof (induction es arbitrary: rem s)
  case (Cons e es)
  obtain r1 s1 where c: "cleanup_entry no_faults cutoff e rem s = (r1, s1)" by fastforce
  then have "cleanup_entries no_faults cutoff es r1 s1 = (s', rem')" using Cons.prems by simp
  note ih = Cons.IH [OF this]
  from c show ?case
  proof (cases rule: cleanup_entry_cases)
    case skipped
    then have "dated P (e # es) = dated P es" for P by (auto simp: dated_def)
    with ih skipped show ?thesis by simp
  next
    case (expired d date)
    then have "is_expired cutoff (e # es) x \<longleftrightarrow> x = d \<or> is_expired cutoff es x"
      "dated (\<lambda>date. \<not> before date cutoff) (e # es) x = dated (\<lambda>date. \<not> before date cutoff) es x" for x
      by (auto simp: dated_def)
    with ih expired show ?thesis by (auto simp: delete_shard_files)
  next
    case (kept d date)
    then have "is_expired cutoff (e # es) x = is_expired cutoff es x"
      "dated (\<lambda>date. \<not> before date cutoff) (e # es) x \<longleftrightarrow> x = d \<or> dated (\<lambda>date. \<not> before date cutoff) es x" for x
      by (auto simp: dated_def)
    with ih kept show ?thesis by auto
  qed
qed (simp add: dated_def)

text \<open>Opening a shard whose file exists leaves it with the current table, empty if it had an older one.\<close>

definition current :: "fts_table \<Rightarrow> fts_table" where
  "current t = (case t of Fts_table rows \<Rightarrow> Fts_table rows | _ \<Rightarrow> Fts_table [])"

lemma vacuum_shard_table:
  assumes "store_inv s" "map_of (files s) (shard_name d) \<noteq> None"
  shows "table_of (fst (vacuum_shard no_faults d s)) d = map_option current (table_of s d)"
proof (cases "d \<in> dbs s")
  case True
  then obtain rows where "table_of s d = Some (Fts_table rows)" using assms(1) by (auto simp: store_inv_def)
  with True show ?thesis by (simp add: vacuum_shard_def get_or_open_db_def no_faults_def current_def)
next
  case False
  with assms(2) show ?thesis
    by (auto simp: vacuum_shard_def get_or_open_db_def no_faults_def current_def open_table_def exec_schema_def
        migrate_legacy_schema_def has_level_def Let_def table_of_def [of s] split: dir_entry.splits fts_table.splits)
qed

lemma vacuum_shard_files:
  "map_of (files s) name \<noteq> None \<Longrightarrow> map_of (files (fst (vacuum_shard flt d s))) name \<noteq> None"
  by (auto simp: vacuum_shard_def get_or_open_db_def migrate_legacy_schema_def set_table_def map_of_upd Let_def
      split: option.splits sum.splits prod.splits if_splits)

lemma vacuum_all_table:
  assumes "store_inv s" "\<forall>d \<in> set ds. map_of (files s) (shard_name d) \<noteq> None" "d \<in> set ds"
  shows "table_of (vacuum_all no_faults ds s) d = map_option current (table_of s d)"
  using assms
proof (induction ds arbitrary: s)
  case (Cons x ds)
  let ?s1 = "fst (vacuum_shard no_faults x s)"
  have inv: "store_inv ?s1" by (rule vacuum_shard_inv [OF Cons.prems(1)])
  have files: "\<forall>d \<in> set ds. map_of (files ?s1) (shard_name d) \<noteq> None"
    using Cons.prems(2) vacuum_shard_files by simp
  have x: "table_of ?s1 x = map_option current (table_of s x)"
    using vacuum_shard_table Cons.prems(1,2) by simp
  have cc: "current (current t) = current t" for t by (simp add: current_def split: fts_table.split)
  show ?case
  proof (cases "d \<in> set ds")
    case True
    have "table_of ?s1 d = (if d = x then map_option current (table_of s x) else table_of s d)"
      using x vacuum_shard_other [of d x no_faults s] by simp
    with Cons.IH [OF inv files True] show ?thesis by (auto simp: option.map_comp comp_def cc)
  next
    case False
    with Cons.prems(3) have "d = x" by simp
    with False x vacuum_all_other [OF False, of no_faults ?s1] show ?thesis by simp
  qed
qed simp

lemma shard_entry_date:
  assumes "in_years n" "shard_entry e = Some (fmt_day n, date)"
  shows "date = midnight n"
proof -
  obtain m where "in_years m" "fmt_day n = fmt_day m" "date = midnight m"
    using shard_entry_Some [of "fst e" "snd e" "fmt_day n" date] assms(2) by auto
  with assms(1) show ?thesis by (simp add: fmt_day_inj)
qed

lemma table_of_entry:
  assumes "table_of s (fmt_day n) = Some t" "in_years n"
  shows "\<exists>e \<in> set (read_dir s). shard_entry e = Some (fmt_day n, midnight n)"
proof -
  from assms(1) have "map_of (files s) (shard_name (fmt_day n)) = Some (Shard_file t)"
    by (auto simp: table_of_def split: option.splits dir_entry.splits)
  then have "(shard_name (fmt_day n), Shard_file t) \<in> set (read_dir s)"
    by (auto simp: read_dir_def dest: map_of_SomeD)
  with shard_entry_shard [OF assms(2), of "Shard_file t"] show ?thesis by auto
qed

lemma cleanup_shard:
  assumes "store_inv s" "in_years n"
    and run: "cleanup_old_dbs no_faults days now s = (s', r)"
    and cutoff: "cutoff = add_days now (- retention_or_default days)"
  shows "r = Inr () \<and> store_inv s'
    \<and> (if before (midnight n) cutoff then table_of s' (fmt_day n) = None \<and> fmt_day n \<notin> dbs s'
       else table_of s' (fmt_day n) = map_option current (table_of s (fmt_day n)))"
proof -
  obtain s1 rem where c: "cleanup_entries no_faults cutoff (read_dir s) [] s = (s1, rem)" by fastforce
  then have s': "s' = vacuum_all no_faults rem s1" and r: "r = Inr ()"
    using run by (auto simp: cleanup_old_dbs_def cutoff no_faults_def [of Read_dir])
  have f: "\<forall>d. map_of (files s1) (shard_name d) =
        (if is_expired cutoff (read_dir s) d then None else map_of (files s) (shard_name d))
      \<and> (d \<in> dbs s1 \<longleftrightarrow> d \<in> dbs s \<and> \<not> is_expired cutoff (read_dir s) d)"
    and rem: "d \<in> set rem \<longleftrightarrow> dated (\<lambda>date. \<not> before date cutoff) (read_dir s) d" for d
    using cleanup_entries_files [OF c] by simp_all
  have t: "table_of s1 d = (if is_expired cutoff (read_dir s) d then None else table_of s d)" for d
    using f by (simp add: table_of_def)
  have inv1: "store_inv s1" by (rule cleanup_entries_inv [OF c assms(1)])
  have inv: "store_inv s'" unfolding s' by (rule vacuum_all_inv [OF inv1])
  have dated: "dated P (read_dir s) (fmt_day n) \<Longrightarrow> P (midnight n)" for P
    using shard_entry_date [OF assms(2)] by (auto simp: dated_def)
  have listed: "dated P (read_dir s) (fmt_day n)" if "table_of s (fmt_day n) \<noteq> None" "P (midnight n)" for P
    using table_of_entry [OF _ assms(2), of s] that by (fastforce simp: dated_def)
  have "if before (midnight n) cutoff then table_of s' (fmt_day n) = None \<and> fmt_day n \<notin> dbs s'
       else table_of s' (fmt_day n) = map_option current (table_of s (fmt_day n))"
  proof (cases "before (midnight n) cutoff")
    case True
    have gone: "table_of s1 (fmt_day n) = None \<and> fmt_day n \<notin> dbs s1"
    proof (cases "table_of s (fmt_day n)")
      case None
      with assms(1) have "fmt_day n \<notin> dbs s" by (auto simp: store_inv_def)
      with None t f show ?thesis by simp
    next
      case (Some x)
      with t f listed [of "\<lambda>date. before date cutoff"] True show ?thesis by simp
    qed
    have "fmt_day n \<notin> set rem" using rem dated True by blast
    with True gone vacuum_all_other show ?thesis by (simp add: s')
  next
    case False
    then have keep: "\<not> is_expired cutoff (read_dir s) (fmt_day n)" using dated by blast
    show ?thesis
    proof (cases "fmt_day n \<in> set rem")
      case True
      have "\<forall>d \<in> set rem. map_of (files s1) (shard_name d) \<noteq> None"
      proof
        fix d assume "d \<in> set rem"
        then obtain e date where e: "e \<in> set (read_dir s)" "shard_entry e = Some (d, date)" "\<not> before date cutoff"
          unfolding rem dated_def by blast
        then have "fst e = shard_name d" using shard_entry_Some [of "fst e" "snd e" d date] by auto
        then have "map_of (files s) (shard_name d) \<noteq> None"
          using e(1) by (auto simp: read_dir_def map_of_eq_None_iff intro: image_eqI [of _ fst e])
        moreover obtain k where "in_years k" "d = fmt_day k" "date = midnight k"
          using shard_entry_Some [of "fst e" "snd e" d date] e(2) by auto
        then have "\<not> is_expired cutoff (read_dir s) d"
          using shard_entry_date [of k] e(3) by (auto simp: dated_def)
        ultimately show "map_of (files s1) (shard_name d) \<noteq> None" using f by simp
      qed
      from vacuum_all_table [OF inv1 this True] keep t False show ?thesis by (simp add: s')
    next
      case rem_no: False
      then have "table_of s (fmt_day n) = None"
        using listed [of "\<lambda>date. \<not> before date cutoff"] False rem by blast
      with vacuum_all_other [OF rem_no] keep t False show ?thesis by (simp add: s')
    qed
  qed
  with r inv show ?thesis by simp
qed

lemma current_rows: "table_of s' d = map_option current (table_of s d) \<Longrightarrow> shard_rows s' d = shard_rows s d"
  by (simp add: shard_rows_def current_def split: option.split fts_table.split)

lemma year_1970: "in_years 719163"
  by (simp add: in_years_def year_of_def)

section \<open>Properties\<close>

text \<open>
  C33: retention deletes exactly the expired shards: without a failure, a cleanup removes the table
  and the open handle of every shard whose day began before the cutoff (now minus the retention
  period). A shard with the current table keeps it row by row. A shard that remains with a table of the old
  schema does lose its rows: the pass opens it, and opening rebuilds it empty.
\<close>

theorem cleanup_exact:
  assumes "store_inv s" "cleanup_old_dbs no_faults days now s = (s', r)"
  defines "cutoff \<equiv> add_days now (- retention_or_default days)"
  shows "r = Inr () \<and> store_inv s'
    \<and> (\<forall>n. in_years n \<longrightarrow>
         (if before (midnight n) cutoff then table_of s' (fmt_day n) = None \<and> fmt_day n \<notin> dbs s'
          else table_of s' (fmt_day n) =
            (case table_of s (fmt_day n) of
               None \<Rightarrow> None
             | Some (Fts_table rows) \<Rightarrow> Some (Fts_table rows)
             | Some (Legacy_table rows) \<Rightarrow> Some (Fts_table [])
             | Some No_table \<Rightarrow> Some (Fts_table []))))"
proof -
  have "map_option current t = (case t of None \<Rightarrow> None | Some (Fts_table rows) \<Rightarrow> Some (Fts_table rows)
      | Some (Legacy_table rows) \<Rightarrow> Some (Fts_table []) | Some No_table \<Rightarrow> Some (Fts_table []))" for t
    by (simp add: current_def split: option.split fts_table.split)
  then show ?thesis
    using cleanup_shard [OF assms(1) year_1970 assms(2) refl] cleanup_shard [OF assms(1) _ assms(2) refl]
    by (simp add: cutoff_def)
qed

text \<open>Two days kept: the shard of 2 January 1970 is deleted on the 6th and kept on the 3rd.\<close>

definition day_shard :: "int \<Rightarrow> log_row \<Rightarrow> store" where
  "day_shard n row = \<lparr>data_dir = ''/data'',
     files = [(shard_name (fmt_day n), Shard_file (Fts_table [(1, row)]))], dbs = {}\<rparr>"

lemma day_shard_simps:
  "table_of (day_shard n row) d = (if d = fmt_day n then Some (Fts_table [(1, row)]) else None)"
  "store_inv (day_shard n row)"
proof -
  show t: "table_of (day_shard n row) d = (if d = fmt_day n then Some (Fts_table [(1, row)]) else None)" for d
    by (simp add: table_of_def day_shard_def)
  show "store_inv (day_shard n row)"
    by (auto simp: store_inv_def t numbered_def) (simp_all add: day_shard_def)
qed

lemma cleanup_exact_witness:
  "table_of (fst (cleanup_old_dbs no_faults 2 (midnight 719167)
       (day_shard 719163 (row_of_line example_line)))) (fmt_day 719163) = None
   \<and> table_of (fst (cleanup_old_dbs no_faults 2 (midnight 719164)
       (day_shard 719163 (row_of_line example_line)))) (fmt_day 719163)
       = Some (Fts_table [(1, row_of_line example_line)])"
proof -
  note c = cleanup_exact [OF day_shard_simps(2) [of 719163 "row_of_line example_line"] prod.collapse [symmetric],
      THEN conjunct2, THEN conjunct2, rule_format, OF year_1970]
  show ?thesis
    using c [where days = 2 and now = "midnight 719167"] c [where days = 2 and now = "midnight 719164"]
    by (simp add: retention_or_default_def before_def day_ns_def shard_rows_def day_shard_simps)
qed

text \<open>The day of a UTC timestamp within the last \<open>N - 1\<close> days has not expired.\<close>

lemma recent_not_expired:
  assumes "zone_off t = 0" "instant now - (retention_or_default days - 1) * day_ns \<le> instant t"
  shows "\<not> before (midnight (day_of t)) (add_days now (- retention_or_default days))"
proof -
  have "instant t < instant (midnight (day_of t)) + day_ns"
    using wall_split [of t] ns_of_day_bounds(2) [of t] assms(1) by (simp add: wall_def)
  then show ?thesis using assms(2) by (simp add: before_def left_diff_distrib)
qed

text \<open>
  Retention keeps recent lines: a cleanup with a retention of \<open>N\<close> days loses no stored line
  whose UTC timestamp is within the last \<open>N - 1\<close> days (or in the future), because the shard of its
  day survives with all its rows.
\<close>

theorem retention_keeps_recent:
  assumes "store_inv s" "cleanup_old_dbs no_faults days now s = (s', r)"
    and "in_years (day_of t)" "zone_off t = 0"
    and "instant now - (retention_or_default days - 1) * day_ns \<le> instant t"
  shows "shard_rows s' (format_date t) = shard_rows s (format_date t)"
  using cleanup_shard [OF assms(1,3,2) refl] recent_not_expired [OF assms(4,5)]
  by (simp add: format_date_def current_rows)

lemma retention_keeps_recent_witness:
  "shard_rows (fst (cleanup_old_dbs no_faults 2 (midnight 719164) (day_shard 719163 (row_of_line example_line))))
     (format_date (midnight 719163)) = [row_of_line example_line]"
  using retention_keeps_recent [OF day_shard_simps(2) [of 719163 "row_of_line example_line"] prod.collapse [symmetric],
      where t = "midnight 719163" and days = 2 and now = "midnight 719164"]
  by (simp add: year_1970 retention_or_default_def shard_rows_def day_shard_simps format_date_def)

text \<open>
  The bound is tight: with a retention of one day, at noon the shard of the previous day goes, and
  with it a line that was written at 23:00, thirteen hours before.
\<close>

lemma younger_line_deleted:
  assumes "store_inv s" "in_years n" "zone_off now = 0" "day_of now = n + 1" "ns_of_day now = 43200 * second_ns"
    and "cleanup_old_dbs no_faults 1 now s = (s', r)"
    and "instant t = n * day_ns + 82800 * second_ns" "zone_off t = 0"
  shows "instant now - instant t = 46800 * second_ns \<and> format_date t = fmt_day n
    \<and> table_of s' (fmt_day n) = None"
proof -
  have now: "instant now = (n + 1) * day_ns + 43200 * second_ns"
    using wall_split [of now] assms(3-5) by (simp add: wall_def)
  have "before (midnight n) (add_days now (- retention_or_default 1))"
    using now by (simp add: before_def retention_or_default_def second_ns_def algebra_simps)
  with cleanup_shard [OF assms(1,2,6) refl] have "table_of s' (fmt_day n) = None" by simp
  moreover have "day_of t = n"
    using assms(7,8) by (simp add: day_of_def wall_def day_ns_def second_ns_def)
  moreover have "instant now - instant t = 46800 * second_ns"
    using now assms(7) by (simp add: day_ns_def second_ns_def)
  ultimately show ?thesis by (simp add: format_date_def)
qed

text \<open>
  The nightly pass opens every shard that remains, so it rebuilds a shard of the old schema, and
  its rows are gone although nothing was written to it.
\<close>

lemma vacuum_drops_legacy_rows:
  assumes "table_of s d = Some (Legacy_table rows)" "d \<notin> dbs s"
  shows "table_of (fst (vacuum_shard no_faults d s)) d = Some (Fts_table [])"
proof -
  have "open_table s d = Inr (Legacy_table rows)"
    using assms(1) by (auto simp: table_of_def open_table_def split: option.splits dir_entry.splits)
  then show ?thesis
    using assms by (simp add: vacuum_shard_def get_or_open_db_def migrate_legacy_schema_def
        no_faults_def exec_schema_def has_level_def Let_def)
qed

text \<open>
  The cron's due time is the next 03:00: strictly after \<open>now\<close>, at most a day later, and at
  03:00:00.000000000 on the wall clock of the location.
\<close>

lemma next_three_am_spec:
  "after (next_three_am now) now \<and> instant (next_three_am now) - instant now \<le> day_ns
   \<and> ns_of_day (next_three_am now) = 10800 * second_ns \<and> zone_off (next_three_am now) = zone_off now"
proof -
  have w: "wall (three_am now) = day_of now * day_ns + 10800 * second_ns"
    by (simp add: three_am_def wall_def)
  have "(day_of now * day_ns + 10800 * second_ns) mod day_ns = (10800 * second_ns) mod day_ns"
    by simp
  then have n: "ns_of_day (three_am now) = 10800 * second_ns"
    by (simp add: ns_of_day_def w second_ns_def day_ns_def)
  have i: "instant now = day_of now * day_ns + ns_of_day now - zone_off now * second_ns"
    using wall_split [of now] by (simp add: wall_def)
  have t: "instant (three_am now) = day_of now * day_ns + 10800 * second_ns - zone_off now * second_ns"
    "zone_off (three_am now) = zone_off now"
    by (simp_all add: three_am_def)
  have "10800 * second_ns < day_ns" "0 < 10800 * second_ns" by (simp_all add: second_ns_def day_ns_def)
  with i t n ns_of_day_bounds [of now] show ?thesis
    by (auto simp: next_three_am_def Let_def after_def)
qed

lemma next_three_am_after: "after (next_three_am now) now"
proof -
  have "instant now < instant (three_am now) + day_ns"
    using wall_split [of now] ns_of_day_bounds(2) [of now] by (simp add: wall_def three_am_def second_ns_def)
  then show ?thesis by (auto simp: next_three_am_def Let_def after_def)
qed

text \<open>The runs of the cron: each later than the one before, and none after \<open>stop\<close>.\<close>

lemma retention_cron_runs:
  "retention_cron flt days now evs s = (s', runs) \<Longrightarrow>
   sorted_wrt (\<lambda>a b. instant a < instant b) (now # runs)
   \<and> length runs = length (takeWhile (\<lambda>e. e \<noteq> Stop_closed) evs)"
proof (induction flt days now evs s arbitrary: s' runs rule: retention_cron.induct)
  case (3 flt days now late evs s)
  let ?now' = "(next_three_am now)\<lparr>instant := instant (next_three_am now) + int late\<rparr>"
  obtain s1 rest where rest: "retention_cron flt days ?now' evs (fst (cleanup_old_dbs flt days ?now' s)) = (s1, rest)"
    by fastforce
  have "instant now < instant ?now'"
    using next_three_am_after [of now] by (simp add: after_def)
  moreover have "sorted_wrt (\<lambda>a b. instant a < instant b) (?now' # rest)
      \<and> length rest = length (takeWhile (\<lambda>e. e \<noteq> Stop_closed) evs)"
    using "3.IH" rest by simp
  ultimately show ?case using "3.prems" rest by (auto simp: Let_def intro: less_trans)
qed auto

lemma retention_cron_inv [wf_intros]:
  "store_inv s \<Longrightarrow> store_inv (fst (retention_cron flt days now evs s))"
  by (induction flt days now evs s rule: retention_cron.induct)
    (simp_all add: Let_def split_beta cleanup_old_dbs_inv)

end
