(* ===== verification/Batch_Queue.thy ===== *)
theory Batch_Queue
  imports Main Prelude Go_Time Go_Time_Text Store Metrics
begin

text \<open>
  \<open>BatchQueue\<close> of \<open>internal/storage/queue.go\<close>: the bounded channel, the worker goroutine \<open>run\<close> with
  its flushes, and the shutdown. The state holds the worker's program counter, and \<open>bq_step\<close> is one
  atomic step of the worker, of a producer calling \<open>Enqueue\<close>, or of the caller of \<open>Close\<close>. The Go
  scheduler's choices (which goroutine moves, which ready case a \<open>select\<close> takes, when the ticker
  ticks) are the sequence of actions.
\<close>

section \<open>State\<close>

text \<open>
  Where \<open>run\<close> is: waiting in its select, inside \<open>flush\<close> before the batch is taken or in
  \<open>InsertBatch\<close> (the flag says that it is the last flush), in \<open>drainChannel\<close>, or returned.
\<close>

datatype bq_pc =
    At_select | Flushing bool | Inserting "log_line list" bool | Draining | Stopped

record batch_queue =
  q_buf :: "log_line list"
  q_size :: nat
  q_interval :: int
  q_insert_timeout :: int
  q_store :: store
  q_in :: "log_line list"
  q_cap :: nat
  q_done :: bool
  q_pc :: bq_pc
  q_metrics :: "metrics option"
  q_dropped :: int
  q_last_warned :: int

definition drop_warn_interval :: int where
  "drop_warn_interval = 5 * second_ns"

definition default_insert_timeout :: int where
  "default_insert_timeout = 30 * second_ns"

definition default_batch_interval :: int where
  "default_batch_interval = 15 * second_ns"

text \<open>The queue that \<open>NewBatchQueue\<close> builds when Go can make its buffer and its channel.\<close>

definition fresh_queue ::
  "store \<Rightarrow> int \<Rightarrow> int \<Rightarrow> int \<Rightarrow> metrics option \<Rightarrow> batch_queue" where
  "fresh_queue st sz interval insert_timeout m =
     (let sz = (if sz \<le> 0 then 200 else sz);
          interval = (if interval \<le> 0 then default_batch_interval else interval);
          insert_timeout = (if insert_timeout \<le> 0 then default_insert_timeout else insert_timeout)
      in \<lparr>q_buf = [], q_size = nat sz, q_interval = interval, q_insert_timeout = insert_timeout,
          q_store = st, q_in = [], q_cap = nat sz * 4, q_done = False, q_pc = At_select,
          q_metrics = m, q_dropped = 0, q_last_warned = 0\<rparr>)"

text \<open>
  \<open>make\<close> of a slice or a channel with room for \<open>n\<close> lines of 104 bytes (five strings and a time), as the
  runtime of the 64-bit target does it: it panics when the memory with the header is beyond the address
  space, and the process dies when the system does not grant it, which \<open>memory\<close> says.
\<close>

definition log_line_bytes :: int where
  "log_line_bytes = 5 * 16 + 24"

definition max_alloc :: int where
  "max_alloc = 2 ^ 48"

definition make_error :: "(int \<Rightarrow> bool) \<Rightarrow> err \<Rightarrow> int \<Rightarrow> int \<Rightarrow> err option" where
  "make_error memory panic header n =
     (if n < 0 \<or> max_alloc - header < n * log_line_bytes then Some panic
      else if \<not> memory (n * log_line_bytes + header) then Some ''fatal error: runtime: out of memory''
      else None)"

definition wrap_int64 :: "int \<Rightarrow> int" where
  "wrap_int64 n = (n + 2 ^ 63) mod 2 ^ 64 - 2 ^ 63"

text \<open>\<open>NewBatchQueue\<close>: an \<open>Inl\<close> is a panic or a fatal error, which ends the process.\<close>

definition new_batch_queue ::
  "(int \<Rightarrow> bool) \<Rightarrow> store \<Rightarrow> int \<Rightarrow> int \<Rightarrow> int \<Rightarrow> metrics option \<Rightarrow> batch_queue result" where
  "new_batch_queue memory st sz interval insert_timeout m =
     (let size = (if sz \<le> 0 then 200 else sz);
          room = wrap_int64 (size * 4)
      in case make_error memory ''panic: runtime error: makeslice: cap out of range'' 0 size of
           Some e \<Rightarrow> Inl e
         | None \<Rightarrow>
             (case make_error memory ''panic: makechan: size out of range'' 96 room of
                Some e \<Rightarrow> Inl e
              | None \<Rightarrow> Inr ((fresh_queue st sz interval insert_timeout m)\<lparr>q_cap := nat room\<rparr>)))"

lemma wrap_int64_id: "- (2 ^ 63) \<le> n \<Longrightarrow> n < 2 ^ 63 \<Longrightarrow> wrap_int64 n = n"
  by (simp add: wrap_int64_def)

lemma new_batch_queue_Inr:
  assumes "new_batch_queue memory st sz interval insert_timeout m = Inr q"
  shows "q = fresh_queue st sz interval insert_timeout m"
proof -
  define size where "size = (if sz \<le> 0 then 200 else sz)"
  have ok: "make_error memory ''panic: runtime error: makeslice: cap out of range'' 0 size = None"
    and q: "q = (fresh_queue st sz interval insert_timeout m)\<lparr>q_cap := nat (wrap_int64 (size * 4))\<rparr>"
    using assms unfolding new_batch_queue_def Let_def size_def [symmetric] by (simp_all split: option.splits)
  have pos: "0 < size" by (simp add: size_def)
  have "size * 4 < 2 ^ 63" using ok by (simp add: make_error_def log_line_bytes_def max_alloc_def split: if_splits)
  with pos have "wrap_int64 (size * 4) = size * 4" by (intro wrap_int64_id) simp_all
  moreover have "fresh_queue st sz interval insert_timeout m =
      (fresh_queue st sz interval insert_timeout m)\<lparr>q_cap := nat (size * 4)\<rparr>"
    using pos by (simp add: fresh_queue_def Let_def size_def nat_mult_distrib)
  ultimately show ?thesis unfolding q by simp
qed

lemma new_batch_queue_cases:
  assumes "0 < sz"
  shows "case new_batch_queue memory st sz interval insert_timeout m of
      Inl e \<Rightarrow> \<not> (4 * (sz * 104) + 96 \<le> 2 ^ 48 \<and> memory (sz * 104) \<and> memory (4 * (sz * 104) + 96))
    | Inr q \<Rightarrow> 4 * (sz * 104) + 96 \<le> 2 ^ 48 \<and> memory (sz * 104) \<and> memory (4 * (sz * 104) + 96)
        \<and> q = fresh_queue st sz interval insert_timeout m"
proof (cases "sz * 104 \<le> 2 ^ 48")
  case True
  then have "wrap_int64 (sz * 4) = sz * 4" using assms by (intro wrap_int64_id) simp_all
  then show ?thesis
    using True assms new_batch_queue_Inr [of memory st sz interval insert_timeout m]
    by (auto simp: new_batch_queue_def make_error_def log_line_bytes_def max_alloc_def Let_def algebra_simps
        split: sum.splits if_splits)
next
  case False
  then show ?thesis using assms by (simp add: new_batch_queue_def make_error_def log_line_bytes_def max_alloc_def)
qed

section \<open>Enqueue and recordDrop\<close>

text \<open>
  \<open>recordDrop\<close> run by one goroutine without interference, at the time \<open>now\<close> (the theory
  \<open>Drop_Warn\<close> has its interleavings). The count of the warning that it logs, if any, is the second
  component.
\<close>

definition record_drop :: "int \<Rightarrow> batch_queue \<Rightarrow> batch_queue \<times> int option" where
  "record_drop now q =
     (let q1 = q\<lparr>q_dropped := q_dropped q + 1,
                 q_metrics := bump (\<lambda>m. m\<lparr>lines_dropped_total := Suc (lines_dropped_total m)\<rparr>)
                                (q_metrics q)\<rparr>;
          warned = q_last_warned q1
      in if warned \<noteq> 0 \<and> now - warned < drop_warn_interval then (q1, None)
         else (q1\<lparr>q_last_warned := now, q_dropped := 0\<rparr>, Some (q_dropped q1)))"

definition enqueue :: "log_line \<Rightarrow> int \<Rightarrow> batch_queue \<Rightarrow> batch_queue" where
  "enqueue l now q =
     (if length (q_in q) < q_cap q then q\<lparr>q_in := q_in q @ [l]\<rparr> else fst (record_drop now q))"

section \<open>The worker\<close>

text \<open>\<open>flush\<close> up to taking the batch: an empty buffer needs no insert.\<close>

definition after_flush :: "bool \<Rightarrow> bq_pc" where
  "after_flush final = (if final then Stopped else At_select)"

definition flush_take :: "bool \<Rightarrow> batch_queue \<Rightarrow> batch_queue" where
  "flush_take final q =
     (if q_buf q = [] then q\<lparr>q_pc := after_flush final\<rparr>
      else q\<lparr>q_pc := Inserting (q_buf q) final, q_buf := []\<rparr>)"

text \<open>
  The rest of \<open>flush\<close>: \<open>InsertBatch\<close> with a context of \<open>insertTimeout\<close> (\<open>ctx_err\<close> when it has expired)
  took \<open>duration\<close>.
\<close>

definition flush_insert ::
  "faults \<Rightarrow> err option \<Rightarrow> string list \<Rightarrow> int \<Rightarrow> log_line list \<Rightarrow> bool \<Rightarrow> batch_queue \<Rightarrow> batch_queue" where
  "flush_insert flt ctx_err order duration batch final q =
     (let (st, r) = insert_batch flt ctx_err order batch (q_store q);
          m = bump (\<lambda>m. m\<lparr>insert_requests_total := Suc (insert_requests_total m),
                           insert_duration := insert_duration m @ [duration]\<rparr>) (q_metrics q);
          m = (if r \<noteq> Inr () then bump (\<lambda>m. m\<lparr>insert_errors_total := Suc (insert_errors_total m)\<rparr>) m
               else m)
      in q\<lparr>q_store := st, q_metrics := m, q_pc := after_flush final\<rparr>)"

text \<open>The case \<open>l := <-q.in\<close> of the select, and the receive of \<open>drainChannel\<close>.\<close>

definition receive :: "batch_queue \<Rightarrow> batch_queue" where
  "receive q =
     (case q_in q of
        [] \<Rightarrow> q
      | l # rest \<Rightarrow>
          (let buf = q_buf q @ [l]
           in q\<lparr>q_in := rest, q_buf := buf,
                q_pc := (if q_size q \<le> length buf then Flushing False else At_select)\<rparr>))"

definition drain_receive :: "batch_queue \<Rightarrow> batch_queue" where
  "drain_receive q =
     (case q_in q of [] \<Rightarrow> q | l # rest \<Rightarrow> q\<lparr>q_in := rest, q_buf := q_buf q @ [l]\<rparr>)"

section \<open>Steps\<close>

datatype bq_action =
    Enqueue log_line int
  | Close_done
  | Recv | Tick | Take_done
  | Drain_recv | Drain_empty
  | Flush_take
  | Flush_insert faults "err option" "string list" int

fun bq_step :: "bq_action \<Rightarrow> batch_queue \<Rightarrow> batch_queue option" where
  "bq_step (Enqueue l now) q = Some (enqueue l now q)"
| "bq_step Close_done q = (if q_done q then None else Some (q\<lparr>q_done := True\<rparr>))"
| "bq_step Recv q = (if q_pc q = At_select \<and> q_in q \<noteq> [] then Some (receive q) else None)"
| "bq_step Tick q = (if q_pc q = At_select then Some (q\<lparr>q_pc := Flushing False\<rparr>) else None)"
| "bq_step Take_done q =
     (if q_pc q = At_select \<and> q_done q then Some (q\<lparr>q_pc := Draining\<rparr>) else None)"
| "bq_step Drain_recv q =
     (if q_pc q = Draining \<and> q_in q \<noteq> [] then Some (drain_receive q) else None)"
| "bq_step Drain_empty q =
     (if q_pc q = Draining \<and> q_in q = [] then Some (q\<lparr>q_pc := Flushing True\<rparr>) else None)"
| "bq_step Flush_take q =
     (case q_pc q of Flushing final \<Rightarrow> Some (flush_take final q) | _ \<Rightarrow> None)"
| "bq_step (Flush_insert flt ctx_err order duration) q =
     (case q_pc q of
        Inserting batch final \<Rightarrow>
          if map_order batch order then Some (flush_insert flt ctx_err order duration batch final q)
          else None
      | _ \<Rightarrow> None)"

text \<open>What a step accepts into the channel, and the batch that it hands to the store.\<close>

definition accepted_by :: "bq_action \<Rightarrow> batch_queue \<Rightarrow> log_line list" where
  "accepted_by a q =
     (case a of Enqueue l now \<Rightarrow> if length (q_in q) < q_cap q then [l] else [] | _ \<Rightarrow> [])"

definition inserted_by :: "bq_action \<Rightarrow> batch_queue \<Rightarrow> log_line list list" where
  "inserted_by a q =
     (case a of
        Flush_insert _ _ _ _ \<Rightarrow> (case q_pc q of Inserting batch _ \<Rightarrow> [batch] | _ \<Rightarrow> [])
      | _ \<Rightarrow> [])"

text \<open>
  The executions from a new queue: the lines accepted so far, the batches handed to \<open>InsertBatch\<close> so
  far, and the state. \<open>ok\<close> restricts the actions, e.g. to those without a failure of the store.
\<close>

inductive bq_exec ::
  "(bq_action \<Rightarrow> bool) \<Rightarrow> batch_queue \<Rightarrow> log_line list \<Rightarrow> log_line list list \<Rightarrow> batch_queue \<Rightarrow> bool"
  for ok q0 where
  bq_start: "bq_exec ok q0 [] [] q0"
| bq_next: "bq_exec ok q0 acc bs q \<Longrightarrow> ok a \<Longrightarrow> bq_step a q = Some q' \<Longrightarrow>
    bq_exec ok q0 (acc @ accepted_by a q) (bs @ inserted_by a q) q'"

inductive_cases bq_execE: "bq_exec ok q0 acc bs q"

definition in_flight :: "batch_queue \<Rightarrow> log_line list" where
  "in_flight q = (case q_pc q of Inserting batch _ \<Rightarrow> batch | _ \<Rightarrow> [])"

section \<open>The worker's invariant\<close>

definition bq_inv :: "batch_queue \<Rightarrow> bool" where
  "bq_inv q \<longleftrightarrow> 0 < q_size q \<and> q_cap q = q_size q * 4 \<and> length (q_in q) \<le> q_cap q
     \<and> (case q_pc q of
          At_select \<Rightarrow> length (q_buf q) < q_size q
        | Flushing final \<Rightarrow> final \<or> length (q_buf q) \<le> q_size q
        | Inserting batch final \<Rightarrow> q_buf q = [] \<and> batch \<noteq> [] \<and> (final \<or> length batch \<le> q_size q)
        | Draining \<Rightarrow> q_done q
        | Stopped \<Rightarrow> q_done q \<and> q_buf q = [])
     \<and> (q_pc q \<in> {Flushing True} \<union> range (\<lambda>b. Inserting b True) \<longrightarrow> q_done q)"

lemma fresh_queue_inv [wf_intros]: "bq_inv (fresh_queue st sz interval timeout m)"
  by (auto simp: fresh_queue_def bq_inv_def Let_def)

lemma record_drop_fields [simp]:
  "q_buf (fst (record_drop now q)) = q_buf q" "q_size (fst (record_drop now q)) = q_size q"
  "q_store (fst (record_drop now q)) = q_store q" "q_in (fst (record_drop now q)) = q_in q"
  "q_cap (fst (record_drop now q)) = q_cap q" "q_done (fst (record_drop now q)) = q_done q"
  "q_pc (fst (record_drop now q)) = q_pc q"
  by (simp_all add: record_drop_def Let_def)

lemma enqueue_fields [simp]:
  "q_buf (enqueue l now q) = q_buf q" "q_size (enqueue l now q) = q_size q"
  "q_store (enqueue l now q) = q_store q" "q_cap (enqueue l now q) = q_cap q"
  "q_done (enqueue l now q) = q_done q" "q_pc (enqueue l now q) = q_pc q"
  "q_in (enqueue l now q) = q_in q @ accepted_by (Enqueue l now) q"
  by (simp_all add: enqueue_def accepted_by_def)

lemma flush_insert_fields [simp]:
  "q_buf (flush_insert flt ctx order dur b final q) = q_buf q"
  "q_size (flush_insert flt ctx order dur b final q) = q_size q"
  "q_in (flush_insert flt ctx order dur b final q) = q_in q"
  "q_cap (flush_insert flt ctx order dur b final q) = q_cap q"
  "q_done (flush_insert flt ctx order dur b final q) = q_done q"
  "q_pc (flush_insert flt ctx order dur b final q) = after_flush final"
  "q_store (flush_insert flt ctx order dur b final q) = fst (insert_batch flt ctx order b (q_store q))"
  by (simp_all add: flush_insert_def Let_def split_beta)

lemma bq_step_inv [wf_intros]:
  assumes "bq_step a q = Some q'" "bq_inv q"
  shows "bq_inv q'"
proof (cases a)
  case (Enqueue l now)
  have "length (q_in (enqueue l now q)) \<le> q_cap q"
    using assms(2) by (simp add: accepted_by_def bq_inv_def)
  moreover have "q' = enqueue l now q" using Enqueue assms(1) by simp
  ultimately show ?thesis using assms(2)
    by (simp add: bq_inv_def del: enqueue_fields(7) split: bq_pc.splits)
next
  case Flush_take
  with assms(1) obtain final where f: "q_pc q = Flushing final" "q' = flush_take final q"
    by (auto split: bq_pc.splits)
  with assms(2) show ?thesis
    by (cases "q_buf q"; cases final) (auto simp: bq_inv_def flush_take_def after_flush_def)
next
  case (Flush_insert flt ctx order dur)
  with assms show ?thesis
    by (auto simp: bq_inv_def after_flush_def split: bq_pc.splits if_splits)
next
  case Recv
  with assms show ?thesis
    by (cases "q_in q") (auto simp: bq_inv_def receive_def Let_def split: if_splits)
next
  case Drain_recv
  with assms show ?thesis
    by (cases "q_in q") (auto simp: bq_inv_def drain_receive_def split: if_splits)
qed (use assms in \<open>auto simp: bq_inv_def split: if_splits bq_pc.splits\<close>)


section \<open>Conservation\<close>

text \<open>Every step keeps the lines that are on their way in order.\<close>

definition pending :: "batch_queue \<Rightarrow> log_line list" where
  "pending q = in_flight q @ q_buf q @ q_in q"

lemma flush_take_pending: "pending (flush_take final q) = q_buf q @ q_in q"
  by (cases "q_buf q"; cases final) (simp_all add: pending_def in_flight_def flush_take_def after_flush_def)

lemma bq_step_pending:
  assumes "bq_step a q = Some q'" "bq_inv q"
  shows "pending q @ accepted_by a q = concat (inserted_by a q) @ pending q'"
proof (cases a)
  case (Enqueue l now)
  with assms show ?thesis by (auto simp: pending_def in_flight_def inserted_by_def)
next
  case Flush_take
  with assms show ?thesis
    by (auto simp: flush_take_pending accepted_by_def inserted_by_def split: bq_pc.splits)
      (simp add: pending_def in_flight_def)
next
  case (Flush_insert flt ctx order dur)
  with assms show ?thesis
    by (auto simp: pending_def in_flight_def after_flush_def accepted_by_def inserted_by_def bq_inv_def
        split: bq_pc.splits if_splits)
next
  case Recv
  with assms show ?thesis
    by (cases "q_in q") (auto simp: pending_def in_flight_def receive_def Let_def accepted_by_def
        inserted_by_def split: if_splits)
next
  case Drain_recv
  with assms show ?thesis
    by (cases "q_in q") (auto simp: pending_def in_flight_def drain_receive_def accepted_by_def
        inserted_by_def split: if_splits)
qed (use assms in \<open>auto simp: pending_def in_flight_def accepted_by_def inserted_by_def split: if_splits\<close>)

lemma bq_exec_inv:
  "bq_exec ok q0 acc bs q \<Longrightarrow> bq_inv q0 \<Longrightarrow> bq_inv q"
  by (induction rule: bq_exec.induct) (auto intro: bq_step_inv)

lemma bq_exec_pending:
  "bq_exec ok q0 acc bs q \<Longrightarrow> bq_inv q0 \<Longrightarrow> pending q0 @ acc = concat bs @ pending q"
proof (induction rule: bq_exec.induct)
  case (bq_next acc bs q a q')
  then have "pending q @ accepted_by a q = concat (inserted_by a q) @ pending q'"
    using bq_exec_inv bq_step_pending by blast
  with bq_next show ?case by (metis append.assoc concat_append)
qed simp

lemma pending_new [simp]: "pending (fresh_queue st sz interval timeout m) = []"
  by (simp add: pending_def in_flight_def fresh_queue_def Let_def)

text \<open>
  C20: nothing that the queue accepted is lost or reordered on its way to the store: in every
  execution, whatever fails, the accepted lines are the lines of the batches handed to
  \<open>InsertBatch\<close>, then those of the running insert, of the buffer and of the channel, in the order
  they were accepted. A full channel has \<open>4 * size\<close> lines.
\<close>

theorem batch_queue_conserves:
  assumes "bq_exec ok (fresh_queue st sz interval timeout m) acc bs q"
  shows "acc = concat bs @ in_flight q @ q_buf q @ q_in q
    \<and> length (q_in q) \<le> q_size q * 4 \<and> (\<forall>l now. accepted_by (Enqueue l now) q =
         (if length (q_in q) < q_size q * 4 then [l] else []))"
proof -
  have inv: "bq_inv q" using bq_exec_inv [OF assms] fresh_queue_inv by blast
  moreover have "acc = concat bs @ pending q"
    using bq_exec_pending [OF assms fresh_queue_inv] by simp
  ultimately show ?thesis by (auto simp: pending_def bq_inv_def accepted_by_def)
qed

text \<open>
  A flush is as large as configured: while the queue runs, the buffer has fewer than \<open>size\<close>
  lines whenever the worker waits, every batch but the last has between 1 and \<open>size\<close> lines, and the
  buffer never grows during an insert.
\<close>

theorem batch_queue_bounds:
  assumes "bq_exec ok (fresh_queue st sz interval timeout m) acc bs q"
  shows "(q_pc q = At_select \<longrightarrow> length (q_buf q) < q_size q)
    \<and> (\<forall>batch final. q_pc q = Inserting batch final \<longrightarrow>
         batch \<noteq> [] \<and> q_buf q = [] \<and> (\<not> final \<longrightarrow> length batch \<le> q_size q))
    \<and> q_size q = (if sz \<le> 0 then 200 else nat sz)"
proof -
  have inv: "bq_inv q" using bq_exec_inv [OF assms] fresh_queue_inv by blast
  have "q_size q = q_size (fresh_queue st sz interval timeout m)"
    using assms
  proof (induction rule: bq_exec.induct)
    case (bq_next acc bs q a q')
    have "q_size q' = q_size q"
      using bq_next.hyps(3)
      by (cases a) (auto simp: flush_take_def receive_def drain_receive_def Let_def
          split: if_splits bq_pc.splits list.splits)
    with bq_next show ?case by simp
  qed simp
  with inv show ?thesis by (auto simp: bq_inv_def fresh_queue_def Let_def)
qed


section \<open>Close returns\<close>

text \<open>
  Once \<open>done\<close> is closed, the worker's steps other than a tick of the ticker bring it nearer to its
  end: each line in the channel costs at most a receive with a flush, then come the drain and the
  last flush.
\<close>

definition close_rank :: "batch_queue \<Rightarrow> nat" where
  "close_rank q = 4 * length (q_in q) +
     (case q_pc q of
        Flushing final \<Rightarrow> if final then 3 else 7
      | Inserting batch final \<Rightarrow> if final then 2 else 6
      | At_select \<Rightarrow> 5 | Draining \<Rightarrow> 4 | Stopped \<Rightarrow> 0)"

definition worker_action :: "bq_action \<Rightarrow> bool" where
  "worker_action a = (case a of Enqueue l now \<Rightarrow> False | Close_done \<Rightarrow> False | Tick \<Rightarrow> False | _ \<Rightarrow> True)"

lemma worker_step_rank:
  assumes "bq_step a q = Some q'" "worker_action a" "bq_inv q"
  shows "close_rank q' < close_rank q"
proof (cases a)
  case Flush_take
  with assms(1) obtain final where f: "q_pc q = Flushing final" "q' = flush_take final q"
    by (auto split: bq_pc.splits)
  then show ?thesis
    by (cases "q_buf q"; cases final) (auto simp: close_rank_def flush_take_def after_flush_def)
next
  case (Flush_insert flt ctx order dur)
  then obtain batch final where "q_pc q = Inserting batch final"
      "q' = flush_insert flt ctx order dur batch final q"
    using assms(1) by (auto split: bq_pc.splits if_splits)
  then show ?thesis by (cases final) (auto simp: close_rank_def after_flush_def)
next
  case Recv
  with assms show ?thesis
    by (cases "q_in q") (auto simp: close_rank_def receive_def Let_def split: if_splits)
next
  case Drain_recv
  with assms show ?thesis
    by (cases "q_in q") (auto simp: close_rank_def drain_receive_def split: if_splits)
qed (use assms in \<open>auto simp: close_rank_def worker_action_def split: if_splits\<close>)

lemma map_order_exists: "map_order batch (remdups (map line_date batch))"
  by (simp add: map_order_def)

text \<open>Until it has stopped, the worker has such a step.\<close>

lemma worker_step_enabled:
  assumes "q_done q" "q_pc q \<noteq> Stopped"
  shows "\<exists>a q'. worker_action a \<and> bq_step a q = Some q'"
proof (cases "q_pc q")
  case At_select
  with assms show ?thesis by (intro exI [of _ Take_done]) (simp add: worker_action_def)
next
  case (Flushing final)
  then show ?thesis by (intro exI [of _ Flush_take]) (simp add: worker_action_def)
next
  case (Inserting batch final)
  then show ?thesis
    by (intro exI [of _ "Flush_insert no_faults None (remdups (map line_date batch)) 0"])
      (simp add: worker_action_def map_order_exists)
next
  case Draining
  show ?thesis
  proof (cases "q_in q")
    case Nil
    with Draining show ?thesis by (intro exI [of _ Drain_empty]) (simp add: worker_action_def)
  next
    case (Cons l ls)
    with Draining show ?thesis by (intro exI [of _ Drain_recv]) (simp add: worker_action_def)
  qed
qed (use assms in simp)

text \<open>Runs of the worker alone.\<close>

inductive worker_run :: "batch_queue \<Rightarrow> nat \<Rightarrow> batch_queue \<Rightarrow> bool" where
  wr_start: "worker_run q 0 q"
| wr_next: "worker_run q n q' \<Longrightarrow> worker_action a \<Longrightarrow> bq_step a q' = Some q'' \<Longrightarrow> worker_run q (Suc n) q''"

lemma worker_run_bound:
  "worker_run q n q' \<Longrightarrow> bq_inv q \<Longrightarrow> bq_inv q' \<and> n + close_rank q' \<le> close_rank q"
proof (induction rule: worker_run.induct)
  case (wr_next q n q' a q'')
  then have "bq_inv q''" using bq_step_inv by blast
  moreover have "close_rank q'' < close_rank q'" using wr_next worker_step_rank by blast
  ultimately show ?case using wr_next by simp
qed simp

text \<open>
  C38: \<open>Close\<close> returns: after \<open>done\<close> is closed, and with no more producers, the worker is never
  stuck before it has stopped, and it stops after at most \<open>4 * n + 7\<close> steps when \<open>n\<close> lines are in the
  channel (ticks of the ticker aside).
\<close>

theorem close_terminates:
  assumes "bq_exec ok (fresh_queue st sz interval timeout m) acc bs q" "q_done q"
    and "worker_run q n q'"
  shows "n \<le> 4 * length (q_in q) + 7
    \<and> (q_done q' \<and> q_pc q' \<noteq> Stopped \<longrightarrow> (\<exists>a q''. worker_action a \<and> bq_step a q' = Some q''))"
proof -
  have inv: "bq_inv q" using bq_exec_inv [OF assms(1)] fresh_queue_inv by blast
  have "n \<le> close_rank q" using worker_run_bound [OF assms(3) inv] by simp
  also have "\<dots> \<le> 4 * length (q_in q) + 7"
    by (simp add: close_rank_def split: bq_pc.split)
  finally show ?thesis using worker_step_enabled by blast
qed


section \<open>From the queue to the disk\<close>

text \<open>The actions of a run in which no call of the store fails and no insert times out.\<close>

definition store_healthy :: "bq_action \<Rightarrow> bool" where
  "store_healthy a =
     (case a of Flush_insert flt ctx_err _ _ \<Rightarrow> flt = no_faults \<and> ctx_err = None | _ \<Rightarrow> True)"

lemma bq_step_store:
  assumes "bq_step a q = Some q'" "store_healthy a"
    and "store_inv (q_store q)" "all_writable (q_store q)"
  shows "inserted_by a q = [] \<and> q_store q' = q_store q
    \<or> (\<exists>batch. inserted_by a q = [batch] \<and> put_batch (q_store q) batch (q_store q'))"
proof (cases a)
  case (Flush_insert flt ctx order dur)
  then obtain batch final where f: "q_pc q = Inserting batch final" "map_order batch order"
      "q' = flush_insert flt ctx order dur batch final q"
    using assms(1) by (auto split: bq_pc.splits if_splits)
  have "flt = no_faults" "ctx = None" using assms(2) Flush_insert by (simp_all add: store_healthy_def)
  with f insert_batch_stores [OF assms(3) f(2)] assms(4)
  have "put_batch (q_store q) batch (q_store q')"
    by (auto simp: put_batch_def all_writable_def)
  then show ?thesis using Flush_insert f by (simp add: inserted_by_def)
qed (use assms(1) in \<open>auto simp: inserted_by_def flush_take_def receive_def drain_receive_def Let_def
       split: if_splits bq_pc.splits list.splits\<close>)

lemma bq_exec_holds:
  assumes "bq_exec store_healthy q0 acc bs q" "store_inv (q_store q0)" "all_writable (q_store q0)"
  shows "(store_inv (q_store q) \<and> all_writable (q_store q))
    \<and> holds shard_rows (q_store q0) (concat bs) (q_store q)"
  using assms
proof (induction rule: bq_exec.induct)
  case bq_start
  then show ?case by (simp add: holds_def)
next
  case (bq_next acc bs q a q')
  then have ih: "store_inv (q_store q) \<and> all_writable (q_store q)"
    "holds shard_rows (q_store q0) (concat bs) (q_store q)" by simp_all
  with bq_step_store [OF bq_next.hyps(3,2)] disk.holds_put [OF ih]
  show ?case by auto
qed

text \<open>
  When \<open>Close\<close> has returned, every line that the queue accepted is stored: if no insert fails
  and nothing was enqueued after the drain, each shard has what it had before, followed by the
  accepted lines of its day in the order they were accepted.
\<close>

theorem closed_queue_stored_everything:
  assumes "bq_exec store_healthy (fresh_queue st sz interval timeout m) acc bs q"
    and "store_inv st" "all_writable st" "q_pc q = Stopped" "q_in q = []"
  shows "\<forall>d. shard_rows (q_store q) d =
    shard_rows st d @ map row_of_line (filter (\<lambda>l. line_date l = d) acc)"
proof -
  let ?q0 = "fresh_queue st sz interval timeout m"
  have st: "q_store ?q0 = st" by (simp add: fresh_queue_def Let_def)
  have "bq_inv q" using bq_exec_inv [OF assms(1)] fresh_queue_inv by blast
  then have "pending q = []" using assms(4,5) by (simp add: pending_def in_flight_def bq_inv_def)
  then have "acc = concat bs" using bq_exec_pending [OF assms(1) fresh_queue_inv] by simp
  with bq_exec_holds [OF assms(1)] assms(2,3) show ?thesis by (simp add: st holds_def)
qed

section \<open>An execution\<close>

fun bq_run ::
  "bq_action list \<Rightarrow> log_line list \<times> log_line list list \<times> batch_queue
   \<Rightarrow> (log_line list \<times> log_line list list \<times> batch_queue) option" where
  "bq_run [] st = Some st"
| "bq_run (a # as) (acc, bs, q) =
     (case bq_step a q of
        None \<Rightarrow> None
      | Some q' \<Rightarrow> bq_run as (acc @ accepted_by a q, bs @ inserted_by a q, q'))"

lemma bq_run_exec:
  "bq_run as (acc, bs, q) = Some (acc', bs', q') \<Longrightarrow> bq_exec ok q0 acc bs q \<Longrightarrow> list_all ok as \<Longrightarrow>
   bq_exec ok q0 acc' bs' q'"
proof (induction as arbitrary: acc bs q)
  case (Cons a as)
  then obtain q1 where 1: "bq_step a q = Some q1"
    "bq_run as (acc @ accepted_by a q, bs @ inserted_by a q, q1) = Some (acc', bs', q')"
    by (auto split: option.splits)
  with Cons.prems(2,3) bq_next [of ok q0 acc bs q a q1]
  have "bq_exec ok q0 (acc @ accepted_by a q) (bs @ inserted_by a q) q1" by simp
  with Cons.IH [OF 1(2)] Cons.prems(3) show ?case by simp
qed simp

text \<open>A queue of size 1: a line is accepted and stored, a second one waits until \<open>Close\<close>.\<close>

abbreviation example_queue :: batch_queue where
  "example_queue \<equiv> fresh_queue empty_store 1 0 0 (Some new_metrics)"

abbreviation store_one :: bq_action where
  "store_one \<equiv> Flush_insert no_faults None [line_date example_line] 1"

definition example_actions :: "bq_action list" where
  "example_actions = [Enqueue example_line 0, Recv, Flush_take, store_one, Enqueue example_line 0,
     Close_done]"

definition example_shutdown :: "bq_action list" where
  "example_shutdown = [Take_done, Drain_recv, Drain_empty, Flush_take, store_one]"

lemma map_order_one: "map_order [example_line] [line_date example_line]"
  by (simp add: map_order_def)

lemmas run_defs = enqueue_def receive_def drain_receive_def flush_take_def after_flush_def Let_def
  accepted_by_def inserted_by_def map_order_one

lemma example_queue_fields:
  "q_in example_queue = []" "q_buf example_queue = []" "q_size example_queue = 1"
  "q_cap example_queue = 4" "q_pc example_queue = At_select" "q_done example_queue = False"
  "q_store example_queue = empty_store"
  by (simp_all add: fresh_queue_def)

lemma example_run:
  obtains q where "bq_run example_actions ([], [], example_queue) =
      Some ([example_line, example_line], [[example_line]], q)"
    "q_pc q = At_select" "q_in q = [example_line]" "q_buf q = []" "q_done q" "q_size q = 1" "q_cap q = 4"
  by (simp add: example_actions_def run_defs example_queue_fields)

lemma example_run_closed:
  obtains q where "bq_run (example_actions @ example_shutdown) ([], [], example_queue) =
      Some ([example_line, example_line], [[example_line], [example_line]], q)"
    "q_pc q = Stopped" "q_in q = []"
  by (simp add: example_actions_def example_shutdown_def run_defs example_queue_fields)

lemma batch_queue_conserves_witness:
  "\<exists>q. bq_exec (\<lambda>_. True) example_queue [example_line, example_line] [[example_line]] q
     \<and> [example_line, example_line] = concat [[example_line]] @ in_flight q @ q_buf q @ q_in q"
proof -
  from example_run obtain q where "bq_run example_actions ([], [], example_queue) =
      Some ([example_line, example_line], [[example_line]], q)" by blast
  from bq_run_exec [OF this bq_start] have
    e: "bq_exec (\<lambda>_. True) example_queue [example_line, example_line] [[example_line]] q"
    by (simp add: list_all_iff)
  from batch_queue_conserves [OF e] e show ?thesis by blast
qed

lemma batch_queue_bounds_witness:
  "\<exists>acc bs q. bq_exec (\<lambda>_. True) example_queue acc bs q \<and> q_pc q = At_select \<and> length (q_buf q) < 1"
proof -
  from example_run obtain q where q: "bq_run example_actions ([], [], example_queue) =
      Some ([example_line, example_line], [[example_line]], q)" "q_pc q = At_select" "q_size q = 1"
    by blast
  from bq_run_exec [OF q(1) bq_start] have
    e: "bq_exec (\<lambda>_. True) example_queue [example_line, example_line] [[example_line]] q"
    by (simp add: list_all_iff)
  from batch_queue_bounds [OF e] e q(2,3) show ?thesis by auto
qed

lemma close_terminates_witness:
  "\<exists>acc bs q. bq_exec (\<lambda>_. True) example_queue acc bs q \<and> q_done q
     \<and> (\<exists>a q''. worker_action a \<and> bq_step a q = Some q'')"
proof -
  from example_run obtain q where q: "bq_run example_actions ([], [], example_queue) =
      Some ([example_line, example_line], [[example_line]], q)" "q_pc q = At_select" "q_done q"
    by blast
  from bq_run_exec [OF q(1) bq_start] have
    e: "bq_exec (\<lambda>_. True) example_queue [example_line, example_line] [[example_line]] q"
    by (simp add: list_all_iff)
  have "\<exists>a q''. worker_action a \<and> bq_step a q = Some q''"
    using close_terminates [OF e q(3) wr_start] q(2,3) by simp
  with e q(3) show ?thesis by blast
qed

lemma closed_queue_witness:
  "\<exists>q. bq_exec store_healthy example_queue [example_line, example_line]
       [[example_line], [example_line]] q
     \<and> shard_rows (q_store q) (line_date example_line) = [row_of_line example_line, row_of_line example_line]"
proof -
  from example_run_closed obtain q where q:
    "bq_run (example_actions @ example_shutdown) ([], [], example_queue) =
      Some ([example_line, example_line], [[example_line], [example_line]], q)"
    "q_pc q = Stopped" "q_in q = []" by blast
  from bq_run_exec [OF q(1) bq_start] have
    e: "bq_exec store_healthy example_queue [example_line, example_line]
       [[example_line], [example_line]] q"
    by (simp add: example_actions_def example_shutdown_def store_healthy_def)
  from closed_queue_stored_everything [OF e _ _ q(2,3)] e show ?thesis
    by (auto simp: all_writable_def)
qed

end
