(* ===== verification/Drop_Warn.thy ===== *)
theory Drop_Warn
  imports Main Prelude Go_Time Store Metrics Batch_Queue
begin

text \<open>
  \<open>recordDrop\<close> of \<open>internal/storage/queue.go\<close> run by any number of goroutines at once: it takes no
  lock, so its five atomic accesses (the add, the clock, the load, the compare-and-swap, the swap)
  interleave freely. \<open>drop_step\<close> is one of them by one goroutine, and the histories of an execution
  are what it counted and warned. \<open>time.Now().UnixNano()\<close> is the wall clock; here it only advances, so what
  is shown assumes that nobody sets it back while the process runs.
\<close>

section \<open>Steps\<close>

text \<open>Where a goroutine is in \<open>recordDrop\<close>; the arguments are its local \<open>now\<close> and \<open>last\<close>.\<close>

datatype drop_pc = Outside | Added | Clocked int | Loaded int int | Swapping

record drop_state =
  ds_dropped :: int
  ds_last_warned :: int
  ds_clock :: int
  ds_pc :: "nat \<Rightarrow> drop_pc"

datatype drop_action = Advance nat | Add nat | Read_clock nat | Load nat | Cas nat | Swap nat

definition set_pc :: "nat \<Rightarrow> drop_pc \<Rightarrow> drop_state \<Rightarrow> drop_state" where
  "set_pc i pc s = s\<lparr>ds_pc := (ds_pc s)(i := pc)\<rparr>"

fun drop_step :: "drop_action \<Rightarrow> drop_state \<Rightarrow> drop_state option" where
  "drop_step (Advance d) s = Some (s\<lparr>ds_clock := ds_clock s + int d\<rparr>)"
| "drop_step (Add i) s =
     (case ds_pc s i of Outside \<Rightarrow> Some (set_pc i Added (s\<lparr>ds_dropped := ds_dropped s + 1\<rparr>)) | _ \<Rightarrow> None)"
| "drop_step (Read_clock i) s =
     (case ds_pc s i of Added \<Rightarrow> Some (set_pc i (Clocked (ds_clock s)) s) | _ \<Rightarrow> None)"
| "drop_step (Load i) s =
     (case ds_pc s i of
        Clocked now \<Rightarrow>
          (let seen = ds_last_warned s
           in if seen \<noteq> 0 \<and> now - seen < drop_warn_interval then Some (set_pc i Outside s)
              else Some (set_pc i (Loaded now seen) s))
      | _ \<Rightarrow> None)"
| "drop_step (Cas i) s =
     (case ds_pc s i of
        Loaded now seen \<Rightarrow>
          if ds_last_warned s = seen then Some (set_pc i Swapping (s\<lparr>ds_last_warned := now\<rparr>))
          else Some (set_pc i Outside s)
      | _ \<Rightarrow> None)"
| "drop_step (Swap i) s =
     (case ds_pc s i of Swapping \<Rightarrow> Some (set_pc i Outside (s\<lparr>ds_dropped := 0\<rparr>)) | _ \<Rightarrow> None)"

text \<open>The histories: the drops counted, the times of the successful swaps, the logged counts.\<close>

definition adds_of :: "drop_action \<Rightarrow> int" where
  "adds_of a = (case a of Add i \<Rightarrow> 1 | _ \<Rightarrow> 0)"

definition wins_of :: "drop_action \<Rightarrow> drop_state \<Rightarrow> int list" where
  "wins_of a s =
     (case a of
        Cas i \<Rightarrow> (case ds_pc s i of Loaded now seen \<Rightarrow> if ds_last_warned s = seen then [now] else [] | _ \<Rightarrow> [])
      | _ \<Rightarrow> [])"

definition warned_of :: "drop_action \<Rightarrow> drop_state \<Rightarrow> int list" where
  "warned_of a s = (case a of Swap i \<Rightarrow> [ds_dropped s] | _ \<Rightarrow> [])"

definition drop_start :: "int \<Rightarrow> drop_state" where
  "drop_start clock = \<lparr>ds_dropped = 0, ds_last_warned = 0, ds_clock = clock, ds_pc = (\<lambda>_. Outside)\<rparr>"

inductive drop_exec :: "int \<Rightarrow> int \<Rightarrow> int list \<Rightarrow> int list \<Rightarrow> drop_state \<Rightarrow> bool" for clock where
  drop_init: "drop_exec clock 0 [] [] (drop_start clock)"
| drop_next: "drop_exec clock n wins warns s \<Longrightarrow> drop_step a s = Some s' \<Longrightarrow>
    drop_exec clock (n + adds_of a) (wins @ wins_of a s) (warns @ warned_of a s) s'"

section \<open>The invariant\<close>

definition pc_ok :: "int \<Rightarrow> int \<Rightarrow> drop_pc \<Rightarrow> bool" where
  "pc_ok start clock pc \<longleftrightarrow>
     (case pc of
        Clocked now \<Rightarrow> start \<le> now \<and> now \<le> clock
      | Loaded now seen \<Rightarrow> start \<le> now \<and> now \<le> clock \<and> (seen = 0 \<or> drop_warn_interval \<le> now - seen)
      | _ \<Rightarrow> True)"

definition spaced :: "int list \<Rightarrow> bool" where
  "spaced ts \<longleftrightarrow> (\<forall>i. Suc i < length ts \<longrightarrow> drop_warn_interval \<le> ts ! Suc i - ts ! i)"

lemma spaced_snoc:
  "spaced ts \<Longrightarrow> (ts \<noteq> [] \<Longrightarrow> drop_warn_interval \<le> t - last ts) \<Longrightarrow> spaced (ts @ [t])"
  by (cases ts rule: rev_cases)
    (auto simp: spaced_def nth_append less_Suc_eq last_conv_nth)

lemma spaced_length:
  assumes "spaced ts" "ts \<noteq> []"
  shows "drop_warn_interval * (int (length ts) - 1) \<le> last ts - hd ts"
  using assms
proof (induction ts rule: rev_induct)
  case (snoc t ts)
  show ?case
  proof (cases "ts = []")
    case False
    have "spaced ts" unfolding spaced_def
    proof (intro allI impI)
      fix i assume i: "Suc i < length ts"
      with snoc.prems(1) have "drop_warn_interval \<le> (ts @ [t]) ! Suc i - (ts @ [t]) ! i"
        unfolding spaced_def by (metis length_append_singleton less_SucI)
      with i show "drop_warn_interval \<le> ts ! Suc i - ts ! i" by (simp add: nth_append)
    qed
    with snoc.IH False have "drop_warn_interval * (int (length ts) - 1) \<le> last ts - hd ts" by simp
    moreover have "drop_warn_interval \<le> t - last ts"
    proof -
      have "Suc (length ts - 1) < length (ts @ [t])" using False by simp
      with snoc.prems(1) have "drop_warn_interval \<le> (ts @ [t]) ! Suc (length ts - 1) - (ts @ [t]) ! (length ts - 1)"
        unfolding spaced_def by blast
      with False show ?thesis by (simp add: nth_append last_conv_nth)
    qed
    ultimately show ?thesis using False by (simp add: algebra_simps)
  qed simp
qed simp

definition drop_inv :: "int \<Rightarrow> int \<Rightarrow> int list \<Rightarrow> int list \<Rightarrow> drop_state \<Rightarrow> bool" where
  "drop_inv start n wins warns s \<longleftrightarrow>
     n = ds_dropped s + sum_list warns
     \<and> spaced wins \<and> (\<forall>t \<in> set wins. start \<le> t \<and> t \<le> ds_clock s) \<and> start \<le> ds_clock s
     \<and> ds_last_warned s = (if wins = [] then 0 else last wins)
     \<and> (\<forall>i. pc_ok start (ds_clock s) (ds_pc s i))
     \<and> finite {i. ds_pc s i = Swapping}
     \<and> length wins = length warns + card {i. ds_pc s i = Swapping}"

lemma pc_ok_later: "pc_ok start c pc \<Longrightarrow> pc_ok start (c + int d) pc"
  by (auto simp: pc_ok_def split: drop_pc.splits)

text \<open>The goroutines in the middle of a warning after one of them moved.\<close>

lemma swapping_other:
  "pc \<noteq> Swapping \<Longrightarrow> ds_pc s i \<noteq> Swapping \<Longrightarrow>
   {j. ds_pc (set_pc i pc s) j = Swapping} = {j. ds_pc s j = Swapping}"
  by (auto simp: set_pc_def)

lemma set_pc_fields [simp]:
  "ds_dropped (set_pc i pc s) = ds_dropped s" "ds_last_warned (set_pc i pc s) = ds_last_warned s"
  "ds_clock (set_pc i pc s) = ds_clock s" "ds_pc (set_pc i pc s) j = (if j = i then pc else ds_pc s j)"
  by (simp_all add: set_pc_def)

lemma quiet_step_inv:
  assumes "drop_inv start n wins warns s" "ds_pc s i \<noteq> Swapping" "pc \<noteq> Swapping"
    and "pc_ok start (ds_clock s) pc"
  shows "drop_inv start n wins warns (set_pc i pc s)"
  using assms swapping_other [OF assms(3,2)] unfolding drop_inv_def by simp

lemma drop_step_inv:
  assumes "drop_step a s = Some s'" "drop_inv start n wins warns s" "0 < start"
  shows "drop_inv start (n + adds_of a) (wins @ wins_of a s) (warns @ warned_of a s) s'"
proof (cases a)
  case (Advance d)
  with assms(1,2) show ?thesis
    by (auto simp: drop_inv_def adds_of_def wins_of_def warned_of_def intro!: pc_ok_later)
next
  case (Add i)
  then have pc: "ds_pc s i = Outside" and s': "s' = set_pc i Added (s\<lparr>ds_dropped := ds_dropped s + 1\<rparr>)"
    using assms(1) by (auto split: drop_pc.splits)
  have "drop_inv start (n + 1) wins warns (s\<lparr>ds_dropped := ds_dropped s + 1\<rparr>)"
    using assms(2) by (simp add: drop_inv_def)
  then have "drop_inv start (n + 1) wins warns s'"
    unfolding s' by (rule quiet_step_inv) (simp_all add: pc pc_ok_def)
  with Add show ?thesis by (simp add: adds_of_def wins_of_def warned_of_def)
next
  case (Read_clock i)
  then have pc: "ds_pc s i = Added" and s': "s' = set_pc i (Clocked (ds_clock s)) s"
    using assms(1) by (auto split: drop_pc.splits)
  have "drop_inv start n wins warns s'"
    unfolding s' using assms(2)
    by (rule quiet_step_inv) (use assms(2) in \<open>simp_all add: pc pc_ok_def drop_inv_def\<close>)
  with Read_clock show ?thesis by (simp add: adds_of_def wins_of_def warned_of_def)
next
  case (Load i)
  then obtain now where pc: "ds_pc s i = Clocked now"
    using assms(1) by (auto split: drop_pc.splits)
  then have now: "start \<le> now" "now \<le> ds_clock s"
    using assms(2) by (auto simp: drop_inv_def pc_ok_def dest: spec [of _ i])
  have "s' = set_pc i Outside s \<or>
      s' = set_pc i (Loaded now (ds_last_warned s)) s
      \<and> (ds_last_warned s = 0 \<or> drop_warn_interval \<le> now - ds_last_warned s)"
    using assms(1) Load pc by (auto simp: Let_def split: if_splits)
  then have "drop_inv start n wins warns s'"
    using assms(2) pc now by (auto intro!: quiet_step_inv simp: pc_ok_def)
  with Load show ?thesis by (simp add: adds_of_def wins_of_def warned_of_def)
next
  case (Cas i)
  then obtain now l where pc: "ds_pc s i = Loaded now l"
    using assms(1) by (auto split: drop_pc.splits)
  then have now: "start \<le> now" "now \<le> ds_clock s" "l = 0 \<or> drop_warn_interval \<le> now - l"
    using assms(2) by (auto simp: drop_inv_def pc_ok_def dest: spec [of _ i])
  show ?thesis
  proof (cases "ds_last_warned s = l")
    case False
    then have s': "s' = set_pc i Outside s" using assms(1) Cas pc by simp
    have "drop_inv start n wins warns s'"
      unfolding s' using assms(2) by (rule quiet_step_inv) (simp_all add: pc pc_ok_def)
    with False Cas pc show ?thesis by (simp add: adds_of_def wins_of_def warned_of_def)
  next
    case True
    then have s': "s' = set_pc i Swapping (s\<lparr>ds_last_warned := now\<rparr>)" using assms(1) Cas pc by simp
    have "spaced (wins @ [now])"
    proof (rule spaced_snoc)
      show "spaced wins" using assms(2) by (simp add: drop_inv_def)
      assume ne: "wins \<noteq> []"
      then have "l = last wins" "start \<le> last wins"
        using assms(2) True by (auto simp: drop_inv_def)
      with now(3) assms(3) show "drop_warn_interval \<le> now - last wins" by auto
    qed
    moreover have "{j. ds_pc s' j = Swapping} = insert i {j. ds_pc s j = Swapping}"
      unfolding s' by auto
    moreover have "i \<notin> {j. ds_pc s j = Swapping}" using pc by simp
    ultimately have "drop_inv start n (wins @ [now]) warns s'"
      using assms(2) now unfolding drop_inv_def by (simp add: s' pc_ok_def)
    with True Cas pc show ?thesis by (simp add: adds_of_def wins_of_def warned_of_def)
  qed
next
  case (Swap i)
  then have pc: "ds_pc s i = Swapping" and s': "s' = set_pc i Outside (s\<lparr>ds_dropped := 0\<rparr>)"
    using assms(1) by (auto split: drop_pc.splits)
  have "{j. ds_pc s' j = Swapping} = {j. ds_pc s j = Swapping} - {i}"
    unfolding s' by auto
  moreover have "0 < card {j. ds_pc s j = Swapping}"
    using assms(2) pc by (auto simp: drop_inv_def card_gt_0_iff)
  ultimately have "drop_inv start n wins (warns @ [ds_dropped s]) s'"
    using assms(2) pc unfolding drop_inv_def by (simp add: s' pc_ok_def card_Diff_singleton)
  with Swap show ?thesis by (simp add: adds_of_def wins_of_def warned_of_def)
qed

lemma drop_exec_inv:
  "drop_exec clock n wins warns s \<Longrightarrow> 0 < clock \<Longrightarrow> drop_inv clock n wins warns s"
proof (induction rule: drop_exec.induct)
  case drop_init
  then show ?case by (simp add: drop_inv_def drop_start_def spaced_def pc_ok_def)
qed (auto intro: drop_step_inv)

section \<open>Property\<close>

text \<open>
  C36: the warnings about dropped lines are rate-limited and lose no count, however the goroutines
  interleave: every drop is in the count of exactly one warning or still pending, no more warnings are
  logged than compare-and-swaps won, two wins are at least \<open>dropWarnInterval\<close> apart, so in a time
  \<open>T\<close> there are at most \<open>T / dropWarnInterval + 1\<close> of them.
\<close>

theorem drop_warnings_bounded:
  assumes "drop_exec clock n wins warns s" "0 < clock"
  shows "n = ds_dropped s + sum_list warns \<and> length warns \<le> length wins
    \<and> (\<forall>i. Suc i < length wins \<longrightarrow> drop_warn_interval \<le> wins ! Suc i - wins ! i)
    \<and> drop_warn_interval * (int (length wins) - 1) \<le> ds_clock s - clock"
proof -
  have inv: "drop_inv clock n wins warns s" using drop_exec_inv [OF assms] .
  have "drop_warn_interval * (int (length wins) - 1) \<le> ds_clock s - clock"
  proof (cases "wins = []")
    case True
    then show ?thesis using inv by (simp add: drop_inv_def drop_warn_interval_def second_ns_def)
  next
    case False
    then have "clock \<le> hd wins" "last wins \<le> ds_clock s" using inv by (auto simp: drop_inv_def)
    with spaced_length [OF _ False] inv show ?thesis by (fastforce simp: drop_inv_def)
  qed
  with inv show ?thesis by (simp add: drop_inv_def spaced_def)
qed

text \<open>Two goroutines drop a line each: the first one's warning counts both.\<close>

lemma drop_warnings_bounded_witness:
  "\<exists>s. drop_exec 1 2 [1] [2] s \<and> 2 = ds_dropped s + sum_list [2]"
proof -
  have step: "drop_exec 1 (n + adds_of a) (wins @ wins_of a s) (warns @ warned_of a s) (the (drop_step a s))"
    if "drop_exec 1 n wins warns s" "drop_step a s \<noteq> None" for n wins warns s a
    using that drop_next [of 1 n wins warns s a] by auto
  note defs = adds_of_def wins_of_def warned_of_def set_pc_def drop_start_def
  note e0 = drop_init [of 1]
  note e1 = step [OF e0, of "Add 0", simplified defs, simplified]
  note e2 = step [OF e1, of "Add 1", simplified defs, simplified]
  note e3 = step [OF e2, of "Read_clock 0", simplified defs, simplified]
  note e4 = step [OF e3, of "Load 0", simplified defs Let_def, simplified]
  note e5 = step [OF e4, of "Cas 0", simplified defs, simplified]
  note e6 = step [OF e5, of "Swap 0", simplified defs, simplified]
  from drop_warnings_bounded [OF e6] e6 show ?thesis by auto
qed

end
