(* ===== verification/Broadcast.thy ===== *)
theory Broadcast
  imports Main "HOL-Library.Sublist" Prelude Store
begin

text \<open>
  \<open>Broadcaster\<close> of \<open>internal/storage/broadcast.go\<close>: the set of subscriber channels behind a mutex,
  and \<open>Publish\<close>, which sends to each of them without ever blocking. Channels are numbered; \<open>bc_step\<close>
  is one atomic step of a publisher that holds the mutex (one channel operation), of a caller of
  \<open>Subscribe\<close> or of an unsubscribe function, or of a subscriber that receives. Subscribers receive
  at any time, also between the three channel operations of \<open>Publish\<close>.
\<close>

section \<open>State\<close>

definition subscriber_buffer_size :: nat where
  "subscriber_buffer_size = 256"

text \<open>
  Where the publisher is, with the line and the channels of the \<open>range\<close> that are left: before the
  first select for the next channel, before the eviction, before the second attempt to send.
\<close>

datatype pub_pc =
    No_publish
  | Publishing log_line "nat list"
  | Evicting log_line nat "nat list"
  | Retrying log_line nat "nat list"

record broadcaster =
  bc_subs :: "nat list"
  bc_buf :: "nat \<Rightarrow> log_line list"
  bc_closed :: "nat \<Rightarrow> bool"
  bc_next :: nat
  bc_leaving :: "nat list"
  bc_pub :: pub_pc

definition new_broadcaster :: broadcaster where
  "new_broadcaster = \<lparr>bc_subs = [], bc_buf = (\<lambda>_. []), bc_closed = (\<lambda>_. False), bc_next = 0,
     bc_leaving = [], bc_pub = No_publish\<rparr>"

section \<open>Operations\<close>

text \<open>\<open>Subscribe\<close> makes a channel and puts it into the map; the result is its number.\<close>

definition subscribe :: "broadcaster \<Rightarrow> broadcaster \<times> nat" where
  "subscribe b =
     (let ch = bc_next b
      in (b\<lparr>bc_subs := ch # bc_subs b, bc_buf := (bc_buf b)(ch := []), bc_next := Suc ch\<rparr>, ch))"

text \<open>
  The unsubscribe function: under the mutex the channel leaves the map, then it is closed. The
  \<open>sync.Once\<close> makes it run once for a channel.
\<close>

definition unsubscribe_delete :: "nat \<Rightarrow> broadcaster \<Rightarrow> broadcaster" where
  "unsubscribe_delete ch b =
     b\<lparr>bc_subs := filter (\<lambda>c. c \<noteq> ch) (bc_subs b), bc_leaving := ch # bc_leaving b\<rparr>"

definition unsubscribe_close :: "nat \<Rightarrow> broadcaster \<Rightarrow> broadcaster" where
  "unsubscribe_close ch b =
     b\<lparr>bc_closed := (bc_closed b)(ch := True), bc_leaving := filter (\<lambda>c. c \<noteq> ch) (bc_leaving b)\<rparr>"

definition subscriber_count :: "broadcaster \<Rightarrow> nat" where
  "subscriber_count b = length (bc_subs b)"

definition has_room :: "broadcaster \<Rightarrow> nat \<Rightarrow> bool" where
  "has_room b ch \<longleftrightarrow> length (bc_buf b ch) < subscriber_buffer_size"

definition send :: "nat \<Rightarrow> log_line \<Rightarrow> broadcaster \<Rightarrow> broadcaster" where
  "send ch l b = b\<lparr>bc_buf := (bc_buf b)(ch := bc_buf b ch @ [l])\<rparr>"

definition receive_from :: "nat \<Rightarrow> broadcaster \<Rightarrow> broadcaster" where
  "receive_from ch b = b\<lparr>bc_buf := (bc_buf b)(ch := tl (bc_buf b ch))\<rparr>"

text \<open>The three steps of \<open>Publish\<close> for one channel.\<close>

definition publish_first :: "log_line \<Rightarrow> nat \<Rightarrow> nat list \<Rightarrow> broadcaster \<Rightarrow> broadcaster" where
  "publish_first l ch rest b =
     (if has_room b ch then (send ch l b)\<lparr>bc_pub := Publishing l rest\<rparr>
      else b\<lparr>bc_pub := Evicting l ch rest\<rparr>)"

definition publish_evict :: "log_line \<Rightarrow> nat \<Rightarrow> nat list \<Rightarrow> broadcaster \<Rightarrow> broadcaster" where
  "publish_evict l ch rest b = (receive_from ch b)\<lparr>bc_pub := Retrying l ch rest\<rparr>"

definition publish_retry :: "log_line \<Rightarrow> nat \<Rightarrow> nat list \<Rightarrow> broadcaster \<Rightarrow> broadcaster" where
  "publish_retry l ch rest b =
     (if has_room b ch then (send ch l b)\<lparr>bc_pub := Publishing l rest\<rparr>
      else b\<lparr>bc_pub := Publishing l rest\<rparr>)"

section \<open>Steps\<close>

datatype bc_action =
    Subscribe
  | Unsubscribe nat | Close_channel nat
  | Publish log_line "nat list" | Publish_step
  | Receive nat

fun bc_step :: "bc_action \<Rightarrow> broadcaster \<Rightarrow> broadcaster option" where
  "bc_step Subscribe b = (if bc_pub b = No_publish then Some (fst (subscribe b)) else None)"
| "bc_step (Unsubscribe ch) b =
     (if bc_pub b = No_publish \<and> ch \<in> set (bc_subs b) then Some (unsubscribe_delete ch b) else None)"
| "bc_step (Close_channel ch) b =
     (if ch \<in> set (bc_leaving b) then Some (unsubscribe_close ch b) else None)"
| "bc_step (Publish l order) b =
     (if bc_pub b = No_publish \<and> distinct order \<and> set order = set (bc_subs b)
      then Some (b\<lparr>bc_pub := Publishing l order\<rparr>) else None)"
| "bc_step Publish_step b =
     (case bc_pub b of
        No_publish \<Rightarrow> None
      | Publishing l [] \<Rightarrow> Some (b\<lparr>bc_pub := No_publish\<rparr>)
      | Publishing l (ch # rest) \<Rightarrow> Some (publish_first l ch rest b)
      | Evicting l ch rest \<Rightarrow> Some (publish_evict l ch rest b)
      | Retrying l ch rest \<Rightarrow> Some (publish_retry l ch rest b))"
| "bc_step (Receive ch) b = (if bc_buf b ch \<noteq> [] then Some (receive_from ch b) else None)"

text \<open>A step panics when it sends on a closed channel or closes a channel again.\<close>

definition bc_panics :: "bc_action \<Rightarrow> broadcaster \<Rightarrow> bool" where
  "bc_panics a b =
     (case a of
        Close_channel ch \<Rightarrow> ch \<in> set (bc_leaving b) \<and> bc_closed b ch
      | Publish_step \<Rightarrow>
          (case bc_pub b of
             Publishing l (ch # rest) \<Rightarrow> bc_closed b ch
           | Retrying l ch rest \<Rightarrow> bc_closed b ch
           | _ \<Rightarrow> False)
      | _ \<Rightarrow> False)"

text \<open>
  The histories of a channel: what was published to it (each line when \<open>Publish\<close> is done with this
  channel), and what its subscriber received.
\<close>

definition published_by :: "bc_action \<Rightarrow> broadcaster \<Rightarrow> nat \<Rightarrow> log_line list" where
  "published_by a b c =
     (case a of
        Publish_step \<Rightarrow>
          (case bc_pub b of
             Publishing l (ch # rest) \<Rightarrow> if ch = c \<and> has_room b ch then [l] else []
           | Retrying l ch rest \<Rightarrow> if ch = c then [l] else []
           | _ \<Rightarrow> [])
      | _ \<Rightarrow> [])"

definition received_by :: "bc_action \<Rightarrow> broadcaster \<Rightarrow> nat \<Rightarrow> log_line list" where
  "received_by a b c = (case a of Receive ch \<Rightarrow> if ch = c then take 1 (bc_buf b ch) else [] | _ \<Rightarrow> [])"

inductive bc_exec ::
  "(nat \<Rightarrow> log_line list) \<Rightarrow> (nat \<Rightarrow> log_line list) \<Rightarrow> broadcaster \<Rightarrow> bool" where
  bc_start: "bc_exec (\<lambda>_. []) (\<lambda>_. []) new_broadcaster"
| bc_next: "bc_exec pubs got b \<Longrightarrow> bc_step a b = Some b' \<Longrightarrow>
    bc_exec (\<lambda>c. pubs c @ published_by a b c) (\<lambda>c. got c @ received_by a b c) b'"

section \<open>The invariant\<close>

definition in_publish :: "pub_pc \<Rightarrow> nat list" where
  "in_publish p =
     (case p of
        No_publish \<Rightarrow> [] | Publishing l rest \<Rightarrow> rest
      | Evicting l ch rest \<Rightarrow> ch # rest | Retrying l ch rest \<Rightarrow> ch # rest)"

definition bc_inv :: "broadcaster \<Rightarrow> bool" where
  "bc_inv b \<longleftrightarrow> distinct (bc_subs b) \<and> distinct (bc_leaving b)
     \<and> set (bc_subs b) \<inter> set (bc_leaving b) = {}
     \<and> (\<forall>c. c \<in> set (bc_subs b) \<union> set (bc_leaving b) \<longrightarrow> \<not> bc_closed b c \<and> c < bc_next b)
     \<and> (\<forall>c \<ge> bc_next b. bc_buf b c = [] \<and> \<not> bc_closed b c)
     \<and> distinct (in_publish (bc_pub b)) \<and> set (in_publish (bc_pub b)) \<subseteq> set (bc_subs b)
     \<and> (\<forall>c. length (bc_buf b c) \<le> subscriber_buffer_size)
     \<and> (\<forall>l ch rest. bc_pub b = Retrying l ch rest \<longrightarrow> has_room b ch)"

lemma bc_inv_new: "bc_inv new_broadcaster"
  by (simp add: bc_inv_def new_broadcaster_def in_publish_def subscriber_buffer_size_def)

lemma publish_step_cases:
  assumes "bc_step Publish_step b = Some b'"
  obtains l where "bc_pub b = Publishing l []" "b' = b\<lparr>bc_pub := No_publish\<rparr>"
  | l ch rest where "bc_pub b = Publishing l (ch # rest)" "has_room b ch"
      "b' = (send ch l b)\<lparr>bc_pub := Publishing l rest\<rparr>"
  | l ch rest where "bc_pub b = Publishing l (ch # rest)" "\<not> has_room b ch"
      "b' = b\<lparr>bc_pub := Evicting l ch rest\<rparr>"
  | l ch rest where "bc_pub b = Evicting l ch rest" "b' = publish_evict l ch rest b"
  | l ch rest where "bc_pub b = Retrying l ch rest" "b' = publish_retry l ch rest b"
  using assms by (auto simp: publish_first_def split: pub_pc.splits list.splits if_splits)

lemma publish_step_inv:
  assumes "bc_step Publish_step b = Some b'" "bc_inv b"
  shows "bc_inv b'"
  using assms(1)
proof (cases rule: publish_step_cases)
  case (1 l)
  with assms(2) show ?thesis by (simp add: bc_inv_def in_publish_def)
next
  case (2 l ch rest)
  with assms(2) show ?thesis by (auto simp: bc_inv_def in_publish_def send_def has_room_def)
next
  case (3 l ch rest)
  with assms(2) show ?thesis by (simp add: bc_inv_def in_publish_def)
next
  case (4 l ch rest)
  have "length (tl (bc_buf b ch)) < subscriber_buffer_size"
  proof -
    have "length (bc_buf b ch) \<le> subscriber_buffer_size" using assms(2) by (simp add: bc_inv_def)
    then show ?thesis by (auto simp: subscriber_buffer_size_def)
  qed
  with 4 assms(2) show ?thesis
    by (auto simp: bc_inv_def in_publish_def publish_evict_def receive_from_def has_room_def)
next
  case (5 l ch rest)
  with assms(2) show ?thesis
    by (auto simp: bc_inv_def in_publish_def publish_retry_def send_def has_room_def)
qed

lemma bc_step_inv:
  assumes "bc_step a b = Some b'" "bc_inv b"
  shows "bc_inv b'"
proof (cases a)
  case Subscribe
  with assms show ?thesis
    by (auto simp: bc_inv_def subscribe_def Let_def in_publish_def subscriber_buffer_size_def
        split: if_splits)
next
  case (Unsubscribe ch)
  with assms show ?thesis
    by (auto simp: bc_inv_def unsubscribe_delete_def in_publish_def split: if_splits)
next
  case (Close_channel ch)
  with assms show ?thesis
    by (auto simp: bc_inv_def unsubscribe_close_def has_room_def split: if_splits)
next
  case (Publish l order)
  with assms show ?thesis by (auto simp: bc_inv_def in_publish_def split: if_splits)
next
  case Publish_step
  with assms publish_step_inv show ?thesis by simp
next
  case (Receive ch)
  have "length (tl xs) \<le> n" if "length xs \<le> n" for xs :: "log_line list" and n using that by simp
  with Receive assms show ?thesis
    by (auto simp: bc_inv_def receive_from_def has_room_def split: if_splits)
qed

lemma bc_exec_inv: "bc_exec pubs got b \<Longrightarrow> bc_inv b"
  by (induction rule: bc_exec.induct) (auto intro: bc_inv_new bc_step_inv)


section \<open>What a subscriber sees\<close>

definition hist_inv :: "log_line list \<Rightarrow> log_line list \<Rightarrow> broadcaster \<Rightarrow> nat \<Rightarrow> bool" where
  "hist_inv pubs got b c \<longleftrightarrow> subseq (got @ bc_buf b c) pubs
     \<and> ((\<forall>l rest. bc_pub b \<noteq> Retrying l c rest) \<and> pubs \<noteq> [] \<longrightarrow>
          got @ bc_buf b c \<noteq> [] \<and> last (got @ bc_buf b c) = last pubs)"

lemma subseq_tl: "subseq (xs @ tl ys) (xs @ ys)"
  by (cases ys) (auto intro: list_emb_append_mono)

lemma subseq_snoc: "subseq xs ys \<Longrightarrow> subseq (xs @ [l]) (ys @ [l])"
  by (rule list_emb_append_mono) simp_all

lemma publish_hist:
  assumes "bc_step Publish_step b = Some b'" "bc_inv b" "hist_inv pubs got b c"
  shows "hist_inv (pubs @ published_by Publish_step b c) got b' c"
  using assms(1)
proof (cases rule: publish_step_cases)
  case (1 l)
  with assms(3) show ?thesis by (simp add: hist_inv_def published_by_def)
next
  case (2 l ch rest)
  have "subseq (got @ bc_buf b c @ [l]) (pubs @ [l])"
    using assms(3) subseq_snoc [of "got @ bc_buf b c" pubs l] by (simp add: hist_inv_def)
  with 2 assms(3) show ?thesis by (auto simp: hist_inv_def published_by_def send_def)
next
  case (3 l ch rest)
  with assms(3) show ?thesis by (simp add: hist_inv_def published_by_def)
next
  case (4 l ch rest)
  have "subseq (got @ tl (bc_buf b c)) pubs"
    using assms(3) subseq_tl subseq_order.order_trans unfolding hist_inv_def by blast
  with 4 assms(3) show ?thesis
    by (auto simp: hist_inv_def published_by_def publish_evict_def receive_from_def)
next
  case (5 l ch rest)
  then have room: "has_room b ch" using assms(2) by (simp add: bc_inv_def)
  have "subseq (got @ bc_buf b c @ [l]) (pubs @ [l])"
    using assms(3) subseq_snoc [of "got @ bc_buf b c" pubs l] by (simp add: hist_inv_def)
  with 5 room assms(3) show ?thesis
    by (auto simp: hist_inv_def published_by_def publish_retry_def send_def)
qed

lemma bc_step_hist:
  assumes "bc_step a b = Some b'" "bc_inv b" "hist_inv pubs got b c"
  shows "hist_inv (pubs @ published_by a b c) (got @ received_by a b c) b' c"
proof (cases a)
  case Publish_step
  with publish_hist assms show ?thesis by (simp add: received_by_def)
next
  case Subscribe
  have "c = bc_next b \<Longrightarrow> bc_buf b c = []" using assms(2) by (simp add: bc_inv_def)
  with Subscribe assms show ?thesis
    by (auto simp: hist_inv_def subscribe_def Let_def published_by_def received_by_def split: if_splits)
next
  case (Receive ch)
  then have b': "b' = receive_from ch b" and ne: "bc_buf b ch \<noteq> []"
    using assms(1) by (auto split: if_splits)
  have "take 1 xs @ tl xs = xs" if "xs \<noteq> []" for xs :: "log_line list" using that by (cases xs) auto
  then have "(got @ received_by a b c) @ bc_buf b' c = got @ bc_buf b c"
    using Receive ne by (simp add: b' receive_from_def received_by_def)
  moreover have "bc_pub b' = bc_pub b" by (simp add: b' receive_from_def)
  ultimately show ?thesis
    using assms(3) Receive unfolding hist_inv_def by (simp add: published_by_def)
next
  case (Unsubscribe ch)
  with assms show ?thesis
    by (auto simp: hist_inv_def unsubscribe_delete_def published_by_def received_by_def split: if_splits)
next
  case (Close_channel ch)
  with assms show ?thesis
    by (auto simp: hist_inv_def unsubscribe_close_def published_by_def received_by_def split: if_splits)
next
  case (Publish l order)
  with assms show ?thesis
    by (auto simp: hist_inv_def published_by_def received_by_def split: if_splits)
qed

lemma bc_exec_hist: "bc_exec pubs got b \<Longrightarrow> hist_inv (pubs c) (got c) b c"
proof (induction rule: bc_exec.induct)
  case bc_start
  then show ?case by (simp add: hist_inv_def new_broadcaster_def)
next
  case (bc_next pubs got b a b')
  with bc_exec_inv bc_step_hist show ?case by blast
qed

section \<open>Properties\<close>

text \<open>
  A subscriber of the live tail sees lines in the order they were published, each at most once,
  never waits for more than 256 lines, and always gets the most recent one: unless \<open>Publish\<close> is in
  the middle of making room for it, the newest published line is received or in the channel.
\<close>

theorem live_tail_order:
  assumes "bc_exec pubs got b"
  shows "subseq (got c @ bc_buf b c) (pubs c) \<and> length (bc_buf b c) \<le> subscriber_buffer_size
    \<and> (bc_pub b = No_publish \<and> pubs c \<noteq> [] \<longrightarrow> last (got c @ bc_buf b c) = last (pubs c)
         \<and> got c @ bc_buf b c \<noteq> [])"
  using bc_exec_hist [OF assms, of c] bc_exec_inv [OF assms]
  by (auto simp: hist_inv_def bc_inv_def)

lemma bc_inv_no_panic:
  assumes "bc_inv b"
  shows "\<not> bc_panics a b"
proof (cases a)
  case (Close_channel ch)
  with assms show ?thesis by (auto simp: bc_panics_def bc_inv_def)
next
  case Publish_step
  with assms show ?thesis
    by (auto simp: bc_panics_def bc_inv_def in_publish_def split: pub_pc.splits list.splits)
qed (simp_all add: bc_panics_def)

text \<open>
  \<open>Publish\<close> never sends on a closed channel and no channel is closed twice, whatever the order
  of subscriptions, unsubscriptions, receives and publishes.
\<close>

theorem broadcaster_never_panics:
  assumes "bc_exec pubs got b"
  shows "\<not> bc_panics a b"
  using bc_exec_inv [OF assms] by (rule bc_inv_no_panic)

text \<open>The steps that the publisher still has to do.\<close>

definition publish_rank :: "broadcaster \<Rightarrow> nat" where
  "publish_rank b =
     (case bc_pub b of
        No_publish \<Rightarrow> 0 | Publishing l rest \<Rightarrow> 3 * length rest + 1
      | Evicting l ch rest \<Rightarrow> 3 * length rest + 3 | Retrying l ch rest \<Rightarrow> 3 * length rest + 2)"

text \<open>
  C37: a stalled subscriber never holds up ingestion: whatever the subscribers do, the publisher
  always has a next step, each one brings it nearer to its end, and a whole \<open>Publish\<close> to \<open>n\<close>
  subscribers takes at most \<open>3 * n + 1\<close> steps.
\<close>

theorem publish_never_blocks:
  assumes "bc_exec pubs got b"
  shows "(bc_pub b \<noteq> No_publish \<longrightarrow>
       (\<exists>b'. bc_step Publish_step b = Some b' \<and> publish_rank b' < publish_rank b))
    \<and> (\<forall>l order b'. bc_step (Publish l order) b = Some b' \<longrightarrow>
         publish_rank b' = 3 * subscriber_count b + 1)"
proof (intro conjI impI allI)
  assume "bc_pub b \<noteq> No_publish"
  then have "bc_step Publish_step b \<noteq> None"
    by (cases "bc_pub b") (auto split: list.splits)
  then obtain b' where b': "bc_step Publish_step b = Some b'" by blast
  then have "publish_rank b' < publish_rank b"
    by (cases rule: publish_step_cases)
      (auto simp: publish_rank_def publish_evict_def publish_retry_def send_def receive_from_def)
  with b' show "\<exists>b'. bc_step Publish_step b = Some b' \<and> publish_rank b' < publish_rank b" by blast
next
  fix l order b' assume "bc_step (Publish l order) b = Some b'"
  then have "b' = b\<lparr>bc_pub := Publishing l order\<rparr>" "distinct order" "set order = set (bc_subs b)"
    by (auto split: if_splits)
  moreover have "distinct (bc_subs b)" using bc_exec_inv [OF assms] by (simp add: bc_inv_def)
  ultimately show "publish_rank b' = 3 * subscriber_count b + 1"
    using distinct_card [of order] distinct_card [of "bc_subs b"]
    by (simp add: publish_rank_def subscriber_count_def)
qed


section \<open>An execution\<close>

text \<open>One subscriber, and a line that is published while it does not receive.\<close>

lemma bc_next_the:
  "bc_exec pubs got b \<Longrightarrow> bc_step a b \<noteq> None \<Longrightarrow>
   bc_exec (\<lambda>c. pubs c @ published_by a b c) (\<lambda>c. got c @ received_by a b c) (the (bc_step a b))"
  using bc_next [of pubs got b a] by auto

lemma example_tail:
  obtains pubs got b where "bc_exec pubs got b" "pubs 0 = [example_line]" "bc_pub b = No_publish"
    "bc_buf b 0 = [example_line]"
proof -
  note defs = published_by_def received_by_def new_broadcaster_def subscribe_def Let_def
    publish_first_def has_room_def subscriber_buffer_size_def send_def
  note e1 = bc_next_the [OF bc_start, of Subscribe, simplified defs, simplified]
  note e2 = bc_next_the [OF e1, of "Publish example_line [0]", simplified defs, simplified]
  note e3 = bc_next_the [OF e2, of Publish_step, simplified defs, simplified]
  note e4 = bc_next_the [OF e3, of Publish_step, simplified defs, simplified]
  show ?thesis by (rule that [OF e4]) simp_all
qed

lemma example_publishing:
  obtains pubs got b where "bc_exec pubs got b" "bc_pub b = Publishing example_line [0]"
proof -
  note defs = published_by_def received_by_def new_broadcaster_def subscribe_def Let_def
  note e1 = bc_next_the [OF bc_start, of Subscribe, simplified defs, simplified]
  note e2 = bc_next_the [OF e1, of "Publish example_line [0]", simplified defs, simplified]
  show ?thesis by (rule that [OF e2]) simp_all
qed

lemma live_tail_order_witness:
  "\<exists>pubs got b. bc_exec pubs got b \<and> pubs 0 = [example_line]
     \<and> last (got 0 @ bc_buf b 0) = example_line"
proof -
  obtain pubs got b where e: "bc_exec pubs got b" "pubs 0 = [example_line]" "bc_pub b = No_publish"
    by (rule example_tail)
  with live_tail_order [OF e(1), of 0] show ?thesis by fastforce
qed

lemma broadcaster_never_panics_witness:
  "\<exists>pubs got b. bc_exec pubs got b \<and> bc_pub b = Publishing example_line [0] \<and> \<not> bc_panics Publish_step b"
proof -
  obtain pubs got b where e: "bc_exec pubs got b" "bc_pub b = Publishing example_line [0]"
    by (rule example_publishing)
  with broadcaster_never_panics [OF e(1)] show ?thesis by blast
qed

lemma publish_never_blocks_witness:
  "\<exists>pubs got b b'. bc_exec pubs got b \<and> bc_pub b = Publishing example_line [0]
     \<and> bc_step Publish_step b = Some b' \<and> publish_rank b' < publish_rank b"
proof -
  obtain pubs got b where e: "bc_exec pubs got b" "bc_pub b = Publishing example_line [0]"
    by (rule example_publishing)
  then have "bc_pub b \<noteq> No_publish" by simp
  with publish_never_blocks [OF e(1)] e show ?thesis by blast
qed

end
