(* ===== verification/Ingest.thy ===== *)
theory Ingest
  imports Main Prelude Go_Strings Go_Time Levels Store
begin

text \<open>
  Reading one stream of log text (\<open>ingest\<close>, \<open>setMarker\<close>, \<open>markerSince\<close>, \<open>deleteMarker\<close> of
  \<open>internal/tailer/manager.go\<close>): Go's \<open>bufio.Scanner\<close> with a buffer of at most 1 MiB cuts the text
  into lines, each line is stamped and handed to the sink, and the container's marker advances.
\<close>

section \<open>bufio.Scanner\<close>

definition max_token :: nat where
  "max_token = 1024 * 1024"

text \<open>\<open>bufio.ScanLines\<close> drops one carriage return at the end of a line.\<close>

definition drop_cr :: "string \<Rightarrow> string" where
  "drop_cr s = (if s \<noteq> [] \<and> last s = CHR 0x0D then butlast s else s)"

abbreviation newline :: char where "newline \<equiv> CHR 0x0A"

text \<open>
  The tokens of a text, and whether the scanner reached its end: when the newline of a line does
  not fit into the buffer, \<open>Scan\<close> returns false (\<open>ErrTooLong\<close>). The last line needs no newline.
\<close>

function scan_tokens :: "string \<Rightarrow> string list \<times> bool" where
  "scan_tokens s =
     (if s = [] then ([], True)
      else
        (let line = takeWhile (\<lambda>c. c \<noteq> newline) s
         in if max_token \<le> length line then ([], False)
            else
              (case dropWhile (\<lambda>c. c \<noteq> newline) s of
                 [] \<Rightarrow> ([drop_cr line], True)
               | _ # rest \<Rightarrow>
                   (let (toks, ok) = scan_tokens rest in (drop_cr line # toks, ok)))))"
  by pat_completeness auto
termination
proof (relation "measure length")
  fix s x c rest
  assume "dropWhile (\<lambda>c. c \<noteq> newline) s = c # rest"
  then have "length (c # rest) \<le> length s" by (metis length_dropWhile_le)
  then show "(rest, s) \<in> measure length" by simp
qed simp

declare scan_tokens.simps [simp del]

lemma scan_tokens_Nil [simp]: "scan_tokens [] = ([], True)"
  by (subst scan_tokens.simps) simp

lemma scan_tokens_line:
  assumes "newline \<notin> set l" "length l < max_token"
  shows "scan_tokens (l @ newline # s) =
    (drop_cr l # fst (scan_tokens s), snd (scan_tokens s))"
proof -
  have "takeWhile (\<lambda>c. c \<noteq> newline) (l @ newline # s) = l"
    "dropWhile (\<lambda>c. c \<noteq> newline) (l @ newline # s) = newline # s"
    using assms(1) by (auto intro: takeWhile_append_stop dropWhile_append_stop)
  with assms(2) show ?thesis by (subst scan_tokens.simps) (simp add: Let_def split_beta)
qed

lemma scan_tokens_too_long:
  assumes "newline \<notin> set l" "max_token \<le> length l"
  shows "scan_tokens (l @ s) = ([], False)"
proof -
  have "takeWhile (\<lambda>c. c \<noteq> newline) (l @ s) = l @ takeWhile (\<lambda>c. c \<noteq> newline) s"
    using assms(1) by (intro takeWhile_append2) auto
  moreover have "l \<noteq> []" using assms(2) by (auto simp: max_token_def)
  ultimately show ?thesis using assms(2) by (subst scan_tokens.simps) (simp add: Let_def)
qed

text \<open>
  What a container writes: lines, each with \<open>True\<close> when it ends with a carriage return and a newline,
  and with \<open>False\<close> when it ends with a newline alone. Such a list describes every text of whole lines:
  a line whose last byte is a carriage return is one that ends with both.
\<close>

type_synonym written_line = "string \<times> bool"

definition line_bytes :: "written_line \<Rightarrow> string" where
  "line_bytes l = fst l @ (if snd l then [CHR 0x0D] else [])"

definition lines_text :: "written_line list \<Rightarrow> string" where
  "lines_text ls = concat (map (\<lambda>l. line_bytes l @ [newline]) ls)"

text \<open>A line of less than 1 MiB.\<close>

definition fitting_line :: "written_line \<Rightarrow> bool" where
  "fitting_line l \<longleftrightarrow> newline \<notin> set (fst l) \<and> length (line_bytes l) < max_token
     \<and> (snd l \<or> fst l = [] \<or> last (fst l) \<noteq> CHR 0x0D)"

lemma drop_cr_line: "fitting_line l \<Longrightarrow> drop_cr (line_bytes l) = fst l"
  by (auto simp: fitting_line_def line_bytes_def drop_cr_def)

lemma newline_line_bytes: "fitting_line l \<Longrightarrow> newline \<notin> set (line_bytes l)"
  by (auto simp: fitting_line_def line_bytes_def)

lemma scan_lines_text:
  "\<forall>l \<in> set ls. fitting_line l \<Longrightarrow>
   scan_tokens (lines_text ls @ s) = (map fst ls @ fst (scan_tokens s), snd (scan_tokens s))"
proof (induction ls)
  case (Cons l ls)
  then have "newline \<notin> set (line_bytes l)" "length (line_bytes l) < max_token" "drop_cr (line_bytes l) = fst l"
    using newline_line_bytes [of l] drop_cr_line [of l] by (auto simp: fitting_line_def)
  with Cons scan_tokens_line [of "line_bytes l" "lines_text ls @ s"] show ?case by (simp add: lines_text_def)
qed (simp add: lines_text_def)

text \<open>A last line that the stream ends without a newline.\<close>

lemma scan_last_line:
  assumes "fitting_line l"
  shows "scan_tokens (line_bytes l) = (if line_bytes l = [] then [] else [fst l], True)"
proof (cases "line_bytes l = []")
  case False
  have n: "newline \<notin> set (line_bytes l)" using newline_line_bytes [OF assms] .
  then have t: "takeWhile (\<lambda>c. c \<noteq> newline) (line_bytes l) = line_bytes l"
    by (simp add: takeWhile_eq_all_conv) blast
  from n have d: "dropWhile (\<lambda>c. c \<noteq> newline) (line_bytes l) = []" by (simp add: dropWhile_eq_Nil_conv) blast
  have "\<not> max_token \<le> length (line_bytes l)" using assms by (simp add: fitting_line_def)
  then show ?thesis by (subst scan_tokens.simps) (simp add: t d False drop_cr_line [OF assms] Let_def)
qed simp

text \<open>A whole stream: \<open>lines_text\<close> and a last line without a newline, which is none when it is empty.\<close>

definition stream_text :: "written_line list \<Rightarrow> written_line \<Rightarrow> string" where
  "stream_text ls l = lines_text ls @ line_bytes l"

definition stream_lines :: "written_line list \<Rightarrow> written_line \<Rightarrow> string list" where
  "stream_lines ls l = map fst ls @ (if line_bytes l = [] then [] else [fst l])"

lemma scan_stream_text:
  "\<forall>x \<in> set (l # ls). fitting_line x \<Longrightarrow> scan_tokens (stream_text ls l) = (stream_lines ls l, True)"
  by (simp add: stream_text_def stream_lines_def scan_lines_text scan_last_line)

section \<open>Markers\<close>

datatype container_key = Container_key (ck_pod: string) (ck_container: string)

record marker =
  mk_ts :: go_time
  mk_resolved :: bool

type_synonym markers = "(container_key \<times> marker) list"

definition no_marker :: marker where
  "no_marker = \<lparr>mk_ts = zero_time, mk_resolved = False\<rparr>"

text \<open>Indexing a Go map gives the zero value for a key that it does not have.\<close>

definition marker_at :: "markers \<Rightarrow> container_key \<Rightarrow> marker" where
  "marker_at ms key = (case map_of ms key of None \<Rightarrow> no_marker | Some mk \<Rightarrow> mk)"

definition marker_since :: "container_key \<Rightarrow> markers \<Rightarrow> go_time" where
  "marker_since key ms = mk_ts (marker_at ms key)"

definition set_marker :: "container_key \<Rightarrow> go_time \<Rightarrow> markers \<Rightarrow> markers" where
  "set_marker key ts ms =
     (let cur = marker_at ms key;
          cur = (if after ts (mk_ts cur) then cur\<lparr>mk_ts := ts\<rparr> else cur)
      in upd key (cur\<lparr>mk_resolved := True\<rparr>) ms)"

definition delete_marker :: "container_key \<Rightarrow> markers \<Rightarrow> markers" where
  "delete_marker key ms = del key ms"

lemma marker_since_set:
  "marker_since key (set_marker k ts ms) =
     (if key = k then (if after ts (marker_since k ms) then ts else marker_since k ms)
      else marker_since key ms)"
  by (simp add: marker_since_def set_marker_def marker_at_def Let_def map_of_upd)

lemma marker_since_delete [simp]:
  "marker_since key (delete_marker k ms) = (if key = k then zero_time else marker_since key ms)"
  by (simp add: marker_since_def marker_at_def delete_marker_def map_of_del no_marker_def)

lemma marker_monotone: "\<not> before (marker_since key (set_marker k ts ms)) (marker_since key ms)"
  by (simp add: marker_since_set before_def after_def)

section \<open>ingest\<close>

definition ingested_line :: "string \<Rightarrow> container_key \<Rightarrow> string \<Rightarrow> go_time \<Rightarrow> log_line" where
  "ingested_line namespace key line ts =
     \<lparr>l_pod = ck_pod key, l_namespace = namespace, l_container = ck_container key, l_timestamp = ts,
      l_level = detect_level line, l_content = line\<rparr>"

text \<open>
  The loop: \<open>clock\<close> has the values of \<open>time.Now()\<close>, one for each line. The result has what the sink
  was handed.
\<close>

fun ingest_tokens ::
  "string \<Rightarrow> container_key \<Rightarrow> bool \<Rightarrow> (string \<times> go_time) list \<Rightarrow> markers \<Rightarrow> log_line list \<times> markers" where
  "ingest_tokens namespace key track [] ms = ([], ms)"
| "ingest_tokens namespace key track ((line, ts) # rest) ms =
     (let ms1 = (if track then set_marker key ts ms else ms);
          (out, ms2) = ingest_tokens namespace key track rest ms1
      in (ingested_line namespace key line ts # out, ms2))"

definition ingest ::
  "string \<Rightarrow> container_key \<Rightarrow> string \<Rightarrow> go_time list \<Rightarrow> bool \<Rightarrow> markers \<Rightarrow> log_line list \<times> markers" where
  "ingest namespace key text clock track ms =
     ingest_tokens namespace key track (zip (fst (scan_tokens text)) clock) ms"

lemma ingest_tokens_out:
  "fst (ingest_tokens namespace key track rs ms) = map (\<lambda>(line, ts). ingested_line namespace key line ts) rs"
  by (induction namespace key track rs ms rule: ingest_tokens.induct) (simp_all add: split_beta Let_def)

lemma ingest_tokens_untracked: "snd (ingest_tokens namespace key False rs ms) = ms"
  by (induction rs arbitrary: ms) (auto simp: split_beta Let_def)

lemma ingest_tokens_marker:
  "\<not> before (marker_since key (snd (ingest_tokens namespace key True rs ms))) (marker_since key ms)
   \<and> (\<forall>(line, ts) \<in> set rs. \<not> before (marker_since key (snd (ingest_tokens namespace key True rs ms))) ts)
   \<and> (marker_since key (snd (ingest_tokens namespace key True rs ms)) = marker_since key ms
      \<or> marker_since key (snd (ingest_tokens namespace key True rs ms)) \<in> snd ` set rs)"
proof (induction rs arbitrary: ms)
  case (Cons r rs)
  obtain line ts where r: "r = (line, ts)" by (cases r)
  let ?ms1 = "set_marker key ts ms"
  have "instant ts \<le> instant (marker_since key ?ms1)"
    "instant (marker_since key ms) \<le> instant (marker_since key ?ms1)"
    "marker_since key ?ms1 = marker_since key ms \<or> marker_since key ?ms1 = ts"
    by (simp_all add: marker_since_set after_def)
  with Cons.IH [of ?ms1] show ?case
    by (auto simp: r split_beta Let_def before_def)
qed (simp add: before_def)

section \<open>Properties\<close>

text \<open>
  C19: every line of a container is ingested as it was written, without its line end: for a stream of
  lines of less than 1 MiB, each ended by a newline or by a carriage return and a newline, the last one
  perhaps without the newline, \<open>ingest\<close> hands the sink exactly these lines in order, each with its pod,
  namespace and container, its own timestamp and its detected level. (A carriage return before the
  newline is taken for a part of the line end and not stored; of several, one.)
\<close>

theorem ingest_every_line:
  assumes "\<forall>l \<in> set (final # ls). fitting_line l" "length clock = length (stream_lines ls final)"
  shows "fst (ingest namespace key (stream_text ls final) clock track ms) =
    map2 (\<lambda>line ts. \<lparr>l_pod = ck_pod key, l_namespace = namespace, l_container = ck_container key,
        l_timestamp = ts, l_level = detect_level line, l_content = line\<rparr>) (stream_lines ls final) clock"
  using scan_stream_text [OF assms(1)] by (simp add: ingest_def ingest_tokens_out ingested_line_def)

lemma ingest_every_line_witness:
  "map l_content (fst (ingest ''default'' (Container_key ''web-0'' ''app'')
     (stream_text [(''INFO up'', False), (''ERROR down'', True)] (''WARN end'', False))
     [midnight 719163, midnight 719164, midnight 719165] True [])) = [''INFO up'', ''ERROR down'', ''WARN end'']"
  using ingest_every_line [of "(''WARN end'', False)" "[(''INFO up'', False), (''ERROR down'', True)]"
      "[midnight 719163, midnight 719164, midnight 719165]"]
  by (simp add: fitting_line_def line_bytes_def max_token_def stream_lines_def)

text \<open>
  The marker follows the live stream only: reading the current instance leaves the marker at
  the latest of its old value and the timestamps of the lines read, so it never goes back; reading
  the previous instance's log never changes it.
\<close>

theorem ingest_marker:
  "(let since = marker_since key ms;
        (out, ms') = ingest namespace key text clock True ms;
        since' = marker_since key ms'
    in \<not> before since' since \<and> (\<forall>l \<in> set out. \<not> before since' (l_timestamp l))
       \<and> (since' = since \<or> since' \<in> l_timestamp ` set out))
   \<and> snd (ingest namespace key text clock False ms) = ms"
proof -
  let ?rs = "zip (fst (scan_tokens text)) clock"
  have out: "l_timestamp ` set (fst (ingest_tokens namespace key True ?rs ms)) = snd ` set ?rs"
    unfolding ingest_tokens_out by (force simp: ingested_line_def image_iff)
  let ?since' = "marker_since key (snd (ingest_tokens namespace key True ?rs ms))"
  have "\<forall>t \<in> l_timestamp ` set (fst (ingest_tokens namespace key True ?rs ms)). \<not> before ?since' t"
    unfolding out using ingest_tokens_marker [of key namespace ?rs ms] by fastforce
  then have all: "\<forall>l \<in> set (fst (ingest_tokens namespace key True ?rs ms)). \<not> before ?since' (l_timestamp l)"
    by blast
  have "?since' = marker_since key ms
      \<or> ?since' \<in> l_timestamp ` set (fst (ingest_tokens namespace key True ?rs ms))"
    unfolding out using ingest_tokens_marker [of key namespace ?rs ms] by blast
  moreover have "\<not> before ?since' (marker_since key ms)"
    using ingest_tokens_marker [of key namespace ?rs ms] by blast
  ultimately show ?thesis
    using all by (simp add: ingest_def ingest_tokens_untracked split_beta Let_def)
qed

lemma ingest_marker_witness:
  "\<not> before (marker_since (Container_key ''web-0'' ''app'')
       (snd (ingest ''default'' (Container_key ''web-0'' ''app'') (lines_text [(''INFO up'', False)]) [midnight 719163] True [])))
     (midnight 719163)"
proof -
  have "scan_tokens (lines_text [(''INFO up'', False)]) = ([''INFO up''], True)"
    using scan_lines_text [of "[(''INFO up'', False)]" "[]"] by (simp add: fitting_line_def line_bytes_def max_token_def)
  then show ?thesis
    using ingest_marker [of "(Container_key ''web-0'' ''app'')" "[]" "''default''" "lines_text [(''INFO up'', False)]" "[midnight 719163]"]
    by (simp add: Let_def split_beta ingest_def ingested_line_def)
qed

text \<open>
  A line that does not fit ends the ingestion without an error: nothing after the lines before it
  reaches the sink, and \<open>ingest\<close> does not look at the scanner's error.
\<close>

lemma ingest_stops_at_long_line:
  assumes "\<forall>l \<in> set ls. fitting_line l" "newline \<notin> set long" "max_token \<le> length long"
  shows "scan_tokens (lines_text ls @ long @ rest) = (map fst ls, False)"
  using scan_lines_text [OF assms(1), of "long @ rest"] scan_tokens_too_long [OF assms(2,3), of rest]
  by simp

end
