(* ===== verification/Manager.thy ===== *)
theory Manager
  imports Main "HOL-Library.Word" Prelude Go_Strings Go_Time Store Metrics Ingest
begin

text \<open>
  \<open>Manager\<close> of \<open>internal/tailer/manager.go\<close>: the tailed containers, one goroutine (\<open>tailContainer\<close>)
  for each, the handlers of pod events that start and stop them (\<open>reconcilePod\<close>, \<open>stopPod\<close>), and \<open>Run\<close>.
  This theory has the state and the operations, and what the operations do when nothing interferes;
  the theory \<open>Tailing\<close> has the executions in which everything interleaves.

  A goroutine is an entry of \<open>m_tasks\<close>, with its program counter; its number stands for its cancel
  function, so \<open>m_cancels\<close> has numbers. The sink is what it was handed (\<open>m_sent\<close>), the Kubernetes API
  what it was asked (\<open>m_requests\<close>).
\<close>

section \<open>State\<close>

definition previous_tail_lines :: int where
  "previous_tail_lines = 100"

definition max_backoff :: int where
  "max_backoff = 5 * second_ns"

definition initial_backoff :: int where
  "initial_backoff = 250 * 1000000"

text \<open>
  Where \<open>tailContainer\<close> is. \<open>Marking\<close> is between \<open>Enqueue\<close> and \<open>setMarker\<close> in \<open>ingest\<close>, \<open>Looked_up\<close>
  between the lookup and the second lock in \<open>resolveMarker\<close>. An \<open>int\<close> is the current backoff, a string
  list the lines that the open stream still delivers.
\<close>

datatype task_pc =
    Fetching
  | Ingesting_previous "string list"
  | Resolving
  | Looked_up marker
  | Looping int
  | Opening int go_time
  | Streaming int "string list"
  | Marking int go_time "string list"
  | After_stream int "err option"
  | Waiting int
  | Returned

record task =
  t_key :: container_key
  t_cancelled :: bool
  t_pc :: task_pc

text \<open>The parts of a \<open>Pod\<close> and of \<open>PodLogOptions\<close> that the code uses.\<close>

record container_status =
  cs_name :: string
  cs_restarts :: "32 word"

record pod_object =
  pod_name :: string
  pod_init_statuses :: "container_status list"
  pod_statuses :: "container_status list"

record log_request =
  lr_key :: container_key
  lr_previous :: bool
  lr_follow :: bool
  lr_tail_lines :: "int option"
  lr_since :: "go_time option"

datatype handler_op =
    Reconcile string container_status
  | Stop container_key
  | Delete_marker container_key

datatype run_pc = Run_start | Run_failed err | Run_syncing | Run_waiting | Run_draining | Run_returned

record manager =
  m_namespace :: string
  m_include_init :: bool
  m_self_pod :: string
  m_has_store :: bool
  m_metrics :: "metrics option"
  m_cancels :: "(container_key \<times> nat) list"
  m_restart_counts :: "(container_key \<times> 32 word) list"
  m_markers :: markers
  m_ready :: bool
  m_ctx_done :: bool
  m_tasks :: "task list"
  m_handler :: "handler_op list"
  m_run :: run_pc
  m_sent :: "log_line list"
  m_requests :: "log_request list"

definition new_manager :: "string \<Rightarrow> bool \<Rightarrow> string \<Rightarrow> bool \<Rightarrow> metrics option \<Rightarrow> manager" where
  "new_manager namespace include_init self_pod has_store m =
     \<lparr>m_namespace = namespace, m_include_init = include_init, m_self_pod = self_pod,
      m_has_store = has_store, m_metrics = m, m_cancels = [], m_restart_counts = [],
      m_markers = [], m_ready = False, m_ctx_done = False, m_tasks = [], m_handler = [],
      m_run = Run_start, m_sent = [], m_requests = []\<rparr>"

text \<open>A task's context is done when it is cancelled itself or its parent is.\<close>

definition task_done :: "manager \<Rightarrow> nat \<Rightarrow> bool" where
  "task_done m i \<longleftrightarrow> m_ctx_done m \<or> t_cancelled (m_tasks m ! i)"

definition live :: "manager \<Rightarrow> nat \<Rightarrow> bool" where
  "live m i \<longleftrightarrow> i < length (m_tasks m) \<and> \<not> t_cancelled (m_tasks m ! i)"

section \<open>Starting and stopping\<close>

definition start_container :: "string \<Rightarrow> string \<Rightarrow> 32 word \<Rightarrow> manager \<Rightarrow> manager" where
  "start_container pod container restarts m =
     (let key = Container_key pod container
      in m\<lparr>m_cancels := upd key (length (m_tasks m)) (m_cancels m),
           m_restart_counts := upd key restarts (m_restart_counts m),
           m_tasks := m_tasks m @ [\<lparr>t_key = key, t_cancelled = False, t_pc = Fetching\<rparr>]\<rparr>)"

definition cancel_task :: "nat \<Rightarrow> manager \<Rightarrow> manager" where
  "cancel_task i m = m\<lparr>m_tasks := (m_tasks m)[i := (m_tasks m ! i)\<lparr>t_cancelled := True\<rparr>]\<rparr>"

definition stop_container :: "container_key \<Rightarrow> manager \<Rightarrow> manager" where
  "stop_container key m =
     (case map_of (m_cancels m) key of
        None \<Rightarrow> m
      | Some i \<Rightarrow> cancel_task i (m\<lparr>m_cancels := del key (m_cancels m)\<rparr>))"

text \<open>The body of the loop of \<open>reconcilePod\<close>.\<close>

definition up_to_date :: "string \<Rightarrow> container_status \<Rightarrow> manager \<Rightarrow> bool" where
  "up_to_date pod cs m \<longleftrightarrow> map_of (m_cancels m) (Container_key pod (cs_name cs)) \<noteq> None
     \<and> map_of (m_restart_counts m) (Container_key pod (cs_name cs)) = Some (cs_restarts cs)"

definition reconcile_container :: "string \<Rightarrow> container_status \<Rightarrow> manager \<Rightarrow> manager" where
  "reconcile_container pod cs m =
     (if up_to_date pod cs m then m
      else start_container pod (cs_name cs) (cs_restarts cs) (stop_container (Container_key pod (cs_name cs)) m))"

definition statuses_of :: "pod_object \<Rightarrow> manager \<Rightarrow> container_status list" where
  "statuses_of pod m =
     (if m_include_init m then pod_init_statuses pod @ pod_statuses pod else pod_statuses pod)"

text \<open>
  A handler as the list of what it does between two points where another goroutine can notice: for
  \<open>reconcilePod\<close> one entry for each status, for \<open>stopPod\<close> two for each key (\<open>order\<close> is the order in
  which the map range gives them).
\<close>

definition reconcile_ops :: "pod_object \<Rightarrow> manager \<Rightarrow> handler_op list" where
  "reconcile_ops pod m =
     (if m_self_pod m \<noteq> [] \<and> pod_name pod = m_self_pod m then []
      else map (Reconcile (pod_name pod)) (statuses_of pod m))"

definition stop_order :: "string \<Rightarrow> container_key list \<Rightarrow> manager \<Rightarrow> bool" where
  "stop_order pod order m \<longleftrightarrow>
     distinct order \<and> set order = {k \<in> fst ` set (m_cancels m). ck_pod k = pod}"

definition stop_ops :: "container_key list \<Rightarrow> handler_op list" where
  "stop_ops order = concat (map (\<lambda>k. [Stop k, Delete_marker k]) order)"

fun do_op :: "handler_op \<Rightarrow> manager \<Rightarrow> manager" where
  "do_op (Reconcile pod cs) m = reconcile_container pod cs m"
| "do_op (Stop key) m = stop_container key m"
| "do_op (Delete_marker key) m = m\<lparr>m_markers := delete_marker key (m_markers m)\<rparr>"

definition reconcile_pod :: "pod_object \<Rightarrow> manager \<Rightarrow> manager" where
  "reconcile_pod pod m = fold do_op (reconcile_ops pod m) m"

definition stop_pod :: "container_key list \<Rightarrow> manager \<Rightarrow> manager" where
  "stop_pod order m = fold do_op (stop_ops order) m"

section \<open>The steps of tailContainer\<close>

definition next_backoff :: "int \<Rightarrow> int" where
  "next_backoff d = (let d = d * 2 in if max_backoff < d then max_backoff else d)"

text \<open>The options of the two \<open>GetLogs\<close> calls.\<close>

definition previous_request :: "container_key \<Rightarrow> log_request" where
  "previous_request key = \<lparr>lr_key = key, lr_previous = True, lr_follow = False,
     lr_tail_lines = Some previous_tail_lines, lr_since = None\<rparr>"

definition stream_request :: "container_key \<Rightarrow> go_time \<Rightarrow> log_request" where
  "stream_request key since = \<lparr>lr_key = key, lr_previous = False, lr_follow = True,
     lr_tail_lines = None, lr_since = (if is_zero since then None else Some since)\<rparr>"

text \<open>
  What \<open>LastSeen\<close> returned makes the new marker: an error, like nothing found, leaves its time zero.
\<close>

definition looked_up :: "bool \<Rightarrow> go_time option result \<Rightarrow> marker" where
  "looked_up has_store r =
     (let mk = (case r of Inr (Some ts) \<Rightarrow> if has_store then no_marker\<lparr>mk_ts := ts\<rparr> else no_marker
                | _ \<Rightarrow> no_marker)
      in mk\<lparr>mk_resolved := True\<rparr>)"

definition known :: "container_key \<Rightarrow> manager \<Rightarrow> bool" where
  "known key m \<longleftrightarrow> map_of (m_markers m) key \<noteq> None"

definition store_marker :: "container_key \<Rightarrow> marker \<Rightarrow> manager \<Rightarrow> manager" where
  "store_marker key mk m =
     (if known key m then m else m\<lparr>m_markers := upd key mk (m_markers m)\<rparr>)"

definition goto :: "nat \<Rightarrow> task_pc \<Rightarrow> manager \<Rightarrow> manager" where
  "goto i pc m = m\<lparr>m_tasks := (m_tasks m)[i := (m_tasks m ! i)\<lparr>t_pc := pc\<rparr>]\<rparr>"

definition send_line :: "container_key \<Rightarrow> string \<Rightarrow> go_time \<Rightarrow> manager \<Rightarrow> manager" where
  "send_line key line ts m =
     m\<lparr>m_sent := m_sent m @ [ingested_line (m_namespace m) key line ts]\<rparr>"

definition request :: "log_request \<Rightarrow> manager \<Rightarrow> manager" where
  "request r m = m\<lparr>m_requests := m_requests m @ [r]\<rparr>"

text \<open>
  The choices of the environment: whether a stream opens and what text it delivers until it ends,
  what \<open>LastSeen\<close> and \<open>time.Now\<close> return, which ready case the \<open>select\<close> takes.
\<close>

datatype task_action =
    Fetch_fails | Fetch_opens string
  | Resolve "go_time option result" | Store_marker
  | Check_ctx
  | Open_fails err | Open_succeeds string
  | Next_line go_time | Set_marker | Stream_ends
  | Stream_returned
  | Timer_fires | Ctx_done

definition count_stream :: "manager \<Rightarrow> manager" where
  "count_stream m = m\<lparr>m_metrics :=
     bump (\<lambda>c. c\<lparr>tail_streams_total := Suc (tail_streams_total c)\<rparr>) (m_metrics m)\<rparr>"

definition count_stream_error :: "err option \<Rightarrow> manager \<Rightarrow> manager" where
  "count_stream_error err m =
     (if err \<noteq> None
      then m\<lparr>m_metrics := bump (\<lambda>c. c\<lparr>tail_stream_errors_total := Suc (tail_stream_errors_total c)\<rparr>)
                           (m_metrics m)\<rparr>
      else m)"

abbreviation key_of :: "manager \<Rightarrow> nat \<Rightarrow> container_key" where
  "key_of m i \<equiv> t_key (m_tasks m ! i)"

abbreviation pc_of :: "manager \<Rightarrow> nat \<Rightarrow> task_pc" where
  "pc_of m i \<equiv> t_pc (m_tasks m ! i)"

fun task_step :: "nat \<Rightarrow> task_action \<Rightarrow> manager \<Rightarrow> manager option" where
  "task_step i Fetch_fails m =
     (case pc_of m i of
        Fetching \<Rightarrow> Some (goto i Resolving (request (previous_request (key_of m i)) m))
      | _ \<Rightarrow> None)"
| "task_step i (Fetch_opens text) m =
     (case pc_of m i of
        Fetching \<Rightarrow> Some (goto i (Ingesting_previous (fst (scan_tokens text)))
                            (request (previous_request (key_of m i)) m))
      | _ \<Rightarrow> None)"
| "task_step i (Next_line ts) m =
     (case pc_of m i of
        Ingesting_previous (line # toks) \<Rightarrow>
          Some (goto i (Ingesting_previous toks) (send_line (key_of m i) line ts m))
      | Streaming b (line # toks) \<Rightarrow>
          Some (goto i (Marking b ts toks) (send_line (key_of m i) line ts m))
      | _ \<Rightarrow> None)"
| "task_step i Set_marker m =
     (case pc_of m i of
        Marking b ts toks \<Rightarrow>
          Some (goto i (Streaming b toks) (m\<lparr>m_markers := set_marker (key_of m i) ts (m_markers m)\<rparr>))
      | _ \<Rightarrow> None)"
| "task_step i Stream_ends m =
     (case pc_of m i of
        Ingesting_previous [] \<Rightarrow> Some (goto i Resolving m)
      | Streaming b [] \<Rightarrow> Some (goto i (After_stream b None) m)
      | _ \<Rightarrow> None)"
| "task_step i (Resolve r) m =
     (case pc_of m i of
        Resolving \<Rightarrow>
          Some (goto i (if known (key_of m i) m then Looping initial_backoff
                        else Looked_up (looked_up (m_has_store m) r)) m)
      | _ \<Rightarrow> None)"
| "task_step i Store_marker m =
     (case pc_of m i of
        Looked_up mk \<Rightarrow> Some (goto i (Looping initial_backoff) (store_marker (key_of m i) mk m))
      | _ \<Rightarrow> None)"
| "task_step i Check_ctx m =
     (case pc_of m i of
        Looping b \<Rightarrow>
          Some (if task_done m i then goto i Returned m
                else goto i (Opening b (marker_since (key_of m i) (m_markers m))) (count_stream m))
      | _ \<Rightarrow> None)"
| "task_step i (Open_fails e) m =
     (case pc_of m i of
        Opening b since \<Rightarrow>
          Some (goto i (After_stream b (Some e)) (request (stream_request (key_of m i) since) m))
      | _ \<Rightarrow> None)"
| "task_step i (Open_succeeds text) m =
     (case pc_of m i of
        Opening b since \<Rightarrow>
          Some (goto i (Streaming b (fst (scan_tokens text)))
                  (request (stream_request (key_of m i) since) m))
      | _ \<Rightarrow> None)"
| "task_step i Stream_returned m =
     (case pc_of m i of
        After_stream b err \<Rightarrow>
          Some (if task_done m i then goto i Returned m
                else goto i (Waiting b) (count_stream_error err m))
      | _ \<Rightarrow> None)"
| "task_step i Timer_fires m =
     (case pc_of m i of Waiting b \<Rightarrow> Some (goto i (Looping (next_backoff b)) m) | _ \<Rightarrow> None)"
| "task_step i Ctx_done m =
     (case pc_of m i of
        Waiting b \<Rightarrow> if task_done m i then Some (goto i Returned m) else None
      | _ \<Rightarrow> None)"

section \<open>The manager's invariant\<close>

text \<open>
  \<open>m_cancels\<close> is exactly the live goroutines: each live one is registered under its container, and
  what is registered is live. In particular a container never has two live ones.
\<close>

definition cancels_inv :: "manager \<Rightarrow> bool" where
  "cancels_inv m \<longleftrightarrow>
     (\<forall>k i. map_of (m_cancels m) k = Some i \<longleftrightarrow> live m i \<and> key_of m i = k)
     \<and> (\<forall>k. map_of (m_cancels m) k \<noteq> None \<longrightarrow> map_of (m_restart_counts m) k \<noteq> None)"

lemma cancels_inv_new [wf_intros]: "cancels_inv (new_manager ns ii self hs mt)"
  by (simp add: cancels_inv_def new_manager_def live_def)

lemma cancelsD:
  "cancels_inv m \<Longrightarrow> map_of (m_cancels m) k = Some i \<Longrightarrow> live m i \<and> key_of m i = k"
  unfolding cancels_inv_def by blast

lemma live_cancels: "cancels_inv m \<Longrightarrow> live m i \<Longrightarrow> map_of (m_cancels m) (key_of m i) = Some i"
  unfolding cancels_inv_def by blast

lemma live_unique:
  "cancels_inv m \<Longrightarrow> live m i \<Longrightarrow> live m j \<Longrightarrow> key_of m i = key_of m j \<Longrightarrow> i = j"
  by (metis live_cancels option.inject)

lemma start_container_views:
  "map_of (m_cancels (start_container pod c n m)) = (map_of (m_cancels m))((Container_key pod c) \<mapsto> length (m_tasks m))"
  "map_of (m_restart_counts (start_container pod c n m)) = (map_of (m_restart_counts m))((Container_key pod c) \<mapsto> n)"
  "live (start_container pod c n m) i \<longleftrightarrow> live m i \<or> i = length (m_tasks m)"
  "live m i \<Longrightarrow> key_of (start_container pod c n m) i = key_of m i"
  "key_of (start_container pod c n m) (length (m_tasks m)) = (Container_key pod c)"
  by (auto simp: start_container_def Let_def map_of_upd live_def nth_append)

lemma not_live_new: "\<not> live m (length (m_tasks m))"
  by (simp add: live_def)

lemma start_container_inv [wf_intros]:
  assumes "cancels_inv m" "map_of (m_cancels m) (Container_key pod c) = None"
  shows "cancels_inv (start_container pod c n m)"
proof -
  have other: "key_of m i \<noteq> (Container_key pod c)" if "live m i" for i
    using live_cancels [OF assms(1) that] assms(2) by auto
  have iff: "map_of (m_cancels (start_container pod c n m)) k = Some i
      \<longleftrightarrow> live (start_container pod c n m) i \<and> key_of (start_container pod c n m) i = k" for k i
    using cancelsD [OF assms(1)] live_cancels [OF assms(1)] other not_live_new [of m]
    by (auto simp: start_container_views)
  have "map_of (m_restart_counts m) k \<noteq> None" if "map_of (m_cancels m) k \<noteq> None" for k
    using assms(1) that unfolding cancels_inv_def by blast
  then have "map_of (m_restart_counts (start_container pod c n m)) k \<noteq> None"
    if "map_of (m_cancels (start_container pod c n m)) k \<noteq> None" for k
    using that unfolding start_container_views by (cases "k = Container_key pod c") simp_all
  with iff show ?thesis unfolding cancels_inv_def by blast
qed

lemma cancel_task_views:
  "m_cancels (cancel_task j m) = m_cancels m"
  "m_restart_counts (cancel_task j m) = m_restart_counts m"
  "live (m\<lparr>m_cancels := cs\<rparr>) i \<longleftrightarrow> live m i"
  by (simp_all add: cancel_task_def live_def)

lemma cancel_task_key: "key_of (cancel_task j m) i = key_of m i"
  and cancel_task_pc: "pc_of (cancel_task j m) i = pc_of m i"
  and live_cancel_task: "live (cancel_task j m) i \<longleftrightarrow> live m i \<and> i \<noteq> j"
  by (cases "j < length (m_tasks m)";
      auto simp: cancel_task_def live_def nth_list_update list_update_beyond)+

lemma stop_container_changes:
  assumes "cancels_inv m"
  shows "map_of (m_cancels (stop_container k m)) = (map_of (m_cancels m))(k := None)
      \<and> m_restart_counts (stop_container k m) = m_restart_counts m
      \<and> (live (stop_container k m) i \<longleftrightarrow> live m i \<and> key_of m i \<noteq> k)
      \<and> key_of (stop_container k m) i = key_of m i"
proof (cases "map_of (m_cancels m) k")
  case None
  with live_cancels [OF assms, of i] show ?thesis by (auto simp: stop_container_def fun_upd_idem)
next
  case (Some j)
  have j: "j < length (m_tasks m)" "key_of m j = k" "key_of m i = k \<Longrightarrow> live m i \<Longrightarrow> i = j"
    using cancelsD [OF assms Some] live_cancels [OF assms, of i] Some by (auto simp: live_def)
  have "stop_container k m = cancel_task j (m\<lparr>m_cancels := del k (m_cancels m)\<rparr>)"
    using Some by (simp add: stop_container_def)
  moreover have "live m i \<and> i \<noteq> j \<longleftrightarrow> live m i \<and> key_of m i \<noteq> k"
    using j by blast
  ultimately show ?thesis by (simp add: cancel_task_views cancel_task_key live_cancel_task map_of_del)
qed

lemmas stop_container_views =
  stop_container_changes [THEN conjunct1]
  stop_container_changes [THEN conjunct2, THEN conjunct1]
  stop_container_changes [THEN conjunct2, THEN conjunct2, THEN conjunct1]
  stop_container_changes [THEN conjunct2, THEN conjunct2, THEN conjunct2]

lemma stop_container_inv [wf_intros]:
  assumes "cancels_inv m"
  shows "cancels_inv (stop_container k m)"
  using assms unfolding cancels_inv_def stop_container_views [OF assms] by auto

lemma stop_container_gone [simp]: "map_of (m_cancels (stop_container k m)) k = None"
  by (simp add: stop_container_def cancel_task_def split: option.splits)

lemma reconcile_container_inv [wf_intros]: "cancels_inv m \<Longrightarrow> cancels_inv (reconcile_container pod cs m)"
  by (simp add: reconcile_container_def start_container_inv stop_container_inv)

lemma do_op_inv [wf_intros]: "cancels_inv m \<Longrightarrow> cancels_inv (do_op op m)"
proof (cases op)
  case (Delete_marker k)
  moreover assume "cancels_inv m"
  ultimately show ?thesis unfolding cancels_inv_def live_def by simp
qed (simp_all add: reconcile_container_inv stop_container_inv)

lemma do_ops_inv [wf_intros]: "cancels_inv m \<Longrightarrow> cancels_inv (fold do_op ops m)"
  by (induction ops arbitrary: m) (auto intro: do_op_inv)

section \<open>What the handlers do\<close>

text \<open>A container runs when it has a live goroutine that was started for its current restart count.\<close>

definition tailed :: "container_key \<Rightarrow> 32 word \<Rightarrow> manager \<Rightarrow> bool" where
  "tailed key n m \<longleftrightarrow> (\<exists>i. live m i \<and> key_of m i = key)
     \<and> map_of (m_restart_counts m) key = Some n"

lemma tailed_iff:
  "cancels_inv m \<Longrightarrow> tailed (Container_key pod (cs_name cs)) (cs_restarts cs) m \<longleftrightarrow> up_to_date pod cs m"
  unfolding tailed_def up_to_date_def cancels_inv_def by (metis not_Some_eq)

lemma reconcile_container_up_to_date [simp]: "up_to_date pod cs (reconcile_container pod cs m)"
  by (simp add: reconcile_container_def up_to_date_def start_container_def Let_def)

lemma reconcile_container_other:
  assumes "cs_name cs' \<noteq> cs_name cs \<or> pod' \<noteq> pod"
  shows "up_to_date pod' cs' (reconcile_container pod cs m) \<longleftrightarrow> up_to_date pod' cs' m"
  using assms
  by (auto simp: reconcile_container_def up_to_date_def start_container_def Let_def stop_container_def
        cancel_task_def map_of_del map_of_upd split: option.splits)

lemma reconcile_ops_up_to_date:
  "distinct (map cs_name css) \<Longrightarrow> \<forall>cs \<in> set css. up_to_date pod cs (fold do_op (map (Reconcile pod) css) m)"
proof (induction css rule: rev_induct)
  case (snoc cs css)
  then show ?case by (auto simp: reconcile_container_other image_iff)
qed simp

lemma reconcile_ops_idle:
  "\<forall>cs \<in> set css. up_to_date pod cs m \<Longrightarrow> fold do_op (map (Reconcile pod) css) m = m"
  by (induction css) (auto simp: reconcile_container_def)

lemma do_op_include_init [simp]:
  "m_include_init (do_op op m) = m_include_init m" "m_self_pod (do_op op m) = m_self_pod m"
  "m_namespace (do_op op m) = m_namespace m" "m_sent (do_op op m) = m_sent m"
  "m_ctx_done (do_op op m) = m_ctx_done m" "m_handler (do_op op m) = m_handler m"
  "m_run (do_op op m) = m_run m" "m_requests (do_op op m) = m_requests m"
  by (cases op; simp add: reconcile_container_def start_container_def stop_container_def
        cancel_task_def Let_def split: option.splits)+

text \<open>Which of the running goroutines a handler leaves alone.\<close>

lemma tasks_start: "i < length (m_tasks m) \<Longrightarrow> m_tasks (start_container pod c n m) ! i = m_tasks m ! i"
  by (simp add: start_container_def Let_def nth_append)

lemma length_tasks_start: "length (m_tasks (start_container pod c n m)) = Suc (length (m_tasks m))"
  by (simp add: start_container_def Let_def)

lemma length_tasks_stop [simp]: "length (m_tasks (stop_container k m)) = length (m_tasks m)"
  by (simp add: stop_container_def cancel_task_def split: option.splits)

lemma reconcile_container_kept:
  assumes "cancels_inv m" "i < length (m_tasks m)"
  shows "live (reconcile_container pod cs m) i \<longleftrightarrow>
      live m i \<and> (key_of m i = Container_key pod (cs_name cs) \<longrightarrow> up_to_date pod cs m)"
    "key_of (reconcile_container pod cs m) i = key_of m i"
    "i < length (m_tasks (reconcile_container pod cs m))"
proof -
  let ?k = "Container_key pod (cs_name cs)" and ?s = "stop_container (Container_key pod (cs_name cs)) m"
  have "live (start_container pod (cs_name cs) (cs_restarts cs) ?s) i \<longleftrightarrow> live m i \<and> key_of m i \<noteq> ?k"
    using assms by (auto simp: start_container_views stop_container_views)
  moreover have "key_of (start_container pod (cs_name cs) (cs_restarts cs) ?s) i = key_of m i"
    using assms by (simp add: tasks_start stop_container_views)
  ultimately show "live (reconcile_container pod cs m) i \<longleftrightarrow>
      live m i \<and> (key_of m i = ?k \<longrightarrow> up_to_date pod cs m)"
    "key_of (reconcile_container pod cs m) i = key_of m i"
    "i < length (m_tasks (reconcile_container pod cs m))"
    using assms(2) by (auto simp: reconcile_container_def length_tasks_start)
qed

lemma reconcile_ops_kept:
  assumes "cancels_inv m" "i < length (m_tasks m)" "distinct (map cs_name css)"
  shows "(live (fold do_op (map (Reconcile pod) css) m) i \<longleftrightarrow>
      live m i \<and> (\<forall>cs \<in> set css. key_of m i = Container_key pod (cs_name cs) \<longrightarrow> up_to_date pod cs m))
    \<and> key_of (fold do_op (map (Reconcile pod) css) m) i = key_of m i"
  using assms
proof (induction css arbitrary: m)
  case (Cons cs css)
  let ?m = "reconcile_container pod cs m"
  note kept = reconcile_container_kept [OF Cons.prems(1,2), of pod cs]
  have "cs_name c \<noteq> cs_name cs" if "c \<in> set css" for c
    using Cons.prems(3) that by (auto simp: image_iff)
  then have "up_to_date pod c ?m \<longleftrightarrow> up_to_date pod c m" if "c \<in> set css" for c
    using that by (simp add: reconcile_container_other)
  with Cons.IH [of ?m] Cons.prems kept show ?case by (auto simp: reconcile_container_inv)
qed simp

text \<open>
  C16: \<open>reconcilePod\<close> leaves every container of the pod with a goroutine started for its current
  restart count. Of the goroutines that ran before, it stops those of this pod's containers that have
  restarted since and no other. A second call with the same pod changes nothing.
\<close>

theorem reconcile_pod_tails:
  assumes "cancels_inv m" "m_self_pod m = [] \<or> pod_name pod \<noteq> m_self_pod m"
    "distinct (map cs_name (statuses_of pod m))"
  shows "(\<forall>cs \<in> set (statuses_of pod m).
       tailed (Container_key (pod_name pod) (cs_name cs)) (cs_restarts cs) (reconcile_pod pod m))
    \<and> (\<forall>i < length (m_tasks m). live (reconcile_pod pod m) i \<longleftrightarrow>
         live m i \<and> \<not> (\<exists>cs \<in> set (statuses_of pod m). key_of m i = Container_key (pod_name pod) (cs_name cs)
           \<and> \<not> tailed (Container_key (pod_name pod) (cs_name cs)) (cs_restarts cs) m))
    \<and> reconcile_pod pod (reconcile_pod pod m) = reconcile_pod pod m"
proof -
  let ?css = "statuses_of pod m"
  have r: "reconcile_pod pod m = fold do_op (map (Reconcile (pod_name pod)) ?css) m"
    using assms(2) by (auto simp: reconcile_pod_def reconcile_ops_def)
  have inv: "cancels_inv (reconcile_pod pod m)"
    using assms(1) by (simp add: reconcile_pod_def do_ops_inv)
  have "m_include_init (reconcile_pod pod m) = m_include_init m \<and> m_self_pod (reconcile_pod pod m) = m_self_pod m"
    unfolding reconcile_pod_def by (rule fold_invariant [where Q = "\<lambda>_. True"]) simp_all
  then have s: "reconcile_ops pod (reconcile_pod pod m) = reconcile_ops pod m"
    by (simp add: reconcile_ops_def statuses_of_def)
  have up: "\<forall>cs \<in> set ?css. up_to_date (pod_name pod) cs (reconcile_pod pod m)"
    unfolding r by (rule reconcile_ops_up_to_date) (rule assms(3))
  with inv have "\<forall>cs \<in> set ?css.
      tailed (Container_key (pod_name pod) (cs_name cs)) (cs_restarts cs) (reconcile_pod pod m)"
    by (simp add: tailed_iff)
  moreover have "\<forall>i < length (m_tasks m). live (reconcile_pod pod m) i \<longleftrightarrow>
      live m i \<and> \<not> (\<exists>cs \<in> set ?css. key_of m i = Container_key (pod_name pod) (cs_name cs)
        \<and> \<not> tailed (Container_key (pod_name pod) (cs_name cs)) (cs_restarts cs) m)"
    using reconcile_ops_kept [OF assms(1) _ assms(3), of _ "pod_name pod"]
    by (auto simp: r tailed_iff [OF assms(1)])
  moreover have "reconcile_pod pod (reconcile_pod pod m) = reconcile_pod pod m"
    using reconcile_ops_idle [OF up] assms(2) s
    by (auto simp: reconcile_pod_def [of _ "reconcile_pod pod m"] reconcile_ops_def)
  ultimately show ?thesis by blast
qed

definition example_pod :: pod_object where
  "example_pod = \<lparr>pod_name = ''web-0'', pod_init_statuses = [],
     pod_statuses = [\<lparr>cs_name = ''app'', cs_restarts = 0\<rparr>]\<rparr>"

lemma reconcile_pod_tails_witness:
  "tailed (Container_key ''web-0'' ''app'') 0
     (reconcile_pod example_pod (new_manager ''default'' False ''grepod-0'' True None))"
  using reconcile_pod_tails [OF cancels_inv_new [of "''default''" False "''grepod-0''" True None], of example_pod]
  by (simp add: example_pod_def new_manager_def statuses_of_def)

lemma stop_ops_views:
  assumes "cancels_inv m"
  shows "(live (fold do_op (stop_ops order) m) i \<longleftrightarrow> live m i \<and> key_of m i \<notin> set order)
    \<and> map_of (m_markers (fold do_op (stop_ops order) m)) k =
        (if k \<in> set order then None else map_of (m_markers m) k)"
  using assms
proof (induction order arbitrary: m)
  case (Cons key order)
  let ?m = "do_op (Delete_marker key) (stop_container key m)"
  have "cancels_inv ?m" by (intro wf_intros Cons.prems)
  moreover have "live ?m i \<longleftrightarrow> live m i \<and> key_of m i \<noteq> key" "key_of ?m i = key_of m i"
    using stop_container_views(3,4) [OF Cons.prems, of key i] by (simp_all add: live_def)
  moreover have "map_of (m_markers ?m) k = (if k = key then None else map_of (m_markers m) k)"
    by (simp add: delete_marker_def map_of_del stop_container_def cancel_task_def split: option.splits)
  ultimately show ?case using Cons.IH [of ?m] by (auto simp: stop_ops_def)
qed (simp add: stop_ops_def)

text \<open>
  C27: \<open>stopPod\<close> stops every goroutine of the pod and no other, and forgets the markers of the
  containers that it stopped and no other, in whatever order the map range gives the keys.
\<close>

theorem stop_pod_stops:
  assumes "cancels_inv m" "stop_order pod order m"
  shows "(\<forall>i. live (stop_pod order m) i \<longleftrightarrow> live m i \<and> ck_pod (key_of m i) \<noteq> pod)
    \<and> (\<forall>k. map_of (m_markers (stop_pod order m)) k =
         (if ck_pod k = pod \<and> (\<exists>i. live m i \<and> key_of m i = k) then None else map_of (m_markers m) k))"
proof -
  have "k \<in> set order \<longleftrightarrow> ck_pod k = pod \<and> (\<exists>i. live m i \<and> key_of m i = k)" for k
  proof -
    have "k \<in> fst ` set (m_cancels m) \<longleftrightarrow> (\<exists>i. live m i \<and> key_of m i = k)"
      using cancelsD [OF assms(1), of k] live_cancels [OF assms(1)]
      by (metis domI domIff dom_map_of_conv_image_fst not_Some_eq)
    then show ?thesis using assms(2) by (auto simp: stop_order_def)
  qed
  then show ?thesis using stop_ops_views [OF assms(1), of order] by (auto simp: stop_pod_def)
qed

lemma stop_pod_stops_witness:
  "\<not> live (stop_pod [Container_key ''web-0'' ''app'']
     (reconcile_pod example_pod (new_manager ''default'' False ''grepod-0'' True None))) 0"
proof -
  let ?m = "reconcile_pod example_pod (new_manager ''default'' False ''grepod-0'' True None)"
  have "cancels_inv ?m" by (simp add: reconcile_pod_def wf_intros)
  moreover have "m_cancels ?m = [(Container_key ''web-0'' ''app'', 0)]"
    "key_of ?m 0 = Container_key ''web-0'' ''app''"
    by (simp_all add: reconcile_pod_def reconcile_ops_def example_pod_def new_manager_def statuses_of_def
        reconcile_container_def up_to_date_def start_container_def stop_container_def Let_def)
  moreover have "stop_order ''web-0'' [Container_key ''web-0'' ''app''] ?m"
    using calculation(2) by (auto simp: stop_order_def)
  ultimately show ?thesis
    using stop_pod_stops [of ?m "''web-0''" "[Container_key ''web-0'' ''app'']"] by simp
qed

end
