(* ===== verification/Tailing.thy ===== *)
theory Tailing
  imports Main Prelude Go_Time Levels Store Known Metrics Ingest Manager
begin

text \<open>
  The executions of the tailer: the handlers of pod events, every \<open>tailContainer\<close> goroutine and \<open>Run\<close>
  take steps in any order. The choices of the scheduler, of Kubernetes and of the store are the
  sequence of actions; \<open>ok\<close> restricts them to what a property relies on.
\<close>

section \<open>Steps\<close>

text \<open>
  The informer calls one handler at a time: an event is taken up when the one before is done.
\<close>

datatype action =
    Task nat task_action
  | Pod_seen pod_object
  | Pod_deleted string "container_key list"
  | Handle
  | Add_handler "err option"
  | Synced "bool list"
  | Cancel_ctx
  | Run_ctx_done
  | Wait_done

definition informing :: "manager \<Rightarrow> bool" where
  "informing m = (case m_run m of Run_start \<Rightarrow> False | Run_failed _ \<Rightarrow> False | _ \<Rightarrow> True)"

definition all_returned :: "manager \<Rightarrow> bool" where
  "all_returned m \<longleftrightarrow> list_all (\<lambda>t. t_pc t = Returned) (m_tasks m)"

fun tl_step :: "action \<Rightarrow> manager \<Rightarrow> manager option" where
  "tl_step (Task i a) m = (if i < length (m_tasks m) then task_step i a m else None)"
| "tl_step (Pod_seen pod) m =
     (if m_handler m = [] \<and> informing m then Some (m\<lparr>m_handler := reconcile_ops pod m\<rparr>)
      else None)"
| "tl_step (Pod_deleted pod order) m =
     (if m_handler m = [] \<and> informing m \<and> stop_order pod order m
      then Some (m\<lparr>m_handler := stop_ops order\<rparr>) else None)"
| "tl_step Handle m =
     (case m_handler m of [] \<Rightarrow> None | op # ops \<Rightarrow> Some (do_op op (m\<lparr>m_handler := ops\<rparr>)))"
| "tl_step (Add_handler err) m =
     (if m_run m = Run_start
      then Some (m\<lparr>m_run := (case err of None \<Rightarrow> Run_syncing | Some e \<Rightarrow> Run_failed e)\<rparr>) else None)"
| "tl_step (Synced oks) m =
     (if m_run m = Run_syncing then Some (m\<lparr>m_ready := list_all id oks, m_run := Run_waiting\<rparr>)
      else None)"
| "tl_step Cancel_ctx m = Some (m\<lparr>m_ctx_done := True\<rparr>)"
| "tl_step Run_ctx_done m =
     (if m_run m = Run_waiting \<and> m_ctx_done m then Some (m\<lparr>m_run := Run_draining\<rparr>) else None)"
| "tl_step Wait_done m =
     (if m_run m = Run_draining \<and> all_returned m then Some (m\<lparr>m_run := Run_returned\<rparr>) else None)"

inductive tl_exec :: "(action \<Rightarrow> manager \<Rightarrow> bool) \<Rightarrow> manager \<Rightarrow> manager \<Rightarrow> bool" for ok m0 where
  tl_start: "tl_exec ok m0 m0"
| tl_next: "tl_exec ok m0 m \<Longrightarrow> ok a m \<Longrightarrow> tl_step a m = Some m' \<Longrightarrow> tl_exec ok m0 m'"

inductive_cases tl_execE: "tl_exec ok m0 m"

text \<open>An invariant of the steps holds in every execution from a new manager.\<close>

lemma tl_exec_inv:
  assumes "tl_exec ok m0 m" "I m0"
    and "\<And>a m m'. I m \<Longrightarrow> ok a m \<Longrightarrow> tl_step a m = Some m' \<Longrightarrow> I m'"
  shows "I m"
  using assms(1) by induction (auto intro: assms(2,3))

section \<open>What a step leaves alone\<close>

text \<open>A goroutine's step moves this goroutine only and does not touch the registration.\<close>

lemma goto_views [simp]:
  "m_cancels (goto i pc m) = m_cancels m" "m_restart_counts (goto i pc m) = m_restart_counts m"
  "m_markers (goto i pc m) = m_markers m" "m_handler (goto i pc m) = m_handler m"
  "m_run (goto i pc m) = m_run m" "m_sent (goto i pc m) = m_sent m"
  "m_requests (goto i pc m) = m_requests m" "m_self_pod (goto i pc m) = m_self_pod m"
  "m_ctx_done (goto i pc m) = m_ctx_done m" "m_namespace (goto i pc m) = m_namespace m"
  "length (m_tasks (goto i pc m)) = length (m_tasks m)"
  by (simp_all add: goto_def)

lemma goto_key [simp]: "key_of (goto i pc m) j = key_of m j"
  by (cases "i < length (m_tasks m)") (auto simp: goto_def nth_list_update list_update_beyond)

lemma goto_live [simp]: "live (goto i pc m) j = live m j"
  by (cases "i < length (m_tasks m)") (auto simp: goto_def live_def nth_list_update list_update_beyond)

lemma goto_pc [simp]: "i < length (m_tasks m) \<Longrightarrow> pc_of (goto i pc m) j = (if j = i then pc else pc_of m j)"
  by (auto simp: goto_def nth_list_update)

lemma env_views [simp]:
  "m_tasks (request r m) = m_tasks m" "m_tasks (send_line k l ts m) = m_tasks m"
  "m_tasks (store_marker k mk m) = m_tasks m" "m_tasks (count_stream m) = m_tasks m"
  "m_tasks (count_stream_error e m) = m_tasks m"
  "m_cancels (request r m) = m_cancels m" "m_cancels (send_line k l ts m) = m_cancels m"
  "m_cancels (store_marker k mk m) = m_cancels m" "m_cancels (count_stream m) = m_cancels m"
  "m_cancels (count_stream_error e m) = m_cancels m"
  "m_restart_counts (request r m) = m_restart_counts m"
  "m_restart_counts (send_line k l ts m) = m_restart_counts m"
  "m_restart_counts (store_marker k mk m) = m_restart_counts m"
  "m_restart_counts (count_stream m) = m_restart_counts m"
  "m_restart_counts (count_stream_error e m) = m_restart_counts m"
  by (simp_all add: request_def send_line_def store_marker_def count_stream_def count_stream_error_def)

lemma env_views2 [simp]:
  "m_self_pod (request r m) = m_self_pod m" "m_self_pod (send_line k l ts m) = m_self_pod m"
  "m_self_pod (store_marker k mk m) = m_self_pod m" "m_self_pod (count_stream m) = m_self_pod m"
  "m_self_pod (count_stream_error e m) = m_self_pod m"
  "m_handler (request r m) = m_handler m" "m_handler (send_line k l ts m) = m_handler m"
  "m_handler (store_marker k mk m) = m_handler m" "m_handler (count_stream m) = m_handler m"
  "m_handler (count_stream_error e m) = m_handler m"
  "m_run (request r m) = m_run m" "m_run (send_line k l ts m) = m_run m"
  "m_run (store_marker k mk m) = m_run m" "m_run (count_stream m) = m_run m"
  "m_run (count_stream_error e m) = m_run m"
  "m_ctx_done (request r m) = m_ctx_done m" "m_ctx_done (send_line k l ts m) = m_ctx_done m"
  "m_ctx_done (store_marker k mk m) = m_ctx_done m" "m_ctx_done (count_stream m) = m_ctx_done m"
  "m_ctx_done (count_stream_error e m) = m_ctx_done m"
  by (simp_all add: request_def send_line_def store_marker_def count_stream_def count_stream_error_def)

lemma env_live [simp]:
  "live (request r m) j = live m j" "live (send_line k l ts m) j = live m j"
  "live (store_marker k mk m) j = live m j" "live (count_stream m) j = live m j"
  "live (count_stream_error e m) j = live m j" "live (m\<lparr>m_markers := mks\<rparr>) j = live m j"
  by (simp_all add: live_def)

lemmas pc_splits = task_pc.splits list.splits if_splits

lemma task_step_views:
  assumes "task_step i a m = Some m'"
  shows "m_cancels m' = m_cancels m \<and> m_restart_counts m' = m_restart_counts m
    \<and> m_handler m' = m_handler m \<and> m_run m' = m_run m \<and> m_self_pod m' = m_self_pod m
    \<and> m_ctx_done m' = m_ctx_done m
    \<and> length (m_tasks m') = length (m_tasks m)
    \<and> (live m' j \<longleftrightarrow> live m j) \<and> key_of m' j = key_of m j"
  using assms by (cases a) (auto split: pc_splits)

lemma task_step_other_pc:
  "task_step i a m = Some m' \<Longrightarrow> i < length (m_tasks m) \<Longrightarrow> j \<noteq> i \<Longrightarrow> pc_of m' j = pc_of m j"
  by (cases a) (auto split: pc_splits)

section \<open>Invariants\<close>

lemma cancels_inv_cong:
  assumes "m_cancels m' = m_cancels m" "m_restart_counts m' = m_restart_counts m"
    "\<And>i. live m' i = live m i" "\<And>i. key_of m' i = key_of m i"
  shows "cancels_inv m' = cancels_inv m"
  unfolding cancels_inv_def assms ..

lemma cancels_inv_handler [simp]:
  "cancels_inv (m\<lparr>m_handler := ops\<rparr>) = cancels_inv m" "cancels_inv (m\<lparr>m_run := r\<rparr>) = cancels_inv m"
  "cancels_inv (m\<lparr>m_ready := b\<rparr>) = cancels_inv m"
  "cancels_inv (m\<lparr>m_ctx_done := c\<rparr>) = cancels_inv m"
  by (rule cancels_inv_cong; simp add: live_def)+

lemma tl_step_cancels_inv [wf_intros]:
  assumes "cancels_inv m" "tl_step a m = Some m'"
  shows "cancels_inv m'"
proof (cases a)
  case (Task i ta)
  then have "task_step i ta m = Some m'" using assms(2) by (simp split: if_splits)
  note v = task_step_views [OF this]
  show ?thesis using assms(1) v by (subst cancels_inv_cong [of m' m]) auto
next
  case Handle
  with assms show ?thesis by (auto split: list.splits intro: do_op_inv)
qed (use assms in \<open>auto split: if_splits\<close>)

text \<open>Nothing of the process's own pod is ever started, asked for or sent.\<close>

fun op_tails :: "string \<Rightarrow> handler_op \<Rightarrow> bool" where
  "op_tails pod (Reconcile p cs) = (p = pod)"
| "op_tails pod _ = False"

definition started :: "manager \<Rightarrow> container_key \<Rightarrow> bool" where
  "started m k \<longleftrightarrow> (\<exists>i < length (m_tasks m). key_of m i = k)"

definition line_key :: "log_line \<Rightarrow> container_key" where
  "line_key l = Container_key (l_pod l) (l_container l)"

definition sent_inv :: "manager \<Rightarrow> bool" where
  "sent_inv m \<longleftrightarrow> (\<forall>l \<in> set (m_sent m). started m (line_key l)
     \<and> l_namespace l = m_namespace m \<and> l_level l = detect_level (l_content l))"

definition self_inv :: "manager \<Rightarrow> bool" where
  "self_inv m \<longleftrightarrow> m_self_pod m \<noteq> [] \<longrightarrow>
     (\<forall>k. started m k \<longrightarrow> ck_pod k \<noteq> m_self_pod m)
     \<and> (\<forall>op \<in> set (m_handler m). \<not> op_tails (m_self_pod m) op)"

lemma started_views [simp]:
  "started (m\<lparr>m_handler := ops\<rparr>) k = started m k" "started (m\<lparr>m_run := r\<rparr>) k = started m k"
  "started (m\<lparr>m_ready := b\<rparr>) k = started m k" "started (m\<lparr>m_ctx_done := c\<rparr>) k = started m k"
  by (simp_all add: started_def)

lemma line_key_ingested [simp]: "line_key (ingested_line ns k line ts) = k"
  by (simp add: line_key_def ingested_line_def)

lemma task_step_sent:
  assumes "task_step i a m = Some m'"
  shows "m_namespace m' = m_namespace m
    \<and> (m_sent m' = m_sent m \<or>
       (\<exists>line ts. a = Next_line ts \<and> m_sent m' = m_sent m @ [ingested_line (m_namespace m) (key_of m i) line ts]))"
  using assms
  by (cases a)
    (auto simp: request_def send_line_def store_marker_def count_stream_def count_stream_error_def
      split: pc_splits)

lemma task_step_started: "task_step i a m = Some m' \<Longrightarrow> started m' k = started m k"
  using task_step_views unfolding started_def by auto

lemma do_op_started:
  "started (do_op op m) k \<longleftrightarrow> started m k \<or>
     (\<exists>pod cs. op = Reconcile pod cs \<and> \<not> up_to_date pod cs m \<and> k = Container_key pod (cs_name cs))"
proof -
  have "key_of (stop_container key m) i = key_of m i" for key m i
    by (simp add: stop_container_def cancel_task_key split: option.split)
  then have stop: "started (stop_container key m) k = started m k" for key m
    by (simp add: started_def)
  have start: "started (start_container pod c n m) k \<longleftrightarrow> started m k \<or> k = Container_key pod c" for pod c n m
    by (auto simp: started_def length_tasks_start tasks_start less_Suc_eq start_container_views(5))
  show ?thesis
  proof (cases op)
    case (Reconcile pod cs)
    then show ?thesis by (simp add: reconcile_container_def stop start)
  next
    case (Stop key)
    then show ?thesis by (simp add: stop)
  qed (simp add: started_def)
qed

lemma sent_inv_step:
  assumes "sent_inv m" "tl_step a m = Some m'"
  shows "sent_inv m'"
proof (cases a)
  case (Task i ta)
  then have t: "task_step i ta m = Some m'" "i < length (m_tasks m)"
    using assms(2) by (simp_all split: if_splits)
  then have "started m (key_of m i)" by (auto simp: started_def)
  moreover have "l_level (ingested_line ns k line ts) = detect_level (l_content (ingested_line ns k line ts))"
    "l_namespace (ingested_line ns k line ts) = ns" for ns k line ts
    by (simp_all add: ingested_line_def)
  ultimately show ?thesis
    using assms(1) task_step_sent [OF t(1)] by (auto simp: sent_inv_def task_step_started [OF t(1)])
next
  case Handle
  then obtain op ops where "m' = do_op op (m\<lparr>m_handler := ops\<rparr>)"
    using assms(2) by (auto split: list.splits)
  then show ?thesis using assms(1) by (auto simp: sent_inv_def do_op_started)
qed (use assms in \<open>auto simp: sent_inv_def started_def split: if_splits\<close>)

lemma self_inv_step:
  assumes "self_inv m" "tl_step a m = Some m'"
  shows "self_inv m'"
proof (cases a)
  case (Task i ta)
  then have t: "task_step i ta m = Some m'" using assms(2) by (simp split: if_splits)
  show ?thesis
    using assms(1) task_step_views [OF t] by (simp add: self_inv_def task_step_started [OF t])
next
  case (Pod_seen pod)
  with assms show ?thesis
    by (auto simp: self_inv_def reconcile_ops_def split: if_splits)
next
  case (Pod_deleted pod order)
  with assms show ?thesis by (auto simp: self_inv_def stop_ops_def split: if_splits)
next
  case Handle
  then obtain op ops where h: "m_handler m = op # ops" "m' = do_op op (m\<lparr>m_handler := ops\<rparr>)"
    using assms(2) by (auto split: list.splits)
  have "m_self_pod m' = m_self_pod m" "m_handler m' = ops" by (simp_all add: h(2))
  moreover have "started m' k \<longleftrightarrow> started m k \<or> (\<exists>pod cs. op = Reconcile pod cs
      \<and> \<not> up_to_date pod cs (m\<lparr>m_handler := ops\<rparr>) \<and> k = Container_key pod (cs_name cs))" for k
    by (simp add: h(2) do_op_started)
  ultimately show ?thesis using assms(1) by (auto simp: self_inv_def h(1))
qed (use assms in \<open>auto simp: self_inv_def split: if_splits\<close>)

section \<open>Properties\<close>

lemma tl_exec_cancels_inv:
  assumes "tl_exec ok (new_manager ns ii self hs mt) m"
  shows "cancels_inv m"
  using assms by (rule tl_exec_inv) (auto intro: wf_intros)

text \<open>
  C9: in every execution a container has at most one goroutine that is not cancelled, the one that
  \<open>m.cancels\<close> has for it: a restart or an event that comes twice never makes two goroutines tail the
  same container, and a goroutine that is not registered any more has been cancelled.
\<close>

theorem one_tailer_per_container:
  assumes "tl_exec ok (new_manager ns ii self hs mt) m"
  shows "(\<forall>k i. map_of (m_cancels m) k = Some i \<longleftrightarrow> live m i \<and> key_of m i = k)
    \<and> (\<forall>i j. live m i \<and> live m j \<and> key_of m i = key_of m j \<longrightarrow> i = j)"
proof -
  have inv: "cancels_inv m" using assms by (rule tl_exec_cancels_inv)
  then show ?thesis using live_unique [OF inv] unfolding cancels_inv_def by blast
qed

text \<open>
  C17: the process never tails its own pod (when it knows its name): no goroutine is started for it
  and no line of it reaches the sink. Every line that does is of a container that was started, has
  the namespace and the level that was detected in it.
\<close>

theorem never_tails_itself:
  assumes "tl_exec ok (new_manager ns ii self hs mt) m" "self \<noteq> []"
  shows "(\<forall>i < length (m_tasks m). ck_pod (key_of m i) \<noteq> self)
    \<and> (\<forall>l \<in> set (m_sent m). l_pod l \<noteq> self \<and> started m (line_key l) \<and> l_namespace l = ns
         \<and> l_level l = detect_level (l_content l))"
proof -
  have *: "cancels_inv m \<and> self_inv m \<and> sent_inv m \<and> m_self_pod m = self \<and> m_namespace m = ns"
    using assms(1)
  proof (rule tl_exec_inv)
    show "cancels_inv (new_manager ns ii self hs mt) \<and> self_inv (new_manager ns ii self hs mt)
        \<and> sent_inv (new_manager ns ii self hs mt) \<and> m_self_pod (new_manager ns ii self hs mt) = self
        \<and> m_namespace (new_manager ns ii self hs mt) = ns"
      by (simp add: wf_intros) (simp add: self_inv_def sent_inv_def new_manager_def started_def)
  next
    fix a m m'
    assume inv: "cancels_inv m \<and> self_inv m \<and> sent_inv m \<and> m_self_pod m = self \<and> m_namespace m = ns"
      and step: "tl_step a m = Some m'"
    have "m_self_pod m' = m_self_pod m \<and> m_namespace m' = m_namespace m"
      using step task_step_views task_step_sent by (cases a) (auto split: if_splits list.splits)
    with inv show "cancels_inv m' \<and> self_inv m' \<and> sent_inv m' \<and> m_self_pod m' = self \<and> m_namespace m' = ns"
      using tl_step_cancels_inv [OF _ step] self_inv_step [OF _ step] sent_inv_step [OF _ step] by simp
  qed
  then have other: "ck_pod k \<noteq> self" if "started m k" for k
    using that assms(2) by (auto simp: self_inv_def)
  have "l_pod l \<noteq> self" if "l \<in> set (m_sent m)" for l
    using other [of "line_key l"] * that by (simp add: sent_inv_def line_key_def)
  then show ?thesis
    using other * by (simp add: sent_inv_def) (auto simp: started_def)
qed


section \<open>Shutdown\<close>

text \<open>
  What \<open>Run\<close> relies on: client-go opens no stream under a context that is done.
\<close>

definition respects_ctx :: "action \<Rightarrow> manager \<Rightarrow> bool" where
  "respects_ctx a m =
     (case a of
        Task i (Fetch_opens text) \<Rightarrow> \<not> task_done m i
      | Task i (Open_succeeds text) \<Rightarrow> \<not> task_done m i
      | _ \<Rightarrow> True)"

text \<open>Where a goroutine can be without being able to reach \<open>ingest\<close> once its context is done.\<close>

definition quiet_pc :: "task_pc \<Rightarrow> bool" where
  "quiet_pc pc = (case pc of
     Fetching \<Rightarrow> True | Resolving \<Rightarrow> True | Looked_up _ \<Rightarrow> True | Looping _ \<Rightarrow> True | Returned \<Rightarrow> True
   | _ \<Rightarrow> False)"

definition run_inv :: "manager \<Rightarrow> bool" where
  "run_inv m \<longleftrightarrow>
     (\<not> informing m \<longrightarrow> m_tasks m = [] \<and> m_handler m = [])
     \<and> (m_run m \<in> {Run_draining, Run_returned} \<longrightarrow> m_ctx_done m)
     \<and> (m_run m = Run_returned \<longrightarrow> (\<forall>i < length (m_tasks m). quiet_pc (pc_of m i)))"

lemma informing_run: "m_run m' = m_run m \<Longrightarrow> informing m' = informing m"
  by (simp add: informing_def)

lemma quiet_step:
  assumes "task_step i a m = Some m'" "i < length (m_tasks m)" "quiet_pc (pc_of m i)"
    "m_ctx_done m" "respects_ctx (Task i a) m"
  shows "quiet_pc (pc_of m' i) \<and> m_sent m' = m_sent m"
  using assms
  by (cases a)
    (auto simp: quiet_pc_def task_done_def respects_ctx_def request_def store_marker_def split: pc_splits)

lemma do_op_pcs:
  "i < length (m_tasks (do_op op m)) \<Longrightarrow>
   pc_of (do_op op m) i = Fetching \<or> i < length (m_tasks m) \<and> pc_of (do_op op m) i = pc_of m i"
proof -
  have c: "length (m_tasks (stop_container k m)) = length (m_tasks m)"
    "pc_of (stop_container k m) i = pc_of m i" for k m
    by (simp, simp add: stop_container_def cancel_task_pc split: option.splits)
  show "i < length (m_tasks (do_op op m)) \<Longrightarrow>
      pc_of (do_op op m) i = Fetching \<or> i < length (m_tasks m) \<and> pc_of (do_op op m) i = pc_of m i"
    by (cases op)
      (auto simp: reconcile_container_def c start_container_def Let_def nth_append split: if_splits)
qed

lemma run_inv_step:
  assumes "run_inv m" "respects_ctx a m" "tl_step a m = Some m'"
  shows "run_inv m' \<and> (m_run m = Run_returned \<longrightarrow> m_run m' = Run_returned \<and> m_sent m' = m_sent m)"
proof (cases a)
  case (Task i ta)
  then have t: "task_step i ta m = Some m'" "i < length (m_tasks m)"
    using assms(3) by (simp_all split: if_splits)
  note v = task_step_views [OF t(1)]
  have "informing m" using assms(1) t(2) by (auto simp: run_inv_def)
  moreover have "m_run m' = m_run m" using v by blast
  ultimately have inf: "informing m'" "informing m" by (simp_all add: informing_run [of m' m])
  show ?thesis
  proof (cases "m_run m = Run_returned")
    case True
    then have "m_ctx_done m" "\<forall>j < length (m_tasks m). quiet_pc (pc_of m j)"
      using assms(1) by (simp_all add: run_inv_def)
    then have q: "quiet_pc (pc_of m' i) \<and> m_sent m' = m_sent m"
      using quiet_step [OF t(1,2)] assms(2) t(2) Task by blast
    have "quiet_pc (pc_of m' j)" if "j < length (m_tasks m)" for j
      using q task_step_other_pc [OF t, of j] \<open>\<forall>j < _. _\<close> that by (cases "j = i") simp_all
    with True q v inf assms(1) show ?thesis by (simp add: run_inv_def)
  next
    case False
    with v inf assms(1) show ?thesis by (auto simp: run_inv_def)
  qed
next
  case Handle
  then obtain op ops where h: "m_handler m = op # ops" "m' = do_op op (m\<lparr>m_handler := ops\<rparr>)"
    using assms(3) by (auto split: list.splits)
  then have "informing m" "informing m'" "m_run m' = m_run m" "m_ctx_done m' = m_ctx_done m" "m_sent m' = m_sent m"
    using assms(1) informing_run [of m' m] by (auto simp: run_inv_def)
  moreover have "quiet_pc (pc_of m' i)" if "m_run m = Run_returned" "i < length (m_tasks m')" for i
    using do_op_pcs [of i op "m\<lparr>m_handler := ops\<rparr>"] that assms(1) h(2)
    by (auto simp: run_inv_def quiet_pc_def [of Fetching])
  ultimately show ?thesis using assms(1) by (auto simp: run_inv_def)
next
  case (Add_handler err)
  with assms show ?thesis by (auto simp: run_inv_def informing_def split: option.splits if_splits)
next
  case Wait_done
  with assms show ?thesis
    by (auto simp: run_inv_def informing_def all_returned_def list_all_length quiet_pc_def split: if_splits)
qed (use assms in \<open>auto simp: run_inv_def informing_def split: if_splits\<close>)

lemma run_inv_new: "run_inv (new_manager ns ii self hs mt)"
  by (simp add: run_inv_def new_manager_def informing_def)

lemma run_inv_exec:
  assumes "tl_exec ok (new_manager ns ii self hs mt) m" "\<forall>a m. ok a m \<longrightarrow> respects_ctx a m"
  shows "run_inv m"
  using assms(1) run_inv_new by (rule tl_exec_inv) (use assms(2) run_inv_step in blast)

text \<open>
  C10: when \<open>Run\<close> has returned after its context was cancelled, no line reaches the sink any more,
  whatever still runs: the caller may close the queue. That also covers a handler that was
  still busy and starts a goroutine after \<open>m.wg.Wait\<close> has returned. It relies on client-go, which opens
  no stream under a cancelled context.
\<close>

theorem run_returned_is_quiet:
  assumes "tl_exec ok (new_manager ns ii self hs mt) m" "\<forall>a m. ok a m \<longrightarrow> respects_ctx a m"
    "m_run m = Run_returned" "tl_exec ok m m'"
  shows "m_sent m' = m_sent m \<and> m_run m' = Run_returned"
proof -
  have "run_inv m' \<and> m_sent m' = m_sent m \<and> m_run m' = Run_returned"
    using assms(4)
  proof (rule tl_exec_inv)
    show "run_inv m \<and> m_sent m = m_sent m \<and> m_run m = Run_returned"
      using run_inv_exec [OF assms(1,2)] assms(3) by simp
  next
    fix a n n'
    assume "run_inv n \<and> m_sent n = m_sent m \<and> m_run n = Run_returned" "ok a n" "tl_step a n = Some n'"
    then show "run_inv n' \<and> m_sent n' = m_sent m \<and> m_run n' = Run_returned"
      using run_inv_step [of n a n'] assms(2) by auto
  qed
  then show ?thesis by blast
qed

text \<open>
  How many steps a goroutine has left when its context is done. A stream that is open still delivers
  what it has.
\<close>

definition pc_rank :: "task_pc \<Rightarrow> nat" where
  "pc_rank pc = (case pc of
       Returned \<Rightarrow> 0 | Looping _ \<Rightarrow> 1 | After_stream _ _ \<Rightarrow> 1 | Looked_up _ \<Rightarrow> 2 | Waiting _ \<Rightarrow> 2
     | Opening _ _ \<Rightarrow> 2 | Resolving \<Rightarrow> 3 | Fetching \<Rightarrow> 4
     | Ingesting_previous toks \<Rightarrow> 4 + length toks
     | Streaming _ toks \<Rightarrow> 2 + 2 * length toks | Marking _ _ toks \<Rightarrow> 3 + 2 * length toks)"

definition shutdown_rank :: "manager \<Rightarrow> nat" where
  "shutdown_rank m = sum_list (map (pc_rank \<circ> t_pc) (m_tasks m))"

text \<open>The goroutines' steps alone, as they are left to run by \<open>m.wg.Wait\<close>.\<close>

inductive tasks_run :: "manager \<Rightarrow> nat \<Rightarrow> manager \<Rightarrow> bool" for m0 where
  run_nothing: "tasks_run m0 0 m0"
| run_step: "tasks_run m0 n m \<Longrightarrow> respects_ctx (Task i a) m \<Longrightarrow> tl_step (Task i a) m = Some m' \<Longrightarrow>
    tasks_run m0 (Suc n) m'"

lemma task_step_rank:
  assumes "task_step i a m = Some m'" "i < length (m_tasks m)" "m_ctx_done m" "respects_ctx (Task i a) m"
  shows "pc_rank (pc_of m' i) < pc_rank (pc_of m i)"
  using assms by (cases a) (auto simp: pc_rank_def task_done_def respects_ctx_def split: pc_splits)

lemma shutdown_rank_step:
  assumes "tl_step (Task i a) m = Some m'" "m_ctx_done m" "respects_ctx (Task i a) m"
  shows "shutdown_rank m' < shutdown_rank m"
proof -
  have t: "task_step i a m = Some m'" "i < length (m_tasks m)"
    using assms(1) by (simp_all split: if_splits)
  have len: "length (m_tasks m') = length (m_tasks m)" using task_step_views [OF t(1)] by blast
  have r: "shutdown_rank n = (\<Sum>j < length (m_tasks n). pc_rank (pc_of n j))" for n
    by (simp add: shutdown_rank_def sum_list_sum_nth atLeast0LessThan)
  have "(\<Sum>j < length (m_tasks m). pc_rank (pc_of m' j)) < (\<Sum>j < length (m_tasks m). pc_rank (pc_of m j))"
  proof (rule sum_strict_mono_ex1)
    show "\<forall>j \<in> {..<length (m_tasks m)}. pc_rank (pc_of m' j) \<le> pc_rank (pc_of m j)"
      using task_step_rank [OF t assms(2,3)] task_step_other_pc [OF t]
      by (metis less_imp_le order_refl)
    show "\<exists>j \<in> {..<length (m_tasks m)}. pc_rank (pc_of m' j) < pc_rank (pc_of m j)"
      using task_step_rank [OF t assms(2,3)] t(2) by blast
  qed simp
  then show ?thesis by (simp add: r len)
qed

lemma tasks_run_rank:
  assumes "tasks_run m n m'" "m_ctx_done m"
  shows "m_ctx_done m' \<and> n + shutdown_rank m' \<le> shutdown_rank m"
  using assms
proof induction
  case (run_step n m i a m')
  then have "task_step i a m = Some m'" by (simp split: if_splits)
  with run_step shutdown_rank_step [OF run_step.hyps(3) _ run_step.hyps(2)] task_step_views [of i a m m']
  show ?case by force
qed simp

text \<open>A goroutine that has not returned always has a next step.\<close>

lemma task_enabled:
  assumes "i < length (m_tasks m)" "pc_of m i \<noteq> Returned"
  shows "\<exists>a m'. respects_ctx (Task i a) m \<and> tl_step (Task i a) m = Some m'"
proof -
  have "\<exists>a. respects_ctx (Task i a) m \<and> task_step i a m \<noteq> None"
  proof (cases "pc_of m i")
    case Fetching
    then show ?thesis by (intro exI [of _ Fetch_fails]) (simp add: respects_ctx_def)
  next
    case (Ingesting_previous toks)
    then show ?thesis
      by (cases toks; intro exI [of _ "if toks = [] then Stream_ends else Next_line zero_time"])
        (simp_all add: respects_ctx_def)
  next
    case Resolving
    then show ?thesis by (intro exI [of _ "Resolve (Inr None)"]) (simp add: respects_ctx_def)
  next
    case (Looked_up mk)
    then show ?thesis by (intro exI [of _ Store_marker]) (simp add: respects_ctx_def)
  next
    case (Looping b)
    then show ?thesis by (intro exI [of _ Check_ctx]) (simp add: respects_ctx_def)
  next
    case (Opening b since)
    then show ?thesis by (intro exI [of _ "Open_fails []"]) (simp add: respects_ctx_def)
  next
    case (Streaming b toks)
    then show ?thesis
      by (cases toks; intro exI [of _ "if toks = [] then Stream_ends else Next_line zero_time"])
        (simp_all add: respects_ctx_def)
  next
    case (Marking b ts toks)
    then show ?thesis by (intro exI [of _ Set_marker]) (simp add: respects_ctx_def)
  next
    case (After_stream b err)
    then show ?thesis by (intro exI [of _ Stream_returned]) (simp add: respects_ctx_def)
  next
    case (Waiting b)
    then show ?thesis by (intro exI [of _ Timer_fires]) (simp add: respects_ctx_def)
  qed (use assms in simp)
  then show ?thesis using assms(1) by auto
qed

lemma tasks_enabled:
  "\<not> all_returned m \<Longrightarrow> \<exists>i a m'. respects_ctx (Task i a) m \<and> tl_step (Task i a) m = Some m'"
  using task_enabled [of _ m] unfolding all_returned_def list_all_length by blast

text \<open>
  C18: the shutdown ends. From the moment the context is cancelled, the goroutines that exist have at
  most \<open>shutdown_rank\<close> steps left, one that has not returned is never stuck, and when all have,
  \<open>m.wg.Wait\<close> returns.
\<close>

theorem shutdown_terminates:
  assumes "m_ctx_done m"
  shows "(\<forall>n m'. tasks_run m n m' \<longrightarrow> n \<le> shutdown_rank m)
    \<and> (\<not> all_returned m \<longrightarrow> (\<exists>i a m'. respects_ctx (Task i a) m \<and> tl_step (Task i a) m = Some m'))
    \<and> (all_returned m \<and> m_run m = Run_draining \<longrightarrow>
         tl_step Wait_done m = Some (m\<lparr>m_run := Run_returned\<rparr>))"
proof -
  have "n \<le> shutdown_rank m" if "tasks_run m n m'" for n m'
    using tasks_run_rank [OF that assms] by simp
  with tasks_enabled show ?thesis by auto
qed


section \<open>The backoff\<close>

lemma next_backoff_min: "next_backoff (min (initial_backoff * 2 ^ n) max_backoff) = min (initial_backoff * 2 ^ Suc n) max_backoff"
proof -
  have "max_backoff = 20 * initial_backoff" "0 < initial_backoff"
    by (simp_all add: max_backoff_def initial_backoff_def second_ns_def)
  then show ?thesis by (auto simp: next_backoff_def Let_def min_def)
qed

definition backoff_ok :: "int \<Rightarrow> bool" where
  "backoff_ok b \<longleftrightarrow> (\<exists>n. b = min (initial_backoff * 2 ^ n) max_backoff)"

lemma backoff_ok_initial: "backoff_ok initial_backoff"
  unfolding backoff_ok_def
  by (rule exI [of _ 0]) (simp add: max_backoff_def initial_backoff_def second_ns_def)

lemma backoff_ok_next: "backoff_ok b \<Longrightarrow> backoff_ok (next_backoff b)"
  unfolding backoff_ok_def using next_backoff_min by blast

definition pc_backoff :: "task_pc \<Rightarrow> int option" where
  "pc_backoff pc = (case pc of
     Looping b \<Rightarrow> Some b | Opening b _ \<Rightarrow> Some b | Streaming b _ \<Rightarrow> Some b | Marking b _ _ \<Rightarrow> Some b
   | After_stream b _ \<Rightarrow> Some b | Waiting b \<Rightarrow> Some b | _ \<Rightarrow> None)"

definition backoff_inv :: "manager \<Rightarrow> bool" where
  "backoff_inv m \<longleftrightarrow> (\<forall>i < length (m_tasks m). \<forall>b. pc_backoff (pc_of m i) = Some b \<longrightarrow> backoff_ok b)"

lemma backoff_inv_new: "backoff_inv (new_manager ns ii self hs mt)"
  by (simp add: backoff_inv_def new_manager_def)

lemma task_step_backoff:
  assumes "task_step i a m = Some m'" "i < length (m_tasks m)" "pc_backoff (pc_of m' i) = Some b"
  shows "b = initial_backoff \<or> pc_backoff (pc_of m i) = Some b
    \<or> (\<exists>b'. pc_backoff (pc_of m i) = Some b' \<and> b = next_backoff b')"
  using assms by (cases a) (auto simp: pc_backoff_def split: pc_splits)

lemma backoff_inv_step:
  assumes "backoff_inv m" "tl_step a m = Some m'"
  shows "backoff_inv m'"
proof (cases a)
  case (Task i ta)
  then have t: "task_step i ta m = Some m'" "i < length (m_tasks m)"
    using assms(2) by (simp_all split: if_splits)
  have "backoff_ok b" if "j < length (m_tasks m)" "pc_backoff (pc_of m' j) = Some b" for j b
  proof (cases "j = i")
    case True
    then show ?thesis
      using task_step_backoff [OF t, of b] that assms(1) backoff_ok_initial backoff_ok_next
      by (auto simp: backoff_inv_def)
  next
    case False
    then show ?thesis using task_step_other_pc [OF t False] that assms(1) by (simp add: backoff_inv_def)
  qed
  moreover have "length (m_tasks m') = length (m_tasks m)" using task_step_views [OF t(1)] by blast
  ultimately show ?thesis by (simp add: backoff_inv_def)
next
  case Handle
  then obtain op ops where h: "m' = do_op op (m\<lparr>m_handler := ops\<rparr>)"
    using assms(2) by (auto split: list.splits)
  have "backoff_ok b" if "i < length (m_tasks m')" "pc_backoff (pc_of m' i) = Some b" for i b
    using do_op_pcs [of i op "m\<lparr>m_handler := ops\<rparr>"] that assms(1)
    by (auto simp: h backoff_inv_def pc_backoff_def [of Fetching])
  then show ?thesis by (simp add: backoff_inv_def)
qed (use assms in \<open>auto simp: backoff_inv_def split: if_splits\<close>)

text \<open>
  C26: the wait before a reconnect is always the initial 250 ms doubled some number of times and cut at
  5 s, in every execution: it is never shorter, never longer, and nothing else is waited.
\<close>

theorem backoff_capped:
  assumes "tl_exec ok (new_manager ns ii self hs mt) m" "i < length (m_tasks m)" "pc_of m i = Waiting b"
  shows "(\<exists>n. b = min (250000000 * 2 ^ n) 5000000000) \<and> 250000000 \<le> b \<and> b \<le> 5000000000"
proof -
  have "backoff_inv m"
    using assms(1) backoff_inv_new by (rule tl_exec_inv) (rule backoff_inv_step)
  then have "backoff_ok b" using assms(2,3) by (auto simp: backoff_inv_def pc_backoff_def)
  then obtain n where b: "b = min (250000000 * 2 ^ n) 5000000000"
    by (auto simp: backoff_ok_def initial_backoff_def max_backoff_def second_ns_def)
  moreover have "(1::int) \<le> 2 ^ n" by simp
  ultimately show ?thesis by (auto simp: min_def)
qed

section \<open>Where a stream resumes\<close>

text \<open>
  A time at which a line of the container was ingested: by this process, or before, as the store knows.
  \<open>P\<close> is the latter.
\<close>

definition sourced :: "(container_key \<Rightarrow> go_time \<Rightarrow> bool) \<Rightarrow> manager \<Rightarrow> container_key \<Rightarrow> go_time \<Rightarrow> bool" where
  "sourced P m k t \<longleftrightarrow> t = zero_time \<or> (\<exists>l \<in> set (m_sent m). line_key l = k \<and> l_timestamp l = t) \<or> P k t"

definition pc_sourced :: "(container_key \<Rightarrow> go_time \<Rightarrow> bool) \<Rightarrow> manager \<Rightarrow> nat \<Rightarrow> bool" where
  "pc_sourced P m i =
     (case pc_of m i of
        Looked_up mk \<Rightarrow> sourced P m (key_of m i) (mk_ts mk)
      | Opening b since \<Rightarrow> sourced P m (key_of m i) since
      | Marking b ts toks \<Rightarrow> sourced P m (key_of m i) ts
      | _ \<Rightarrow> True)"

definition since_inv :: "(container_key \<Rightarrow> go_time \<Rightarrow> bool) \<Rightarrow> manager \<Rightarrow> bool" where
  "since_inv P m \<longleftrightarrow> (\<forall>k. sourced P m k (marker_since k (m_markers m)))
     \<and> (\<forall>i < length (m_tasks m). pc_sourced P m i)
     \<and> (\<forall>r \<in> set (m_requests m). \<forall>t. lr_since r = Some t \<longrightarrow> \<not> is_zero t \<and> sourced P m (lr_key r) t)"

definition answers :: "(container_key \<Rightarrow> go_time \<Rightarrow> bool) \<Rightarrow> action \<Rightarrow> manager \<Rightarrow> bool" where
  "answers P a m = (case a of Task i (Resolve (Inr (Some t))) \<Rightarrow> P (key_of m i) t | _ \<Rightarrow> True)"

lemma sourced_mono:
  "sourced P m k t \<Longrightarrow> set (m_sent m) \<subseteq> set (m_sent m') \<Longrightarrow> sourced P m' k t"
  by (auto simp: sourced_def)

lemma sourced_zero [simp]: "sourced P m k zero_time"
  by (simp add: sourced_def)

lemma marker_since_store:
  "marker_since k (m_markers (store_marker key mk m)) =
     (if k = key \<and> \<not> known key m then mk_ts mk else marker_since k (m_markers m))"
  by (simp add: store_marker_def marker_since_def marker_at_def map_of_upd)

lemma looked_up_ts: "mk_ts (looked_up hs r) \<in> {zero_time} \<union> {t. r = Inr (Some t)}"
  by (auto simp: looked_up_def Let_def no_marker_def split: sum.splits option.splits)

text \<open>The three parts of the invariant, step by step.\<close>

lemma task_step_marker:
  assumes "task_step i a m = Some m'"
  shows "marker_since k (m_markers m') = marker_since k (m_markers m)
    \<or> k = key_of m i \<and> ((\<exists>b ts toks. pc_of m i = Marking b ts toks \<and> marker_since k (m_markers m') = ts)
        \<or> (\<exists>mk. pc_of m i = Looked_up mk \<and> marker_since k (m_markers m') = mk_ts mk))"
  using assms
  by (cases a)
    (auto simp: marker_since_set marker_since_store request_def send_line_def count_stream_def
      count_stream_error_def split: pc_splits)

lemma task_step_pc:
  assumes "task_step i a m = Some m'" "i < length (m_tasks m)"
  shows "case pc_of m' i of
      Looked_up mk \<Rightarrow> (\<exists>r. a = Resolve r \<and> mk = looked_up (m_has_store m) r)
    | Opening b since \<Rightarrow> since = marker_since (key_of m i) (m_markers m)
    | Marking b ts toks \<Rightarrow> (\<exists>line. m_sent m' = m_sent m @ [ingested_line (m_namespace m) (key_of m i) line ts])
    | _ \<Rightarrow> True"
  using assms by (cases a) (auto simp: send_line_def split: pc_splits)

lemma task_step_requests:
  assumes "task_step i a m = Some m'"
  shows "m_requests m' = m_requests m \<or> m_requests m' = m_requests m @ [previous_request (key_of m i)]
    \<or> (\<exists>b since. pc_of m i = Opening b since \<and> m_requests m' = m_requests m @ [stream_request (key_of m i) since])"
  using assms
  by (cases a)
    (auto simp: request_def send_line_def store_marker_def count_stream_def count_stream_error_def
      split: pc_splits)

lemma since_inv_task:
  assumes "since_inv P m" "task_step i a m = Some m'" "i < length (m_tasks m)" "answers P (Task i a) m"
  shows "since_inv P m'"
proof -
  note v = task_step_views [OF assms(2)]
  have sub: "set (m_sent m) \<subseteq> set (m_sent m')" using task_step_sent [OF assms(2)] by auto
  have pcs: "pc_sourced P m i" using assms(1,3) by (simp add: since_inv_def)
  have "sourced P m k (marker_since k (m_markers m'))" for k
    using task_step_marker [OF assms(2), of k] assms(1) pcs
    by (auto simp: since_inv_def pc_sourced_def)
  then have "\<forall>k. sourced P m' k (marker_since k (m_markers m'))"
    using sub sourced_mono by blast
  moreover have "pc_sourced P m' j" if "j < length (m_tasks m)" for j
  proof (cases "j = i")
    case True
    have r: "sourced P m' (key_of m i) (mk_ts (looked_up hs r))" if "a = Resolve r" for r hs
    proof -
      consider "mk_ts (looked_up hs r) = zero_time" | t where "r = Inr (Some t)" "mk_ts (looked_up hs r) = t"
        using looked_up_ts [of hs r] by blast
      then show ?thesis
        using assms(4) that by cases (simp_all add: answers_def sourced_def)
    qed
    have t: "sourced P m' (key_of m i) (marker_since (key_of m i) (m_markers m))"
      using assms(1) sub sourced_mono unfolding since_inv_def by blast
    have l: "sourced P m' (key_of m i) ts"
      if "m_sent m' = m_sent m @ [ingested_line (m_namespace m) (key_of m i) line ts]" for line ts
      using that by (auto simp: sourced_def) (simp_all add: ingested_line_def)
    show ?thesis
      using task_step_pc [OF assms(2,3)] r t l v [of i] unfolding True pc_sourced_def
      by (auto split: task_pc.splits)
  next
    case False
    have "pc_sourced P m j" using assms(1) that by (simp add: since_inv_def)
    then show ?thesis
      using task_step_other_pc [OF assms(2,3) False] v [of j] sourced_mono [OF _ sub]
      by (auto simp: pc_sourced_def split: task_pc.splits)
  qed
  moreover have "\<forall>r \<in> set (m_requests m'). \<forall>t. lr_since r = Some t \<longrightarrow> \<not> is_zero t \<and> sourced P m' (lr_key r) t"
  proof -
    have "\<not> is_zero t \<and> sourced P m (lr_key r) t"
      if "r \<in> set (m_requests m')" "lr_since r = Some t" for r t
      using task_step_requests [OF assms(2)] that assms(1) pcs
      by (auto simp: since_inv_def pc_sourced_def previous_request_def stream_request_def split: if_splits)
    then show ?thesis using sub sourced_mono by blast
  qed
  moreover have "length (m_tasks m') = length (m_tasks m)" using v by blast
  ultimately show ?thesis by (simp add: since_inv_def)
qed

lemma since_inv_cong:
  assumes "m_sent m' = m_sent m" "m_requests m' = m_requests m"
    "\<And>k. marker_since k (m_markers m') \<in> {zero_time, marker_since k (m_markers m)}"
    "\<And>i. i < length (m_tasks m') \<Longrightarrow> pc_of m' i = Fetching \<or>
       i < length (m_tasks m) \<and> pc_of m' i = pc_of m i \<and> key_of m' i = key_of m i"
    "since_inv P m"
  shows "since_inv P m'"
proof -
  have s: "sourced P m' k t = sourced P m k t" for k t by (simp add: sourced_def assms(1))
  have "pc_sourced P m' i" if "i < length (m_tasks m')" for i
    using assms(4) [OF that]
  proof
    assume "i < length (m_tasks m) \<and> pc_of m' i = pc_of m i \<and> key_of m' i = key_of m i"
    moreover from this have "pc_sourced P m i" using assms(5) by (simp add: since_inv_def)
    ultimately show ?thesis by (cases "pc_of m i") (simp_all add: pc_sourced_def s)
  qed (simp add: pc_sourced_def)
  moreover have "sourced P m' k (marker_since k (m_markers m'))" for k
    using assms(3) [of k] assms(5) by (auto simp: s since_inv_def)
  ultimately show ?thesis using assms(2,5) by (simp add: since_inv_def s)
qed

lemma do_op_marker:
  "marker_since k (m_markers (do_op op m)) \<in> {zero_time, marker_since k (m_markers m)}"
  by (cases op)
    (auto simp: reconcile_container_def start_container_def stop_container_def cancel_task_def Let_def
      split: option.splits)

lemma do_op_keys:
  "i < length (m_tasks m) \<Longrightarrow> key_of (do_op op m) i = key_of m i"
proof -
  assume "i < length (m_tasks m)"
  moreover have "key_of (stop_container k n) j = key_of n j" for k n j
    by (simp add: stop_container_def cancel_task_key split: option.split)
  ultimately show ?thesis by (cases op) (simp_all add: reconcile_container_def tasks_start)
qed

lemma since_inv_step:
  assumes "since_inv P m" "answers P a m" "tl_step a m = Some m'"
  shows "since_inv P m'"
proof (cases a)
  case (Task i ta)
  then show ?thesis using assms since_inv_task [of P m i ta m'] by (simp split: if_splits)
next
  case Handle
  then obtain op ops where h: "m' = do_op op (m\<lparr>m_handler := ops\<rparr>)"
    using assms(3) by (auto split: list.splits)
  have "since_inv P (m\<lparr>m_handler := ops\<rparr>)"
    by (rule since_inv_cong [OF _ _ _ _ assms(1)]) simp_all
  then show ?thesis
    unfolding h
    by (rule since_inv_cong [rotated 4])
      (use do_op_marker [of _ op "m\<lparr>m_handler := ops\<rparr>"] do_op_pcs [of _ op "m\<lparr>m_handler := ops\<rparr>"]
        do_op_keys [of _ "m\<lparr>m_handler := ops\<rparr>" op] in auto)
qed (use assms in \<open>auto split: if_splits intro!: since_inv_cong [OF _ _ _ _ assms(1)]\<close>)

text \<open>
  \<open>MarkerStore\<close>: what \<open>LastSeen\<close> finds is the time of a line that the store has for the container. An
  answer depends on \<open>'s\<close>, and \<open>S\<close> has what it may be during the execution.
\<close>

definition asks :: "('s \<Rightarrow> container_key \<Rightarrow> go_time option result) \<Rightarrow> 's set \<Rightarrow> action \<Rightarrow> manager \<Rightarrow> bool" where
  "asks seen S a m = (case a of Task i (Resolve r) \<Rightarrow> \<exists>s \<in> S. r = seen s (key_of m i) | _ \<Rightarrow> True)"

locale marker_store =
  fixes seen :: "'s \<Rightarrow> container_key \<Rightarrow> go_time option result"
    and stored :: "'s \<Rightarrow> container_key \<Rightarrow> go_time \<Rightarrow> bool"
  assumes seen_stored: "seen s k = Inr (Some t) \<Longrightarrow> stored s k t"
begin

lemma asks_answers: "asks seen S a m \<Longrightarrow> answers (\<lambda>k t. \<exists>s \<in> S. stored s k t) a m"
  using seen_stored by (fastforce simp: asks_def answers_def split: action.splits task_action.splits sum.splits option.splits)

lemma since_sourced:
  assumes "tl_exec (asks seen S) (new_manager ns ii self hs mt) m" "r \<in> set (m_requests m)" "lr_since r = Some t"
  shows "\<not> is_zero t \<and> sourced (\<lambda>k t. \<exists>s \<in> S. stored s k t) m (lr_key r) t"
proof -
  have "since_inv (\<lambda>k t. \<exists>s \<in> S. stored s k t) m"
    using assms(1)
  proof (rule tl_exec_inv)
    show "since_inv (\<lambda>k t. \<exists>s \<in> S. stored s k t) (new_manager ns ii self hs mt)"
      by (simp add: since_inv_def new_manager_def marker_since_def marker_at_def no_marker_def)
  qed (blast intro: since_inv_step asks_answers)
  with assms(2,3) show ?thesis by (auto simp: since_inv_def)
qed

end

text \<open>\<open>Store.LastSeen\<close> at a time, with the failures that may happen, on a state of the store.\<close>

definition last_seen_at :: "faults \<times> go_time \<times> store \<Rightarrow> container_key \<Rightarrow> go_time option result" where
  "last_seen_at q k = (case q of (flt, now, s) \<Rightarrow> last_seen flt now (ck_pod k) (ck_container k) s)"

definition stored_at :: "faults \<times> go_time \<times> store \<Rightarrow> container_key \<Rightarrow> go_time \<Rightarrow> bool" where
  "stored_at q k t \<longleftrightarrow> (case q of (flt, now, s) \<Rightarrow>
     \<exists>d. \<exists>r \<in> set (pod_rows (ck_pod k) (ck_container k) (all_rows s d)). parse_rfc3339nano (r_timestamp r) = Some t)"

lemma last_seen_stored:
  "scan_days flt now pod c s is = Inr (Some t) \<Longrightarrow>
   \<exists>d. \<exists>r \<in> set (pod_rows pod c (all_rows s d)). parse_rfc3339nano (r_timestamp r) = Some t"
proof (induction "is")
  case (Cons i "is")
  let ?d = "format_date (add_days now (- int i))"
  have "\<exists>r \<in> set (pod_rows pod c (all_rows s ?d)). parse_rfc3339nano (r_timestamp r) = Some t"
    if "last_seen_in_shard flt ?d pod c s = Inr (Some t)"
    using that sql_max_Some [of "map r_timestamp (pod_rows pod c (all_rows s ?d))"]
    by (fastforce simp: last_seen_in_shard_def split: option.splits fts_table.splits)
  with Cons show ?case by (auto simp: Let_def split: if_splits sum.splits option.splits)
qed simp

interpretation last_seen_markers: marker_store last_seen_at stored_at
  by unfold_locales (auto simp: last_seen_at_def stored_at_def last_seen_def intro: last_seen_stored)

text \<open>
  C11: a stream never resumes later than the process has read: the \<open>SinceTime\<close> of every request is
  the timestamp of a line of this container that was handed to the sink, or the time of one that the
  store has from an earlier process; so only lines that were ingested are skipped by a reconnect.
\<close>

theorem reconnect_resumes_from_ingested:
  assumes "tl_exec (asks last_seen_at S) (new_manager ns ii self hs mt) m"
    "r \<in> set (m_requests m)" "lr_since r = Some t"
  shows "(\<exists>l \<in> set (m_sent m). line_key l = lr_key r \<and> l_timestamp l = t)
    \<or> (\<exists>(flt, now, s) \<in> S. \<exists>d. \<exists>row \<in> set (all_rows s d). r_pod row = ck_pod (lr_key r)
         \<and> r_container row = ck_container (lr_key r) \<and> parse_rfc3339nano (r_timestamp row) = Some t)"
proof -
  have "\<not> is_zero t" "sourced (\<lambda>k t. \<exists>s \<in> S. stored_at s k t) m (lr_key r) t"
    using last_seen_markers.since_sourced [OF assms] by simp_all
  then consider "\<exists>l \<in> set (m_sent m). line_key l = lr_key r \<and> l_timestamp l = t"
    | q where "q \<in> S" "stored_at q (lr_key r) t"
    by (auto simp: sourced_def is_zero_def zero_time_def)
  then show ?thesis
  proof cases
    case 2
    then show ?thesis by (cases q) (fastforce simp: stored_at_def pod_rows_def)
  qed simp
qed

section \<open>Running a sequence of actions\<close>

fun tl_run :: "(action \<Rightarrow> manager \<Rightarrow> bool) \<Rightarrow> action list \<Rightarrow> manager \<Rightarrow> manager option" where
  "tl_run ok [] m = Some m"
| "tl_run ok (a # as) m =
     (if ok a m then (case tl_step a m of None \<Rightarrow> None | Some m' \<Rightarrow> tl_run ok as m') else None)"

lemma tl_run_exec: "tl_run ok as m = Some m' \<Longrightarrow> tl_exec ok m0 m \<Longrightarrow> tl_exec ok m0 m'"
  by (induction ok "as" m rule: tl_run.induct) (auto split: if_splits option.splits intro: tl_next)

lemma stream_steps:
  "i < length (m_tasks m) \<Longrightarrow> pc_of m i = Streaming b toks \<Longrightarrow> length clock = length toks \<Longrightarrow>
   tl_run (\<lambda>_ _. True) (concat (map (\<lambda>ts. [Task i (Next_line ts), Task i Set_marker]) clock) @ [Task i Stream_ends]) m =
     (let (out, ms) = ingest_tokens (m_namespace m) (key_of m i) True (zip toks clock) (m_markers m)
      in Some (goto i (After_stream b None) (m\<lparr>m_sent := m_sent m @ out, m_markers := ms\<rparr>)))"
proof (induction clock arbitrary: toks m)
  case (Cons ts clock)
  then obtain line rest where toks: "toks = line # rest" by (cases toks) auto
  let ?m1 = "goto i (Marking b ts rest) (send_line (key_of m i) line ts m)"
  let ?m2 = "goto i (Streaming b rest) (?m1\<lparr>m_markers := set_marker (key_of m i) ts (m_markers m)\<rparr>)"
  have m2: "length (m_tasks ?m2) = length (m_tasks m)" "pc_of ?m2 i = Streaming b rest"
    "key_of ?m2 i = key_of m i" "m_namespace ?m2 = m_namespace m"
    "m_markers ?m2 = set_marker (key_of m i) ts (m_markers m)"
    "m_sent ?m2 = m_sent m @ [ingested_line (m_namespace m) (key_of m i) line ts]"
    "m_markers (send_line (key_of m i) line ts m) = m_markers m"
    using Cons.prems by (simp_all add: send_line_def)
  have "goto i pc (?m2\<lparr>m_sent := x, m_markers := y\<rparr>) = goto i pc (m\<lparr>m_sent := x, m_markers := y\<rparr>)" for pc x y
    using Cons.prems(1) by (simp add: goto_def send_line_def)
  with Cons.IH [of ?m2 rest] Cons.prems m2 show ?case by (simp add: toks split_beta Let_def)
qed (simp add: goto_def)

text \<open>
  The steps of a goroutine on one stream that nothing interrupts do what the function \<open>ingest\<close>
  does with the whole text: the same lines reach the sink and the marker ends the same.
\<close>

lemma stream_refines_ingest:
  assumes "i < length (m_tasks m)" "pc_of m i = Streaming b (fst (scan_tokens text))"
    "length clock = length (fst (scan_tokens text))"
  shows "tl_run (\<lambda>_ _. True)
      (concat (map (\<lambda>ts. [Task i (Next_line ts), Task i Set_marker]) clock) @ [Task i Stream_ends]) m =
    (let (out, ms) = ingest (m_namespace m) (key_of m i) text clock True (m_markers m)
     in Some (goto i (After_stream b None) (m\<lparr>m_sent := m_sent m @ out, m_markers := ms\<rparr>)))"
  using stream_steps [OF assms] by (simp add: ingest_def)

section \<open>An example\<close>

text \<open>
  One pod is seen, its container tailed; the stream delivers a line and drops, the goroutine reconnects
  once without success; then the process shuts down.
\<close>

definition example_start :: manager where
  "example_start = new_manager ''default'' False ''grepod-0'' True None"

definition web_key :: container_key where
  "web_key = Container_key ''web-0'' ''app''"

definition example_up :: "action list" where
  "example_up =
     [Add_handler None, Synced [True], Pod_seen example_pod, Handle, Task 0 Fetch_fails,
      Task 0 (Resolve (Inr None)), Task 0 Store_marker, Task 0 Check_ctx,
      Task 0 (Open_succeeds (lines_text [(''INFO up'', False)]))]"

definition example_down :: "action list" where
  "example_down =
     [Task 0 (Next_line (midnight 719163)), Task 0 Set_marker, Task 0 Stream_ends, Task 0 Stream_returned,
      Task 0 Timer_fires, Task 0 Check_ctx, Task 0 (Open_fails ''EOF''), Cancel_ctx, Run_ctx_done,
      Task 0 Stream_returned, Wait_done]"

definition streaming_manager :: manager where
  "streaming_manager = example_start\<lparr>m_cancels := [(web_key, 0)], m_restart_counts := [(web_key, 0)],
     m_markers := [(web_key, \<lparr>mk_ts = zero_time, mk_resolved = True\<rparr>)], m_ready := True,
     m_tasks := [\<lparr>t_key = web_key, t_cancelled = False, t_pc = Streaming initial_backoff [''INFO up'']\<rparr>],
     m_run := Run_waiting, m_requests := [previous_request web_key, stream_request web_key zero_time]\<rparr>"

definition returned_manager :: manager where
  "returned_manager = streaming_manager\<lparr>m_ctx_done := True,
     m_markers := [(web_key, \<lparr>mk_ts = midnight 719163, mk_resolved = True\<rparr>)],
     m_tasks := [\<lparr>t_key = web_key, t_cancelled = False, t_pc = Returned\<rparr>], m_run := Run_returned,
     m_sent := [ingested_line ''default'' web_key ''INFO up'' (midnight 719163)],
     m_requests := [previous_request web_key, stream_request web_key zero_time,
       stream_request web_key (midnight 719163)]\<rparr>"

definition example_ok :: "action \<Rightarrow> manager \<Rightarrow> bool" where
  "example_ok a m \<longleftrightarrow> respects_ctx a m \<and> asks last_seen_at {(no_faults, midnight 719163, empty_store)} a m"

lemma empty_store_unseen: "last_seen_at (no_faults, now, empty_store) k = Inr None"
proof -
  have "scan_days no_faults now pod c empty_store is = Inr None" for pod c "is"
    by (induction "is") (simp_all add: stat_ok_def empty_store_def)
  then show ?thesis by (simp add: last_seen_at_def last_seen_def)
qed

lemma example_tokens: "scan_tokens (lines_text [(''INFO up'', False)]) = ([''INFO up''], True)"
  using scan_lines_text [of "[(''INFO up'', False)]" "[]"] by (simp add: fitting_line_def line_bytes_def max_token_def)

lemmas step_defs = respects_ctx_def asks_def empty_store_unseen task_done_def informing_def goto_def
  request_def send_line_def count_stream_def count_stream_error_def

lemma example_up_run: "tl_run example_ok example_up example_start = Some streaming_manager"
  by (simp add: example_up_def example_start_def streaming_manager_def new_manager_def example_ok_def step_defs
      reconcile_ops_def statuses_of_def example_pod_def reconcile_container_def up_to_date_def
      start_container_def stop_container_def Let_def known_def looked_up_def no_marker_def store_marker_def
      marker_since_def marker_at_def example_tokens web_key_def)

lemma example_down_run: "tl_run example_ok example_down streaming_manager = Some returned_manager"
  by (simp add: example_down_def streaming_manager_def returned_manager_def example_start_def new_manager_def
      example_ok_def step_defs set_marker_def marker_since_def marker_at_def Let_def all_returned_def
      after_def zero_time_def day_ns_def)

lemma example_exec_up: "tl_exec example_ok example_start streaming_manager"
  using example_up_run tl_start by (rule tl_run_exec)

lemma example_exec_down: "tl_exec example_ok example_start returned_manager"
  using example_down_run example_exec_up by (rule tl_run_exec)

lemma one_tailer_per_container_witness:
  "map_of (m_cancels streaming_manager) web_key = Some 0 \<longleftrightarrow>
     live streaming_manager 0 \<and> key_of streaming_manager 0 = web_key"
  using one_tailer_per_container [OF example_exec_up [unfolded example_start_def]] by blast

lemma never_tails_itself_witness:
  "l_pod (ingested_line ''default'' web_key ''INFO up'' (midnight 719163)) \<noteq> ''grepod-0''"
  using never_tails_itself [OF example_exec_down [unfolded example_start_def]]
  by (simp add: returned_manager_def)

text \<open>A handler that is late: it starts a goroutine after \<open>Run\<close> has returned.\<close>

lemma example_late_run:
  "\<exists>m. tl_run example_ok [Pod_seen (example_pod\<lparr>pod_name := ''web-1''\<rparr>), Handle, Task 1 Fetch_fails]
     returned_manager = Some m"
  by (simp add: returned_manager_def streaming_manager_def example_start_def new_manager_def example_ok_def
      step_defs reconcile_ops_def statuses_of_def example_pod_def reconcile_container_def up_to_date_def
      start_container_def stop_container_def Let_def web_key_def)

lemma run_returned_is_quiet_witness:
  "m_sent (the (tl_run example_ok [Pod_seen (example_pod\<lparr>pod_name := ''web-1''\<rparr>), Handle, Task 1 Fetch_fails]
     returned_manager)) = m_sent returned_manager"
proof -
  obtain m where m: "tl_run example_ok [Pod_seen (example_pod\<lparr>pod_name := ''web-1''\<rparr>), Handle, Task 1 Fetch_fails]
      returned_manager = Some m"
    using example_late_run by blast
  then have "tl_exec example_ok returned_manager m" using tl_start by (rule tl_run_exec)
  then show ?thesis
    using run_returned_is_quiet [OF example_exec_down [unfolded example_start_def]] m
    by (simp add: example_ok_def returned_manager_def)
qed

lemma shutdown_terminates_witness:
  "shutdown_rank (streaming_manager\<lparr>m_ctx_done := True\<rparr>) = 4
   \<and> (\<exists>i a m'. tl_step (Task i a) (streaming_manager\<lparr>m_ctx_done := True\<rparr>) = Some m')"
proof -
  have "\<not> all_returned (streaming_manager\<lparr>m_ctx_done := True\<rparr>)"
    "shutdown_rank (streaming_manager\<lparr>m_ctx_done := True\<rparr>) = 4"
    by (simp_all add: all_returned_def shutdown_rank_def streaming_manager_def pc_rank_def)
  moreover have "m_ctx_done (streaming_manager\<lparr>m_ctx_done := True\<rparr>)" by simp
  ultimately show ?thesis using shutdown_terminates by blast
qed

lemma reconnect_resumes_witness:
  "\<exists>l \<in> set (m_sent returned_manager). l_timestamp l = midnight 719163"
proof -
  have "tl_exec (asks last_seen_at {(no_faults, midnight 719163, empty_store)}) example_start returned_manager"
    using example_exec_down by (induction) (auto simp: example_ok_def intro: tl_start tl_next)
  moreover have "stream_request web_key (midnight 719163) \<in> set (m_requests returned_manager)"
    "lr_since (stream_request web_key (midnight 719163)) = Some (midnight 719163)"
    by (simp_all add: returned_manager_def stream_request_def is_zero_def day_ns_def)
  moreover have "all_rows empty_store d = []" for d
    by (simp add: all_rows_def empty_store_def table_of_def)
  ultimately show ?thesis
    using reconnect_resumes_from_ingested
      [of "{(no_faults, midnight 719163, empty_store)}" "''default''" False "''grepod-0''" True None returned_manager]
    by (fastforce simp: example_start_def)
qed

definition waiting_manager :: manager where
  "waiting_manager = the (tl_run example_ok
     [Task 0 (Next_line (midnight 719163)), Task 0 Set_marker, Task 0 Stream_ends, Task 0 Stream_returned]
     streaming_manager)"

lemma backoff_capped_witness:
  "pc_of waiting_manager 0 = Waiting 250000000 \<and> (\<exists>n. (250000000::int) = min (250000000 * 2 ^ n) 5000000000)"
proof -
  obtain m where m: "tl_run example_ok
      [Task 0 (Next_line (midnight 719163)), Task 0 Set_marker, Task 0 Stream_ends, Task 0 Stream_returned]
      streaming_manager = Some m" "length (m_tasks m) = 1" "pc_of m 0 = Waiting 250000000"
    by (simp add: streaming_manager_def example_start_def new_manager_def example_ok_def step_defs
        set_marker_def marker_at_def Let_def initial_backoff_def)
  have "tl_exec example_ok example_start m" by (rule tl_run_exec [OF m(1) example_exec_up])
  then show ?thesis
    using backoff_capped [of example_ok "''default''" False "''grepod-0''" True None m 0] m
    by (simp add: waiting_manager_def example_start_def)
qed

end
