(* ===== verification/Stream_Lines.thy ===== *)
theory Stream_Lines
  imports Main "HOL-Library.Sublist" Prelude Go_Time Levels Store Ingest Manager Tailing
begin

text \<open>
  What a \<open>tailContainer\<close> goroutine of \<open>internal/tailer/manager.go\<close> does with a log stream while the other
  goroutines, the informer and \<open>Run\<close> take their steps in between.
\<close>

section \<open>Steps and what they send\<close>

definition newly_sent :: "manager \<Rightarrow> manager \<Rightarrow> log_line list" where
  "newly_sent m m' = drop (length (m_sent m)) (m_sent m')"

lemma newly_sent_step:
  assumes "tl_step a m = Some m'"
  shows "m_sent m' = m_sent m @ newly_sent m m'
    \<and> (newly_sent m m' = [] \<or> (\<exists>i ta l. a = Task i ta \<and> i < length (m_tasks m) \<and> newly_sent m m' = [l]
         \<and> line_key l = key_of m i \<and> \<not> quiet_pc (pc_of m' i)))"
proof (cases a)
  case (Task i ta)
  then have t: "i < length (m_tasks m)" "task_step i ta m = Some m'" using assms by (auto split: if_splits)
  show ?thesis
  proof (cases "m_sent m' = m_sent m")
    case False
    then obtain line ts where s: "ta = Next_line ts"
      "m_sent m' = m_sent m @ [ingested_line (m_namespace m) (key_of m i) line ts]"
      using task_step_sent [OF t(2)] by auto
    then have "\<not> quiet_pc (pc_of m' i)"
      using t by (auto simp: quiet_pc_def split: pc_splits)
    with s t Task show ?thesis by (auto simp: newly_sent_def)
  qed (simp add: newly_sent_def)
qed (use assms in \<open>auto simp: newly_sent_def split: if_splits list.splits\<close>)

text \<open>Nobody else moves a goroutine of the tailer.\<close>

lemma tl_step_others:
  assumes "tl_step a m = Some m'" "j < length (m_tasks m)"
  shows "j < length (m_tasks m') \<and> key_of m' j = key_of m j \<and> ((\<forall>ta. a \<noteq> Task j ta) \<longrightarrow> pc_of m' j = pc_of m j)"
proof (cases a)
  case (Task i ta)
  then have t: "i < length (m_tasks m)" "task_step i ta m = Some m'" using assms(1) by (auto split: if_splits)
  then show ?thesis
    using task_step_views [OF t(2)] task_step_other_pc [OF t(2,1), of j] assms(2) Task by auto
next
  case Handle
  then obtain op ops where h: "m' = do_op op (m\<lparr>m_handler := ops\<rparr>)" using assms(1) by (auto split: list.splits)
  have "length (m_tasks m) \<le> length (m_tasks (do_op op n))" if "m_tasks n = m_tasks m" for n
    using that by (cases op) (simp_all add: reconcile_container_def length_tasks_start)
  moreover have "pc_of (do_op op n) j = pc_of n j" if "j < length (m_tasks n)" for n
  proof -
    have "pc_of (stop_container k n) j = pc_of n j" for k
      by (simp add: stop_container_def cancel_task_pc split: option.splits)
    with that show ?thesis by (cases op) (simp_all add: reconcile_container_def tasks_start)
  qed
  ultimately show ?thesis
    using assms(2) do_op_keys [of j "m\<lparr>m_handler := ops\<rparr>" op] unfolding h by (force intro: less_le_trans)
qed (use assms in \<open>auto split: if_splits\<close>)

section \<open>Reading one stream\<close>

text \<open>
  \<open>reads i m out clock n\<close>: from \<open>m\<close> to \<open>n\<close>, in any interleaving, the goroutine \<open>i\<close> handed the lines \<open>out\<close>
  to the sink and opened no further stream; \<open>clock\<close> is what its calls of \<open>time.Now\<close> read.
\<close>

definition opens :: "task_action \<Rightarrow> string \<Rightarrow> bool" where
  "opens a text \<longleftrightarrow> a = Open_succeeds text \<or> a = Fetch_opens text"

definition readings :: "task_action \<Rightarrow> go_time list" where
  "readings a = (case a of Next_line ts \<Rightarrow> [ts] | _ \<Rightarrow> [])"

inductive reads :: "nat \<Rightarrow> manager \<Rightarrow> log_line list \<Rightarrow> go_time list \<Rightarrow> manager \<Rightarrow> bool" for i m where
  reads_start: "reads i m [] [] m"
| reads_other: "reads i m out clock n \<Longrightarrow> tl_step a n = Some n' \<Longrightarrow> \<forall>ta. a \<noteq> Task i ta \<Longrightarrow>
    reads i m out clock n'"
| reads_own: "reads i m out clock n \<Longrightarrow> tl_step (Task i ta) n = Some n' \<Longrightarrow> \<forall>text. \<not> opens ta text \<Longrightarrow>
    reads i m (out @ newly_sent n n') (clock @ readings ta) n'"

text \<open>The lines of the stream that a goroutine still has to hand over.\<close>

definition unread :: "task_pc \<Rightarrow> string list" where
  "unread pc = (case pc of
     Ingesting_previous toks \<Rightarrow> toks | Streaming _ toks \<Rightarrow> toks | Marking _ _ toks \<Rightarrow> toks | _ \<Rightarrow> [])"

lemma own_step_unread:
  assumes "task_step i ta n = Some n'" "i < length (m_tasks n)" "\<forall>text. \<not> opens ta text"
  shows "\<exists>out. m_sent n' = m_sent n @ out \<and> unread (pc_of n i) = map l_content out @ unread (pc_of n' i)
    \<and> map l_timestamp out = readings ta
    \<and> (\<forall>l \<in> set out. line_key l = key_of n i \<and> l_namespace l = m_namespace n
         \<and> l_level l = detect_level (l_content l))"
  using assms
  by (cases ta) (auto simp: unread_def opens_def readings_def send_line_def ingested_line_def line_key_def
      request_def count_stream_def count_stream_error_def store_marker_def split: pc_splits)

lemma tl_step_namespace: "tl_step a n = Some n' \<Longrightarrow> m_namespace n' = m_namespace n"
  using task_step_sent by (cases a) (auto split: if_splits list.splits)

definition read_so_far ::
  "container_key \<Rightarrow> string \<Rightarrow> string list \<Rightarrow> nat \<Rightarrow> log_line list \<Rightarrow> go_time list \<Rightarrow> manager \<Rightarrow> bool" where
  "read_so_far key ns lines i out clock n \<longleftrightarrow> i < length (m_tasks n) \<and> key_of n i = key \<and> m_namespace n = ns
     \<and> lines = map l_content out @ unread (pc_of n i) \<and> map l_timestamp out = clock
     \<and> (\<forall>l \<in> set out. line_key l = key \<and> l_namespace l = ns \<and> l_level l = detect_level (l_content l))"

lemma reads_so_far:
  assumes "reads i m out clock n" "read_so_far key ns lines i [] [] m"
  shows "read_so_far key ns lines i out clock n \<and> (\<exists>k. m_sent n = m_sent m @ k \<and> subseq out k)"
  using assms(1)
proof induction
  case reads_start
  with assms(2) show ?case by simp
next
  case (reads_other out clock n a n')
  have "i < length (m_tasks n') \<and> key_of n' i = key_of n i \<and> pc_of n' i = pc_of n i"
    using tl_step_others [OF reads_other.hyps(2)] reads_other by (auto simp: read_so_far_def)
  moreover have "m_sent n' = m_sent n @ newly_sent n n'" using newly_sent_step [OF reads_other.hyps(2)] by blast
  moreover have "m_namespace n' = m_namespace n" by (rule tl_step_namespace [OF reads_other.hyps(2)])
  ultimately show ?case
    using reads_other.IH by (auto simp: read_so_far_def intro: list_emb_append2 subseq_order.trans)
next
  case (reads_own out clock n ta n')
  then have t: "task_step i ta n = Some n'" "i < length (m_tasks n)" by (simp_all split: if_splits)
  obtain new where new: "m_sent n' = m_sent n @ new" "unread (pc_of n i) = map l_content new @ unread (pc_of n' i)"
    "map l_timestamp new = readings ta" "\<forall>l \<in> set new. line_key l = key_of n i \<and> l_namespace l = m_namespace n \<and> l_level l = detect_level (l_content l)"
    using own_step_unread [OF t reads_own.hyps(3)] by blast
  moreover have "newly_sent n n' = new" by (simp add: newly_sent_def new(1))
  moreover have "i < length (m_tasks n')" "key_of n' i = key_of n i" using task_step_views [OF t(1)] t(2) by auto
  moreover have "m_namespace n' = m_namespace n" by (rule tl_step_namespace [OF reads_own.hyps(2)])
  ultimately show ?case
    using reads_own.IH by (auto simp: read_so_far_def intro: list_emb_append_mono)
qed

lemma line_key_names: "line_key l = k \<Longrightarrow> l_pod l = ck_pod k \<and> l_container l = ck_container k"
  by (auto simp: line_key_def)

section \<open>Properties\<close>

text \<open>
  C24: a goroutine loses no line of a stream whose lines are under 1 MiB: whichever stream it opens, the
  log of the previous instance or the live one, and whatever the other goroutines, the informer and \<open>Run\<close>
  do meanwhile, what it hands to the sink are the lines that the stream delivers, without their line ends,
  in order and each once, with the names of its container, the detected level and the time at which it
  read the line; and when it has left the stream it has handed over all of them.
\<close>

theorem stream_every_line:
  assumes "opens a (stream_text ls final)" "\<forall>l \<in> set (final # ls). fitting_line l"
    and "tl_step (Task i a) m0 = Some m" "reads i m out clock n"
  shows "(\<exists>rest. stream_lines ls final = map l_content out @ rest
      \<and> (case pc_of n i of Ingesting_previous _ \<Rightarrow> True | Streaming _ _ \<Rightarrow> True | Marking _ _ _ \<Rightarrow> True | _ \<Rightarrow> rest = []))
    \<and> map l_timestamp out = clock
    \<and> list_all (\<lambda>l. l_pod l = ck_pod (key_of m0 i) \<and> l_container l = ck_container (key_of m0 i)
        \<and> l_namespace l = m_namespace m0 \<and> l_level l = detect_level (l_content l)) out
    \<and> (\<exists>sent. m_sent n = m_sent m0 @ sent \<and> subseq out sent)"
proof -
  have t: "task_step i a m0 = Some m" "i < length (m_tasks m0)" using assms(3) by (simp_all split: if_splits)
  have "unread (pc_of m i) = stream_lines ls final" "m_sent m = m_sent m0"
    using assms(1) t scan_stream_text [OF assms(2)]
    by (auto simp: opens_def unread_def request_def split: pc_splits)
  moreover have "i < length (m_tasks m)" "key_of m i = key_of m0 i" using task_step_views [OF t(1)] t(2) by auto
  moreover have "m_namespace m = m_namespace m0" by (rule tl_step_namespace [OF assms(3)])
  ultimately have "read_so_far (key_of m0 i) (m_namespace m0) (stream_lines ls final) i [] [] m"
    by (simp add: read_so_far_def)
  from reads_so_far [OF assms(4) this] show ?thesis
    using \<open>m_sent m = m_sent m0\<close>
    by (intro conjI exI [of _ "unread (pc_of n i)"])
      (auto simp: read_so_far_def unread_def list_all_iff line_key_names split: task_pc.split)
qed

text \<open>The stream of \<open>example_up\<close>, opened and read to its end.\<close>

definition opening_manager :: manager where
  "opening_manager = streaming_manager\<lparr>m_requests := [previous_request web_key],
     m_tasks := [\<lparr>t_key = web_key, t_cancelled = False, t_pc = Opening initial_backoff zero_time\<rparr>]\<rparr>"

lemma opening_step: "tl_step (Task 0 (Open_succeeds (stream_text [] (''INFO up'', True)))) opening_manager =
  Some streaming_manager"
  using scan_stream_text [of "(''INFO up'', True)" "[]"]
  by (simp add: opening_manager_def streaming_manager_def goto_def request_def stream_lines_def fitting_line_def
      line_bytes_def max_token_def)

definition drained_manager :: manager where
  "drained_manager = the (tl_run (\<lambda>_ _. True) [Task 0 (Next_line (midnight 719163)), Task 0 Set_marker, Task 0 Stream_ends]
     streaming_manager)"

lemma drained_reads:
  "\<exists>out. reads 0 streaming_manager out [midnight 719163] drained_manager"
  "pc_of drained_manager 0 = After_stream initial_backoff None"
proof -
  obtain m1 m2 where m: "tl_step (Task 0 (Next_line (midnight 719163))) streaming_manager = Some m1"
      "tl_step (Task 0 Set_marker) m1 = Some m2" "tl_step (Task 0 Stream_ends) m2 = Some drained_manager"
      "pc_of drained_manager 0 = After_stream initial_backoff None"
    by (simp add: drained_manager_def streaming_manager_def example_start_def new_manager_def step_defs
        set_marker_def marker_at_def Let_def)
  note reads_own [OF reads_own [OF reads_own [OF reads_start m(1)] m(2)] m(3)]
  then show "\<exists>out. reads 0 streaming_manager out [midnight 719163] drained_manager"
    by (fastforce simp: opens_def readings_def)
  show "pc_of drained_manager 0 = After_stream initial_backoff None" by (rule m(4))
qed

lemma stream_every_line_witness:
  "\<exists>out. reads 0 streaming_manager out [midnight 719163] drained_manager \<and> map l_content out = [''INFO up'']
     \<and> map l_timestamp out = [midnight 719163]"
proof -
  obtain out where out: "reads 0 streaming_manager out [midnight 719163] drained_manager" using drained_reads by blast
  have "\<forall>l \<in> set [(''INFO up'', True)]. fitting_line l" by (simp add: fitting_line_def line_bytes_def max_token_def)
  then have "map l_content out = stream_lines [] (''INFO up'', True) \<and> map l_timestamp out = [midnight 719163]"
    using stream_every_line [OF _ _ opening_step out] drained_reads(2) by (fastforce simp: opens_def)
  with out show ?thesis by (auto simp: stream_lines_def line_bytes_def)
qed

end
