(* ===== verification/Handler.thy ===== *)
theory Handler
  imports Main Prelude Go_Strings Go_Time Go_Time_Text Query_Text Store Search Known Metrics
begin

text \<open>
  The HTTP surface, \<open>internal/api/handler.go\<close>: the routes, \<open>/api/search\<close>, \<open>/api/known\<close>, \<open>/api/tail\<close> and
  the probes. A request is its path with the first value of each query parameter, a response its
  status, content type and the value that is written; how \<open>encoding/json\<close> prints that value is not
  modelled, except that \<open>/api/tail\<close> frames what it prints (the argument \<open>marshal\<close>).
\<close>

section \<open>Requests and responses\<close>

record http_request =
  rq_path :: string
  rq_query :: "(string \<times> string) list"

definition query_get :: "http_request \<Rightarrow> string \<Rightarrow> string" where
  "query_get r k = (case map_of (rq_query r) k of None \<Rightarrow> [] | Some v \<Rightarrow> v)"

record search_response =
  sp_query :: string
  sp_start :: string
  sp_end :: string
  sp_level :: string
  sp_pod :: string
  sp_count :: nat
  sp_results :: "search_result list"
  sp_next_cursor :: string

datatype body =
    Json_error string
  | Json_search search_response
  | Json_known known_filters
  | Text_body string
  | Event_stream string
  | Index_page

record http_response =
  rs_status :: nat
  rs_type :: string
  rs_body :: body

definition write_json :: "nat \<Rightarrow> body \<Rightarrow> http_response" where
  "write_json status v = \<lparr>rs_status = status, rs_type = ''application/json'', rs_body = v\<rparr>"

definition write_json_error :: "nat \<Rightarrow> string \<Rightarrow> http_response" where
  "write_json_error status msg = write_json status (Json_error msg)"

definition plain_text :: "nat \<Rightarrow> string \<Rightarrow> http_response" where
  "plain_text status s =
     \<lparr>rs_status = status, rs_type = ''text/plain; charset=utf-8'', rs_body = Text_body s\<rparr>"

section \<open>The handler\<close>

record handler =
  h_default_search_days :: int
  h_metrics :: "metrics option"

text \<open>\<open>New\<close>: the embedded template and assets may fail to load.\<close>

definition new_handler :: "err option \<Rightarrow> err option \<Rightarrow> int \<Rightarrow> metrics option \<Rightarrow> handler result" where
  "new_handler template_err static_err days m =
     (case template_err of
        Some e \<Rightarrow> Inl e
      | None \<Rightarrow>
          (case static_err of
             Some e \<Rightarrow> Inl e
           | None \<Rightarrow> Inr \<lparr>h_default_search_days = (if days \<le> 0 then 7 else days), h_metrics = m\<rparr>))"

definition handle_healthz :: http_response where
  "handle_healthz = plain_text 200 ''ok''"

definition handle_readyz :: "bool \<Rightarrow> http_response" where
  "handle_readyz ready = (if \<not> ready then plain_text 503 ''not ready'' else plain_text 200 ''ok'')"

definition handle_index :: "err option \<Rightarrow> http_request \<Rightarrow> http_response" where
  "handle_index execute_err r =
     (if rq_path r \<noteq> ''/'' then plain_text 404 (''404 page not found'' @ [CHR 0x0A])
      else case execute_err of
        None \<Rightarrow> \<lparr>rs_status = 200, rs_type = ''text/html; charset=utf-8'', rs_body = Index_page\<rparr>
      | Some e \<Rightarrow> plain_text 500 (e @ [CHR 0x0A]))"

text \<open>
  What a handler depends on besides the request: the engine, the failures, the request's context, the
  readings of the clock and the store. The handlers read the clock first at \<open>w_now\<close>; \<open>w_duration\<close> is
  \<open>time.Since(searchStart)\<close> and \<open>w_later\<close> the clock that \<open>KnownPods\<close> reads.
\<close>

record world =
  w_engine :: fts_engine
  w_float :: "string \<Rightarrow> float64 option"
  w_faults :: faults
  w_ctx_err :: "err option"
  w_now :: go_time
  w_later :: go_time
  w_duration :: int
  w_store :: store

definition run_search :: "world \<Rightarrow> search_options \<Rightarrow> search_page result" where
  "run_search w opts = search (w_engine w) (w_float w) (w_faults w) (w_ctx_err w) opts (w_store w)"

text \<open>The strings \<open>startStr\<close> and \<open>endStr\<close>.\<close>

definition start_text :: "handler \<Rightarrow> go_time \<Rightarrow> http_request \<Rightarrow> string" where
  "start_text h now r =
     (if query_get r ''start'' = []
      then format_date (add_days now (- (h_default_search_days h - 1)))
      else query_get r ''start'')"

definition end_text :: "go_time \<Rightarrow> http_request \<Rightarrow> string" where
  "end_text now r = (if query_get r ''end'' = [] then format_date now else query_get r ''end'')"

definition options_of :: "http_request \<Rightarrow> go_time \<Rightarrow> go_time \<Rightarrow> search_options" where
  "options_of r start_t end_t =
     \<lparr>o_query = trim_space (query_get r ''q''), o_start = start_t, o_end = end_t, o_limit = 500,
      o_cursor = query_get r ''cursor'', o_min_level = query_get r ''level'', o_pod = query_get r ''pod''\<rparr>"

definition count_search :: "world \<Rightarrow> metrics option \<Rightarrow> metrics option" where
  "count_search w m = bump (\<lambda>c. c\<lparr>search_requests_total := Suc (search_requests_total c),
     search_duration := search_duration c @ [w_duration w]\<rparr>) m"

definition count_search_error :: "metrics option \<Rightarrow> metrics option" where
  "count_search_error m = bump (\<lambda>c. c\<lparr>search_errors_total := Suc (search_errors_total c)\<rparr>) m"

definition search_response_of :: "http_request \<Rightarrow> string \<Rightarrow> string \<Rightarrow> search_page \<Rightarrow> search_response" where
  "search_response_of r start_str end_str page =
     \<lparr>sp_query = trim_space (query_get r ''q''), sp_start = start_str, sp_end = end_str,
      sp_level = query_get r ''level'', sp_pod = query_get r ''pod'',
      sp_count = length (p_results page), sp_results = p_results page,
      sp_next_cursor = p_next_cursor page\<rparr>"

definition handle_search :: "world \<Rightarrow> handler \<Rightarrow> http_request \<Rightarrow> http_response \<times> handler" where
  "handle_search w h r =
     (let start_str = start_text h (w_now w) r; end_str = end_text (w_now w) r
      in case parse_date start_str of
           None \<Rightarrow> (write_json_error 400 ''invalid start date, expected YYYY-MM-DD'', h)
         | Some start_t \<Rightarrow>
             (case parse_date end_str of
                None \<Rightarrow> (write_json_error 400 ''invalid end date, expected YYYY-MM-DD'', h)
              | Some end_t \<Rightarrow>
                  if before end_t start_t
                  then (write_json_error 400 ''end date must not be before start date'', h)
                  else
                    (let page = run_search w (options_of r start_t end_t);
                         h1 = h\<lparr>h_metrics := count_search w (h_metrics h)\<rparr>
                     in case page of
                          Inl e \<Rightarrow> (write_json_error 500 (''search failed: '' @ e),
                                    h1\<lparr>h_metrics := count_search_error (h_metrics h1)\<rparr>)
                        | Inr p \<Rightarrow> (write_json 200 (Json_search (search_response_of r start_str end_str p)), h1))))"

text \<open>The parameter \<open>days\<close> of \<open>/api/known\<close>, by default 1.\<close>

definition known_days :: "http_request \<Rightarrow> int option" where
  "known_days r =
     (if query_get r ''days'' = [] then Some 1
      else case parse_int64 (query_get r ''days'') of
        None \<Rightarrow> None
      | Some n \<Rightarrow> if n \<le> 0 then None else Some n)"

definition handle_known :: "world \<Rightarrow> http_request \<Rightarrow> http_response" where
  "handle_known w r =
     (case known_days r of
        None \<Rightarrow> write_json_error 400 ''invalid days, expected a positive integer''
      | Some days \<Rightarrow>
          (case known_pods (w_faults w) (w_later w) (add_days (w_now w) (- (days - 1))) (w_store w) of
             Inl e \<Rightarrow> write_json_error 500 (''known-pods lookup failed: '' @ e)
           | Inr filters \<Rightarrow> write_json 200 (Json_known filters)))"

section \<open>/api/tail\<close>

record tail_event =
  te_pod :: string
  te_namespace :: string
  te_container :: string
  te_timestamp :: string
  te_level :: string
  te_content :: string

record tail_filter =
  tf_pod :: string
  tf_container :: string
  tf_q :: string

definition tail_filter_of :: "(string \<Rightarrow> string) \<Rightarrow> http_request \<Rightarrow> tail_filter" where
  "tail_filter_of uni r = \<lparr>tf_pod = query_get r ''pod'', tf_container = query_get r ''container'',
     tf_q = to_lower uni (query_get r ''q'')\<rparr>"

definition tail_event_of :: "log_line \<Rightarrow> tail_event" where
  "tail_event_of l = \<lparr>te_pod = l_pod l, te_namespace = l_namespace l, te_container = l_container l,
     te_timestamp = format_rfc3339nano (l_timestamp l), te_level = l_level l, te_content = l_content l\<rparr>"

definition sse_frame :: "string \<Rightarrow> string" where
  "sse_frame data = ''data: '' @ data @ [CHR 0x0A, CHR 0x0A]"

text \<open>The body of the loop for a line: what is written to the connection, nothing for a \<open>continue\<close>.\<close>

definition tail_write ::
  "(tail_event \<Rightarrow> string option) \<Rightarrow> (string \<Rightarrow> string) \<Rightarrow> tail_filter \<Rightarrow> log_line \<Rightarrow> string" where
  "tail_write marshal uni f l =
     (if tf_pod f \<noteq> [] \<and> l_pod l \<noteq> tf_pod f then []
      else if tf_container f \<noteq> [] \<and> l_container l \<noteq> tf_container f then []
      else if tf_q f \<noteq> [] \<and> \<not> contains (to_lower uni (l_content l)) (tf_q f) then []
      else case marshal (tail_event_of l) of None \<Rightarrow> [] | Some data \<Rightarrow> sse_frame data)"

text \<open>
  The loop: what the select receives, one after the other, until the channel is closed or the client
  is gone. The result is what is written to the connection.
\<close>

datatype tail_item = Tail_line log_line | Tail_closed | Client_gone

fun tail_loop ::
  "(tail_event \<Rightarrow> string option) \<Rightarrow> (string \<Rightarrow> string) \<Rightarrow> tail_filter \<Rightarrow> tail_item list \<Rightarrow> string" where
  "tail_loop marshal uni f [] = []"
| "tail_loop marshal uni f (Tail_closed # rest) = []"
| "tail_loop marshal uni f (Client_gone # rest) = []"
| "tail_loop marshal uni f (Tail_line l # rest) = tail_write marshal uni f l @ tail_loop marshal uni f rest"

text \<open>
  The whole handler, from the channel's side: a connection that cannot flush is refused, otherwise the
  headers are sent and the loop runs on what arrives.
\<close>

definition handle_tail ::
  "bool \<Rightarrow> (tail_event \<Rightarrow> string option) \<Rightarrow> (string \<Rightarrow> string) \<Rightarrow> http_request \<Rightarrow> tail_item list \<Rightarrow> http_response" where
  "handle_tail can_flush marshal uni r items =
     (if \<not> can_flush then write_json_error 500 ''streaming unsupported''
      else \<lparr>rs_status = 200, rs_type = ''text/event-stream'',
            rs_body = Event_stream (tail_loop marshal uni (tail_filter_of uni r) items)\<rparr>)"

section \<open>Routes\<close>

datatype route =
    R_search | R_tail | R_known | R_healthz | R_readyz | R_metrics | R_static | R_static_redirect | R_index

text \<open>
  \<open>http.ServeMux\<close>: a pattern without a trailing slash matches this path only, one with it every path
  below; the longest one wins, \<open>/\<close> matches everything, and the root of a subtree without its slash is
  redirected. Paths are clean here: the mux redirects one with \<open>.\<close>, \<open>..\<close> or an empty element before.
\<close>

definition route_of :: "string \<Rightarrow> route" where
  "route_of path =
     (if path = ''/api/search'' then R_search
      else if path = ''/api/tail'' then R_tail
      else if path = ''/api/known'' then R_known
      else if path = ''/healthz'' then R_healthz
      else if path = ''/readyz'' then R_readyz
      else if path = ''/metrics'' then R_metrics
      else if has_prefix path ''/static/'' then R_static
      else if path = ''/static'' then R_static_redirect
      else R_index)"

section \<open>Properties of /api/search\<close>

lemma midnight_before: "before (midnight a) (midnight b) \<longleftrightarrow> a < b"
  by (simp add: before_def day_ns_def)

lemma last_day_midnights: "last_day (midnight a) (midnight b) = b"
proof -
  have "b * day_ns - a * day_ns = (b - a) * day_ns" by (simp add: left_diff_distrib)
  moreover have "day_ns \<noteq> 0" by (simp add: day_ns_def)
  ultimately show ?thesis by (simp add: last_day_def)
qed

text \<open>The shards that are searched lie between the two dates, also as texts.\<close>

lemma searched_between:
  assumes "d \<in> set (searched_dates flt opts s)" "o_start opts = midnight a" "o_end opts = midnight b"
    "in_years a" "in_years b"
  shows "fmt_day a \<le> d \<and> d \<le> fmt_day b"
proof -
  have "d \<in> set (stat_dates flt s (midnight a) (midnight b))"
    using existing_dates_suffix [of flt s "midnight a" "midnight b"] assms(1-3)
    by (metis in_set_dropD searched_dates_def)
  then obtain n where n: "d = fmt_day n" "a \<le> n" "n \<le> b"
    by (auto simp: stat_dates_upto last_day_midnights)
  then have "in_years n" using assms(4,5) in_years_between by blast
  with n assms(4,5) show ?thesis by (metis fmt_day_less_iff not_less)
qed

text \<open>
  C25: a request without dates searches the last N days, today included, N being the configured number
  or 7: of the shards that these days have, in the order of the days, the last ten, which are all of them
  when N is at most 10. The response says which N days the request is about.
\<close>

theorem default_search_window:
  assumes "new_handler None None days m = Inr h" "query_get r ''start'' = []" "query_get r ''end'' = []"
    "today = day_of (w_now w)" "first = today - (if days \<le> 0 then 7 else days) + 1"
    "in_years today" "in_years first"
  shows "fst (handle_search w h r) =
      (case run_search w (options_of r (midnight first) (midnight today)) of
         Inl e \<Rightarrow> write_json_error 500 (''search failed: '' @ e)
       | Inr p \<Rightarrow> write_json 200 (Json_search (search_response_of r (fmt_day first) (fmt_day today) p)))
    \<and> searched_dates (w_faults w) (options_of r (midnight first) (midnight today)) (w_store w) =
      (let shards = filter (stat_ok (w_faults w) (w_store w)) (map fmt_day [first..today])
       in drop (length shards - 10) shards)"
proof -
  have h: "h_default_search_days h = (if days \<le> 0 then 7 else days)"
    using assms(1) by (auto simp: new_handler_def)
  have f: "day_of (add_days (w_now w) (- (h_default_search_days h - 1))) = first"
    using assms(4,5) by (simp add: h)
  have "start_text h (w_now w) r = fmt_day first" "end_text (w_now w) r = fmt_day today"
    using assms(2-4) f by (simp_all add: start_text_def end_text_def format_date_def)
  moreover have "\<not> before (midnight today) (midnight first)"
    using assms(5) by (simp add: midnight_before)
  moreover have "searched_dates (w_faults w) (options_of r (midnight first) (midnight today)) (w_store w) =
      (let shards = filter (stat_ok (w_faults w) (w_store w)) (map fmt_day [first..today])
       in drop (length shards - 10) shards)"
    by (simp add: searched_dates_def options_of_def existing_shard_dates_def stat_dates_upto last_day_midnights
        max_attached_shards_def Let_def)
  ultimately show ?thesis
    using assms(6,7) by (simp add: handle_search_def Let_def parse_date_fmt_day split: sum.split)
qed

text \<open>What a successful search has parsed, and what its response says.\<close>

lemma handle_search_200:
  assumes "handle_search w h r = (resp, h')" "rs_body resp = Json_search sp"
  obtains a b page where "in_years a" "in_years b" "a \<le> b" "sp_start sp = fmt_day a" "sp_end sp = fmt_day b"
    "run_search w (options_of r (midnight a) (midnight b)) = Inr page"
    "sp = search_response_of r (fmt_day a) (fmt_day b) page" "rs_status resp = 200"
    "sp_start sp = start_text h (w_now w) r" "sp_end sp = end_text (w_now w) r"
proof -
  obtain start_t end_t page where p: "parse_date (start_text h (w_now w) r) = Some start_t"
    "parse_date (end_text (w_now w) r) = Some end_t" "\<not> before end_t start_t"
    "run_search w (options_of r start_t end_t) = Inr page" "rs_status resp = 200"
    "sp = search_response_of r (start_text h (w_now w) r) (end_text (w_now w) r) page"
    using assms
    by (auto simp: handle_search_def Let_def write_json_error_def write_json_def
        split: option.splits if_splits sum.splits)
  obtain a b where "in_years a" "start_text h (w_now w) r = fmt_day a" "start_t = midnight a"
    "in_years b" "end_text (w_now w) r = fmt_day b" "end_t = midnight b"
    using parse_date_SomeD [OF p(1)] parse_date_SomeD [OF p(2)] by blast
  with p that [of a b page] show ?thesis by (simp add: midnight_before not_less search_response_of_def)
qed

text \<open>
  What the query string asks of a row, in its own terms: the pod's name, a known minimum level and the
  words of \<open>q\<close>, each when it is given. \<open>sanitize_match_query\<close> is the FTS5 phrase for each word.
\<close>

definition row_answers :: "fts_engine \<Rightarrow> http_request \<Rightarrow> log_row \<Rightarrow> bool" where
  "row_answers eng r row \<longleftrightarrow>
     (query_get r ''pod'' = [] \<or> r_pod row = query_get r ''pod'')
     \<and> (snd (severity_of (query_get r ''level'')) \<longrightarrow> r_level row \<in> set level_order
          \<and> fst (severity_of (r_level row)) \<le> fst (severity_of (query_get r ''level'')))
     \<and> (Go_Strings.fields (query_get r ''q'') = []
         \<or> fe_match eng (sanitize_match_query (query_get r ''q'')) (r_line row))"

text \<open>The result that shows a row: its fields, and its line or the engine's snippet of it, escaped.\<close>

definition row_shown :: "fts_engine \<Rightarrow> http_request \<Rightarrow> log_row \<Rightarrow> search_result \<Rightarrow> bool" where
  "row_shown eng r row x \<longleftrightarrow>
     sr_pod x = r_pod row \<and> sr_namespace x = r_namespace row \<and> sr_container x = r_container row
     \<and> sr_timestamp x = r_timestamp row \<and> sr_level x = r_level row
     \<and> sr_snippet x = escape_snippet
         (if Go_Strings.fields (query_get r ''q'') = [] then r_line row
          else fe_snippet eng (sanitize_match_query (query_get r ''q'')) (r_line row))"

lemma options_query:
  "o_query (options_of r a b) = [] \<longleftrightarrow> Go_Strings.fields (query_get r ''q'') = []"
  "sanitize_match_query (o_query (options_of r a b)) = sanitize_match_query (query_get r ''q'')"
  using fields_trim_space_Nil [of "query_get r ''q''"]
  by (simp_all add: options_of_def sanitize_match_query_def fields_trim_space)

lemma level_filter_iff:
  "(snd (levels_at_or_above m) \<longrightarrow> l \<in> set (fst (levels_at_or_above m))) \<longleftrightarrow>
   (snd (severity_of m) \<longrightarrow> l \<in> set level_order \<and> fst (severity_of l) \<le> fst (severity_of m))"
  using levels_at_or_above_spec [of m] by (cases "snd (severity_of m)") simp_all

lemma result_answers:
  "result_of_row eng (options_of r a b) row x \<longleftrightarrow> row_answers eng r row \<and> row_shown eng r row x"
proof -
  have "o_pod (options_of r a b) = query_get r ''pod''" "o_min_level (options_of r a b) = query_get r ''level''"
    by (simp_all add: options_of_def)
  then show ?thesis
    by (auto simp: result_of_row_def row_answers_def row_shown_def options_query level_filter_iff)
qed


section \<open>Properties of /api/tail\<close>

text \<open>How a browser reads the stream: an event is a \<open>data\<close> line and a blank line.\<close>

function sse_payloads :: "string \<Rightarrow> string list" where
  "sse_payloads s =
     (if has_prefix s ''data: ''
      then let r = drop 6 s; p = takeWhile (\<lambda>c. c \<noteq> CHR 0x0A) r
           in p # sse_payloads (drop (length p + 2) r)
      else [])"
  by pat_completeness auto
termination
proof (relation "measure length")
  fix s r p :: string
  assume "has_prefix s ''data: ''" "r = drop 6 s"
  then show "(drop (length p + 2) r, s) \<in> measure length" by (cases s) (auto simp: has_prefix_def)
qed simp

declare sse_payloads.simps [simp del]

lemma sse_payloads_frame:
  assumes "CHR 0x0A \<notin> set p"
  shows "sse_payloads (sse_frame p @ s) = p # sse_payloads s"
proof -
  have f: "sse_frame p @ s = ''data: '' @ (p @ CHR 0x0A # CHR 0x0A # s)" by (simp add: sse_frame_def)
  have "takeWhile (\<lambda>c. c \<noteq> CHR 0x0A) (p @ CHR 0x0A # CHR 0x0A # s) = p"
    using assms by (intro takeWhile_append_stop) auto
  moreover have "has_prefix (sse_frame p @ s) ''data: ''" unfolding f by (rule has_prefix_append)
  moreover have "drop 6 (sse_frame p @ s) = p @ CHR 0x0A # CHR 0x0A # s" unfolding f by simp
  ultimately show ?thesis by (subst sse_payloads.simps) (simp add: Let_def)
qed

fun lines_before_end :: "tail_item list \<Rightarrow> log_line list" where
  "lines_before_end (Tail_line l # rest) = l # lines_before_end rest"
| "lines_before_end _ = []"

text \<open>The filter a client asked for: exact names, and a part of the content regardless of case.\<close>

definition tail_passes :: "(string \<Rightarrow> string) \<Rightarrow> http_request \<Rightarrow> log_line \<Rightarrow> bool" where
  "tail_passes uni r l \<longleftrightarrow>
     (query_get r ''pod'' = [] \<or> l_pod l = query_get r ''pod'')
     \<and> (query_get r ''container'' = [] \<or> l_container l = query_get r ''container'')
     \<and> (\<exists>u v. to_lower uni (l_content l) = u @ to_lower uni (query_get r ''q'') @ v)"

lemma tail_passes_iff:
  "tail_passes uni r l \<longleftrightarrow>
     \<not> (tf_pod (tail_filter_of uni r) \<noteq> [] \<and> l_pod l \<noteq> tf_pod (tail_filter_of uni r))
     \<and> \<not> (tf_container (tail_filter_of uni r) \<noteq> [] \<and> l_container l \<noteq> tf_container (tail_filter_of uni r))
     \<and> \<not> (tf_q (tail_filter_of uni r) \<noteq> []
          \<and> \<not> contains (to_lower uni (l_content l)) (tf_q (tail_filter_of uni r)))"
proof -
  have "\<exists>u v. s = u @ v" for s :: string by (intro exI [of _ "[]"] exI [of _ s]) simp
  then show ?thesis by (auto simp: tail_passes_def tail_filter_of_def contains_iff)
qed

lemma tail_loop_payloads:
  assumes "\<forall>e d. marshal e = Some d \<longrightarrow> CHR 0x0A \<notin> set d"
  shows "sse_payloads (tail_loop marshal uni (tail_filter_of uni r) items) =
    List.map_filter (marshal \<circ> tail_event_of) (filter (tail_passes uni r) (lines_before_end items))"
proof (induction items rule: lines_before_end.induct)
  case (1 l rest)
  show ?case
  proof (cases "tail_passes uni r l")
    case True
    then show ?thesis
      using 1 assms sse_payloads_frame unfolding tail_passes_iff
      by (auto simp: map_filter_simps tail_write_def split: option.split)
  next
    case False
    with 1 show ?thesis unfolding tail_passes_iff by (auto simp: map_filter_simps tail_write_def)
  qed
qed (simp_all add: sse_payloads.simps has_prefix_def map_filter_simps)

text \<open>
  A client of \<open>/api/tail\<close> reads exactly the lines its filters let through, each once, in the order
  in which they arrived, until the channel is closed or the client is gone. It relies on
  \<open>json.Marshal\<close> to print an event on one line.
\<close>

theorem tail_stream_filtered:
  assumes "\<forall>e d. marshal e = Some d \<longrightarrow> CHR 0x0A \<notin> set d"
  shows "\<exists>stream. rs_body (handle_tail True marshal uni r items) = Event_stream stream
    \<and> sse_payloads stream =
      List.map_filter (marshal \<circ> tail_event_of) (filter (tail_passes uni r) (lines_before_end items))"
  using tail_loop_payloads [OF assms] by (simp add: handle_tail_def)

section \<open>Examples\<close>

definition plain_request :: http_request where
  "plain_request = \<lparr>rq_path = ''/api/search'', rq_query = []\<rparr>"

definition example_world :: world where
  "example_world = \<lparr>w_engine = example_engine, w_float = \<lambda>_. None, w_faults = no_faults, w_ctx_err = None,
     w_now = midnight 719163, w_later = midnight 719163, w_duration = 0, w_store = example_store\<rparr>"

definition one_day_handler :: handler where
  "one_day_handler = \<lparr>h_default_search_days = 1, h_metrics = None\<rparr>"

lemma default_search_window_witness:
  "searched_dates no_faults (options_of plain_request (midnight 719163) (midnight 719163)) example_store = [fmt_day 719163]"
proof -
  note example_stat
  then show ?thesis
    using default_search_window [of 1 None one_day_handler plain_request 719163 example_world 719163]
    by (simp add: new_handler_def one_day_handler_def plain_request_def query_get_def example_world_def example_in_years)
qed

lemma example_run_search:
  "\<exists>page. run_search example_world (options_of plain_request (midnight 719163) (midnight 719163)) = Inr page
     \<and> length (p_results page) = 2 \<and> p_next_cursor page = []"
proof -
  let ?opts = "options_of plain_request (midnight 719163) (midnight 719163)"
  have "trim_space [] = []" by code_simp
  then have o: "?opts = (example_search [])\<lparr>o_limit := 500\<rparr>"
    by (simp add: options_of_def plain_request_def query_get_def example_search_def)
  have s: "searchable example_engine ?opts example_store"
    using example_searchable [of "[]"] unfolding o by (simp add: searchable_def searched_dates_def)
  have d: "searched_dates no_faults ?opts example_store = [fmt_day 719163]"
    using example_dates [of "[]"] unfolding o by (simp add: searched_dates_def)
  have "matching_hits example_engine ?opts example_store [fmt_day 719163] =
      matching_hits example_engine (example_search []) example_store [fmt_day 719163]"
    unfolding o by (simp add: matching_hits_def shard_select_def conditions_ok_def Let_def)
  then have h: "length (matching_hits example_engine ?opts example_store [fmt_day 719163]) = 2"
    using example_hits [of "[]"] by simp
  have c: "?opts\<lparr>o_cursor := []\<rparr> = ?opts" unfolding o by (simp add: example_search_def)
  have "o_query ?opts = []" "page_limit ?opts = 500"
    unfolding o by (simp_all add: example_search_def page_limit_def)
  with search_no_faults [OF s, of "[]" "\<lambda>_. None" None] d h c show ?thesis
    by (simp add: run_search_def example_world_def make_page_def query_rows_def select_page_def)
qed

lemma example_handle_search:
  "\<exists>sp. rs_body (fst (handle_search example_world one_day_handler plain_request)) = Json_search sp
     \<and> length (sp_results sp) = 2 \<and> sp_start sp = fmt_day 719163 \<and> sp_end sp = fmt_day 719163
     \<and> sp_next_cursor sp = []"
proof -
  have "start_text one_day_handler (w_now example_world) plain_request = fmt_day 719163"
    "end_text (w_now example_world) plain_request = fmt_day 719163"
    by (simp_all add: start_text_def end_text_def plain_request_def query_get_def one_day_handler_def
        example_world_def format_date_def)
  then show ?thesis
    using example_run_search parse_date_fmt_day [OF example_in_years]
    by (auto simp: handle_search_def Let_def midnight_before write_json_def search_response_of_def)
qed


lemma tail_stream_filtered_witness:
  "\<exists>stream. rs_body (handle_tail True
        (\<lambda>e. if CHR 0x0A \<in> set (te_content e) then None else Some (te_content e)) (\<lambda>s. s)
        \<lparr>rq_path = ''/api/tail'', rq_query = [(''q'', ''Error'')]\<rparr>
        [Tail_line (example_line\<lparr>l_content := ''all well''\<rparr>), Tail_line (example_line\<lparr>l_content := ''An ERROR''\<rparr>),
         Client_gone, Tail_line (example_line\<lparr>l_content := ''error again''\<rparr>)]) = Event_stream stream
    \<and> sse_payloads stream = [''An ERROR'']"
proof -
  let ?r = "\<lparr>rq_path = ''/api/tail'', rq_query = [(''q'', ''Error'')]\<rparr>"
  have q: "to_lower (\<lambda>s. s) ''Error'' = ''error''"
    "contains (to_lower (\<lambda>s. s) ''An ERROR'') ''error''" "\<not> contains (to_lower (\<lambda>s. s) ''all well'') ''error''"
    by code_simp+
  then have "tail_filter_of (\<lambda>s. s) ?r = \<lparr>tf_pod = [], tf_container = [], tf_q = ''error''\<rparr>"
    by (simp add: tail_filter_of_def query_get_def)
  then have p: "\<not> tail_passes (\<lambda>s. s) ?r (example_line\<lparr>l_content := ''all well''\<rparr>)"
    "tail_passes (\<lambda>s. s) ?r (example_line\<lparr>l_content := ''An ERROR''\<rparr>)"
    using q unfolding tail_passes_iff by simp_all
  have m: "\<forall>e d. (if CHR 0x0A \<in> set (te_content e) then None else Some (te_content e)) = Some d
      \<longrightarrow> CHR 0x0A \<notin> set d" by auto
  show ?thesis
    using tail_stream_filtered [OF m, of "\<lambda>s. s" ?r "[Tail_line (example_line\<lparr>l_content := ''all well''\<rparr>),
        Tail_line (example_line\<lparr>l_content := ''An ERROR''\<rparr>), Client_gone,
        Tail_line (example_line\<lparr>l_content := ''error again''\<rparr>)]"] p
    by (simp add: tail_event_of_def map_filter_simps)
qed

end
