(* ===== verification/Go_Duration.thy ===== *)
theory Go_Duration
  imports Main "HOL-Library.Log_Nat" Prelude Go_Strings
begin

text \<open>
  \<open>time.ParseDuration\<close> of Go's standard library, which \<open>cmd/server/main.go\<close> calls on the durations of
  the environment: a sign, then decimal numbers with a unit each. Durations are nanoseconds; \<open>uint64\<close>
  is a natural number, reduced by \<open>2 ^ 64\<close> where a sum can reach it. The fraction of a number is a
  product of two \<open>float64\<close>, computed here with the rounding of IEEE 754.
\<close>

section \<open>float64\<close>

text \<open>
  A positive \<open>float64\<close> in the normal range as \<open>m * 2 ^ e\<close> with \<open>m \<le> 2 ^ 53\<close>. \<open>round_ratio n d\<close> is the
  one nearest to \<open>n / d\<close>, of two equally near ones that with the even \<open>m\<close>. The quotient is first
  scaled to at least \<open>2 ^ 52\<close> and less than \<open>2 ^ 53\<close>.
\<close>

type_synonym float_value = "nat \<times> int"

definition scaled :: "nat \<Rightarrow> nat \<Rightarrow> int \<Rightarrow> nat \<times> nat" where
  "scaled n d e = (n * 2 ^ nat (- e), d * 2 ^ nat e)"

definition round_even :: "nat \<Rightarrow> nat \<Rightarrow> nat" where
  "round_even n d =
     (let q = n div d; r = n mod d in if 2 * r < d \<or> (2 * r = d \<and> even q) then q else Suc q)"

definition round_ratio :: "nat \<Rightarrow> nat \<Rightarrow> float_value" where
  "round_ratio n d =
     (if n = 0 then (0, 0)
      else let e = int (floorlog 2 n) - int (floorlog 2 d) - 53;
               (a, b) = scaled n d e;
               e = (if a div b < 2 ^ 53 then e else e + 1);
               (a, b) = scaled n d e
           in (round_even a b, e))"

definition float_mult :: "float_value \<Rightarrow> float_value \<Rightarrow> float_value" where
  "float_mult x y =
     (let (m, e) = round_ratio (fst x * fst y) 1 in (m, e + snd x + snd y))"

definition float_trunc :: "float_value \<Rightarrow> nat" where
  "float_trunc x = (case scaled (fst x) 1 (- snd x) of (a, b) \<Rightarrow> a div b)"

section \<open>ParseDuration\<close>

text \<open>\<open>leadingInt\<close> from the value \<open>x\<close> on: the number and the rest, nothing when it exceeds \<open>2 ^ 63\<close>.\<close>

fun leading_int :: "nat \<Rightarrow> string \<Rightarrow> (nat \<times> string) option" where
  "leading_int x [] = Some (x, [])"
| "leading_int x (c # s) =
     (if \<not> is_digit c then Some (x, c # s)
      else if 2 ^ 63 div 10 < x then None
      else if 2 ^ 63 < x * 10 + digit_val c then None
      else leading_int (x * 10 + digit_val c) s)"

text \<open>
  \<open>leadingFraction\<close>: the number, how many digits went into it (\<open>scale\<close> is \<open>10\<close> to this power, exactly)
  and the rest. Once a digit does not fit, it and the following ones are ignored.
\<close>

fun leading_fraction :: "nat \<Rightarrow> nat \<Rightarrow> bool \<Rightarrow> string \<Rightarrow> nat \<times> nat \<times> string" where
  "leading_fraction x k overflow [] = (x, k, [])"
| "leading_fraction x k overflow (c # s) =
     (if \<not> is_digit c then (x, k, c # s)
      else if overflow then leading_fraction x k overflow s
      else if (2 ^ 63 - 1) div 10 < x then leading_fraction x k True s
      else if 2 ^ 63 < x * 10 + digit_val c then leading_fraction x k True s
      else leading_fraction (x * 10 + digit_val c) (Suc k) overflow s)"

definition unit_map :: "(string \<times> nat) list" where
  "unit_map =
     [(''ns'', 1), (''us'', 10 ^ 3), ([CHR 0xC2, CHR 0xB5, CHR ''s''], 10 ^ 3),
      ([CHR 0xCE, CHR 0xBC, CHR ''s''], 10 ^ 3), (''ms'', 10 ^ 6), (''s'', 10 ^ 9),
      (''m'', 60 * 10 ^ 9), (''h'', 3600 * 10 ^ 9)]"

definition unit_char :: "char \<Rightarrow> bool" where
  "unit_char c \<longleftrightarrow> c \<noteq> CHR ''.'' \<and> \<not> is_digit c"

definition fraction_ns :: "nat \<Rightarrow> nat \<Rightarrow> nat \<Rightarrow> nat" where
  "fraction_ns f k unit = float_trunc (float_mult (round_ratio f 1) (round_ratio unit (10 ^ k)))"

text \<open>One turn of the loop: the nanoseconds of a number with its unit, and the rest of the string.\<close>

definition number_part :: "string \<Rightarrow> (nat \<times> nat \<times> nat \<times> string) option" where
  "number_part s =
     (case leading_int 0 s of
        None \<Rightarrow> None
      | Some (v, r) \<Rightarrow>
          (let pre = (length r \<noteq> length s);
               (f, k, r') = (if r \<noteq> [] \<and> hd r = CHR ''.'' then leading_fraction 0 0 False (tl r) else (0, 0, r));
               post = (r \<noteq> [] \<and> hd r = CHR ''.'' \<and> length r' \<noteq> length (tl r))
           in if \<not> pre \<and> \<not> post then None else Some (v, f, k, r')))"

definition duration_item :: "string \<Rightarrow> (nat \<times> string) option" where
  "duration_item s =
     (if \<not> (hd s = CHR ''.'' \<or> is_digit (hd s)) then None
      else case number_part s of
        None \<Rightarrow> None
      | Some (v, f, k, r) \<Rightarrow>
          (let u = takeWhile unit_char r
           in if u = [] then None
              else case map_of unit_map u of
                None \<Rightarrow> None
              | Some unit \<Rightarrow>
                  if 2 ^ 63 div unit < v then None
                  else if f = 0 then Some (v * unit, dropWhile unit_char r)
                  else (let v' = (v * unit + fraction_ns f k unit) mod 2 ^ 64
                        in if 2 ^ 63 < v' then None else Some (v', dropWhile unit_char r))))"

lemma leading_int_rest: "leading_int x s = Some (n, r) \<Longrightarrow> length r \<le> length s"
  by (induction x s rule: leading_int.induct) (auto split: if_splits)

lemma leading_fraction_rest: "leading_fraction x k ov s = (n, k', r) \<Longrightarrow> length r \<le> length s"
  by (induction x k ov s rule: leading_fraction.induct) (auto split: if_splits)

lemma number_part_rest: "number_part s = Some (v, f, k, r) \<Longrightarrow> length r \<le> length s"
  by (auto simp: number_part_def Let_def split: option.splits prod.splits if_splits
      dest!: leading_int_rest leading_fraction_rest)

lemma duration_item_rest:
  assumes "duration_item s = Some (v, r)"
  shows "length r < length s"
proof -
  obtain v0 f k t where n: "number_part s = Some (v0, f, k, t)" and u: "takeWhile unit_char t \<noteq> []"
    and r: "r = dropWhile unit_char t"
    using assms by (auto simp: duration_item_def Let_def split: option.splits if_splits)
  from u obtain c cs where "t = c # cs" "unit_char c" by (cases t) (auto split: if_splits)
  then have "length r < length t" by (simp add: r length_dropWhile_le le_imp_less_Suc)
  with number_part_rest [OF n] show ?thesis by simp
qed

function duration_sum :: "nat \<Rightarrow> string \<Rightarrow> nat option" where
  "duration_sum d s =
     (if s = [] then Some d
      else case duration_item s of
        None \<Rightarrow> None
      | Some (v, r) \<Rightarrow> if 2 ^ 63 < (d + v) mod 2 ^ 64 then None else duration_sum ((d + v) mod 2 ^ 64) r)"
  by pat_completeness auto
termination
  by (relation "measure (length \<circ> snd)") (auto dest!: duration_item_rest)

declare duration_sum.simps [simp del]

definition parse_duration :: "string \<Rightarrow> int option" where
  "parse_duration s =
     (let signed = (s \<noteq> [] \<and> (hd s = CHR ''-'' \<or> hd s = CHR ''+''));
          neg = (signed \<and> hd s = CHR ''-'');
          t = (if signed then tl s else s)
      in if t = ''0'' then Some 0
         else if t = [] then None
         else case duration_sum 0 t of
           None \<Rightarrow> None
         | Some d \<Rightarrow>
             if neg then Some (- int d) else if 2 ^ 63 - 1 < d then None else Some (int d))"

section \<open>The result is an int64\<close>

lemma duration_sum_max: "duration_sum d s = Some n \<Longrightarrow> d \<le> 2 ^ 63 \<Longrightarrow> n \<le> 2 ^ 63"
proof (induction d s rule: duration_sum.induct)
  case (1 d s)
  from "1.prems" show ?case
    by (subst (asm) duration_sum.simps) (auto split: if_splits option.splits dest: "1.IH")
qed

lemma parse_duration_range: "parse_duration s = Some d \<Longrightarrow> - (2 ^ 63) \<le> d \<and> d < 2 ^ 63"
  by (auto simp: parse_duration_def Let_def split: if_splits option.splits dest!: duration_sum_max)

section \<open>Whole numbers with units\<close>

abbreviation read_from :: "nat \<Rightarrow> string \<Rightarrow> nat" where
  "read_from \<equiv> foldl (\<lambda>n c. n * 10 + digit_val c)"

lemma read_from_ge: "x \<le> read_from x ds"
proof (induction ds arbitrary: x)
  case (Cons c ds)
  have "x \<le> x * 10 + digit_val c" by simp
  with Cons [of "x * 10 + digit_val c"] show ?case by (simp only: foldl_Cons)
qed simp

lemma leading_int_digits:
  "list_all is_digit ds \<Longrightarrow> r = [] \<or> \<not> is_digit (hd r) \<Longrightarrow> read_from x ds \<le> 2 ^ 63 \<Longrightarrow>
   leading_int x (ds @ r) = Some (read_from x ds, r)"
proof (induction ds arbitrary: x)
  case Nil
  then show ?case by (cases r) auto
next
  case (Cons c ds)
  have "x * 10 + digit_val c \<le> 2 ^ 63"
    using read_from_ge [of "x * 10 + digit_val c" ds] Cons.prems(3) by simp
  moreover from this have "x \<le> 2 ^ 63 div 10" by simp
  ultimately show ?case using Cons by simp
qed

lemma leading_int_show_nat:
  assumes "n \<le> 2 ^ 63" "r = [] \<or> \<not> is_digit (hd r)"
  shows "leading_int 0 (show_nat n @ r) = Some (n, r)"
proof -
  have "list_all is_digit (show_nat n)" using show_nat_digits by (simp add: list_all_iff)
  moreover have "read_from 0 (show_nat n) = n" using read_show_nat [of n] by (simp add: read_nat_def mult.commute)
  ultimately show ?thesis using leading_int_digits [of "show_nat n" r 0] assms by simp
qed

text \<open>A number with a unit, as its text.\<close>

definition item_text :: "nat \<times> string \<Rightarrow> string" where
  "item_text i = show_nat (fst i) @ snd i"

definition unit_ns :: "string \<Rightarrow> nat" where
  "unit_ns u = (case map_of unit_map u of None \<Rightarrow> 0 | Some k \<Rightarrow> k)"

definition item_ns :: "nat \<times> string \<Rightarrow> nat" where
  "item_ns i = fst i * unit_ns (snd i)"

lemma unit_map_text: "u \<in> fst ` set unit_map \<Longrightarrow> u \<noteq> [] \<and> list_all unit_char u"
  by (auto simp: unit_map_def unit_char_def is_digit_def)

lemma unit_ns_pos: "u \<in> fst ` set unit_map \<Longrightarrow> map_of unit_map u = Some (unit_ns u) \<and> 0 < unit_ns u"
  by (auto simp: unit_map_def unit_ns_def)

lemma item_text_digit: "is_digit (hd (item_text i @ r))"
  using show_nat_digits [of "fst i"] by (simp add: item_text_def hd_in_set)

lemma duration_item_text:
  assumes "snd i \<in> fst ` set unit_map" "item_ns i \<le> 2 ^ 63" "r = [] \<or> is_digit (hd r)"
  shows "duration_item (item_text i @ r) = Some (item_ns i, r)"
proof -
  obtain n u where i: "i = (n, u)" by (cases i)
  have u: "u \<noteq> []" "list_all unit_char u" "map_of unit_map u = Some (unit_ns u)" "0 < unit_ns u"
    using unit_map_text [of u] unit_ns_pos [of u] assms(1) by (simp_all add: i)
  then have h: "\<not> is_digit (hd (u @ r))" "hd (u @ r) \<noteq> CHR ''.''"
    by (cases u; simp add: unit_char_def)+
  have n: "n * unit_ns u \<le> 2 ^ 63" using assms(2) by (simp add: i item_ns_def)
  moreover have "n \<le> n * unit_ns u" using u(4) by simp
  ultimately have "n \<le> 2 ^ 63" by linarith
  then have "leading_int 0 (show_nat n @ u @ r) = Some (n, u @ r)"
    using leading_int_show_nat [of n "u @ r"] h(1) by blast
  then have p: "number_part (show_nat n @ u @ r) = Some (n, 0, 0, u @ r)"
    using h(2) by (simp add: number_part_def)
  have "r = [] \<or> \<not> unit_char (hd r)" using assms(3) by (auto simp: unit_char_def)
  then have t: "takeWhile unit_char (u @ r) = u" "dropWhile unit_char (u @ r) = r"
    using u(2) by (cases r; simp add: list_all_iff takeWhile_append2 dropWhile_append2)+
  have "n \<le> 2 ^ 63 div unit_ns u" using n u(4) by (simp add: less_eq_div_iff_mult_less_eq)
  moreover have "is_digit (hd (show_nat n @ u @ r))" using item_text_digit [of i r] by (simp add: i item_text_def)
  ultimately show ?thesis
    unfolding i item_text_def item_ns_def using p t u by (simp add: duration_item_def Let_def)
qed

lemma items_digit: "concat (map item_text is) = [] \<or> is_digit (hd (concat (map item_text is)))"
  using item_text_digit by (cases "is") auto

lemma duration_sum_items:
  "\<forall>i \<in> set is. snd i \<in> fst ` set unit_map \<Longrightarrow> d + sum_list (map item_ns is) \<le> 2 ^ 63 \<Longrightarrow>
   duration_sum d (concat (map item_text is)) = Some (d + sum_list (map item_ns is))"
proof (induction "is" arbitrary: d)
  case Nil
  then show ?case by (simp add: duration_sum.simps)
next
  case (Cons i "is")
  let ?r = "concat (map item_text is)"
  have le: "item_ns i \<le> 2 ^ 63" "d + item_ns i \<le> 2 ^ 63" using Cons.prems(2) by simp_all
  then have "duration_item (item_text i @ ?r) = Some (item_ns i, ?r)"
    using duration_item_text [OF _ _ items_digit] Cons.prems(1) by simp
  moreover have "(d + item_ns i) mod 2 ^ 64 = d + item_ns i" using le(2) by simp
  moreover have "item_text i \<noteq> []" by (simp add: item_text_def)
  moreover have "duration_sum (d + item_ns i) ?r = Some (d + item_ns i + sum_list (map item_ns is))"
    using Cons.prems by (intro Cons.IH) simp_all
  ultimately show ?case using le by (subst duration_sum.simps) (simp add: add.assoc)
qed

text \<open>
  A sequence of numbers with units, e.g. \<open>1h30m\<close>, is read as the exact sum.
\<close>

lemma parse_duration_items:
  assumes "is \<noteq> []" "\<forall>i \<in> set is. snd i \<in> fst ` set unit_map" "sum_list (map item_ns is) < 2 ^ 63"
  shows "parse_duration (concat (map item_text is)) = Some (int (sum_list (map item_ns is)))"
proof -
  let ?s = "concat (map item_text is)"
  obtain i js where i: "is = i # js" using assms(1) by (cases "is") auto
  have d: "is_digit (hd ?s)" "?s \<noteq> []" using item_text_digit [of i] by (simp_all add: i item_text_def)
  then have h: "hd ?s \<noteq> CHR ''-''" "hd ?s \<noteq> CHR ''+''" by (auto simp: is_digit_def)
  obtain us j where us: "is = us @ [j]" using assms(1) by (cases "is" rule: rev_cases) auto
  have "snd j \<noteq> []" "list_all unit_char (snd j)" using unit_map_text [of "snd j"] assms(2) by (auto simp: us)
  then have "unit_char (last (snd j))" "last ?s = last (snd j)"
    by (simp_all add: list_all_iff us item_text_def)
  then have "last ?s \<noteq> CHR ''0''" by (auto simp: unit_char_def is_digit_def)
  then have "?s \<noteq> ''0''" by (metis last_ConsL)
  with d h duration_sum_items [OF assms(2), of 0] assms(3) show ?thesis
    by (simp add: parse_duration_def Let_def)
qed

text \<open>Fractions: of seconds, one that is not a binary fraction, and beyond what \<open>uint64\<close> holds.\<close>

lemmas fraction_simps = parse_duration_def duration_sum.simps duration_item_def number_part_def Let_def
  is_digit_def digit_val_def unit_char_def unit_map_def fraction_ns_def float_mult_def
  float_trunc_def round_ratio_def scaled_def round_even_def compute_floorlog

lemma parse_duration_fractions:
  "parse_duration ''1.5s'' = Some 1500000000" "parse_duration ''0.1h'' = Some 360000000000"
  by (simp_all add: fraction_simps)

lemma parse_duration_points:
  "parse_duration ''1.s'' = Some 1000000000" "parse_duration ''.s'' = None" "parse_duration ''15'' = None"
  by (simp_all add: fraction_simps)

lemma parse_duration_long_fraction: "parse_duration ''0.3333333333333333333h'' = Some 1200000000000"
  by (simp add: fraction_simps)

end
