(* ===== verification/Config.thy ===== *)
theory Config
  imports Main Prelude Go_Strings Go_Time Go_Duration
begin

text \<open>
  The configuration of \<open>cmd/server/main.go\<close>: what \<open>main\<close> reads from the environment, with the default
  of each variable that is not set or does not parse.
\<close>

section \<open>Configuration\<close>

type_synonym environment = "(string \<times> string) list"

text \<open>\<open>os.Getenv\<close> returns the empty string for a variable that is not set.\<close>

definition getenv :: "environment \<Rightarrow> string \<Rightarrow> string" where
  "getenv env k = (case map_of env k of None \<Rightarrow> [] | Some v \<Rightarrow> v)"

definition env_or :: "environment \<Rightarrow> string \<Rightarrow> string \<Rightarrow> string" where
  "env_or env k def = (if getenv env k \<noteq> [] then getenv env k else def)"

definition env_int :: "environment \<Rightarrow> string \<Rightarrow> int \<Rightarrow> int" where
  "env_int env k def =
     (let v = getenv env k
      in if v = [] then def
         else case parse_int64 v of
           None \<Rightarrow> def
         | Some n \<Rightarrow> if n \<le> 0 then def else n)"

definition env_duration :: "environment \<Rightarrow> string \<Rightarrow> int \<Rightarrow> int" where
  "env_duration env k def =
     (let v = getenv env k
      in if v = [] then def
         else case parse_duration v of
           None \<Rightarrow> def
         | Some d \<Rightarrow> if d \<le> 0 then def else d)"

definition parse_bool :: "string \<Rightarrow> bool option" where
  "parse_bool s =
     (if s \<in> {''1'', ''t'', ''T'', ''TRUE'', ''true'', ''True''} then Some True
      else if s \<in> {''0'', ''f'', ''F'', ''FALSE'', ''false'', ''False''} then Some False
      else None)"

definition env_bool :: "environment \<Rightarrow> string \<Rightarrow> bool \<Rightarrow> bool" where
  "env_bool env k def =
     (let v = getenv env k
      in if v = [] then def
         else case parse_bool v of None \<Rightarrow> def | Some b \<Rightarrow> b)"

datatype slog_level = Level_debug | Level_info | Level_warn | Level_error

definition parse_log_level :: "string \<Rightarrow> slog_level" where
  "parse_log_level v =
     (if v = ''debug'' then Level_debug else if v = ''warn'' then Level_warn
      else if v = ''error'' then Level_error else Level_info)"

record config =
  cf_namespace :: string
  cf_pod_name :: string
  cf_data_dir :: string
  cf_addr :: string
  cf_retention_days :: int
  cf_batch_size :: int
  cf_batch_interval :: int
  cf_insert_timeout :: int
  cf_include_init :: bool
  cf_search_days :: int
  cf_read_timeout :: int
  cf_write_timeout :: int
  cf_idle_timeout :: int
  cf_log_level :: slog_level

definition read_config :: "environment \<Rightarrow> config" where
  "read_config env =
     \<lparr>cf_namespace = env_or env ''NAMESPACE'' ''default'',
      cf_pod_name = env_or env ''POD_NAME'' '''',
      cf_data_dir = env_or env ''DATA_DIR'' ''/data'',
      cf_addr = env_or env ''LISTEN_ADDR'' '':8080'',
      cf_retention_days = env_int env ''RETENTION_DAYS'' 7,
      cf_batch_size = env_int env ''BATCH_SIZE'' 200,
      cf_batch_interval = env_duration env ''BATCH_INTERVAL'' (15 * second_ns),
      cf_insert_timeout = env_duration env ''INSERT_TIMEOUT'' (30 * second_ns),
      cf_include_init = env_bool env ''INCLUDE_INIT_CONTAINERS'' False,
      cf_search_days = env_int env ''DEFAULT_SEARCH_DAYS'' 7,
      cf_read_timeout = env_duration env ''HTTP_READ_TIMEOUT'' (15 * second_ns),
      cf_write_timeout = env_duration env ''HTTP_WRITE_TIMEOUT'' (30 * second_ns),
      cf_idle_timeout = env_duration env ''HTTP_IDLE_TIMEOUT'' (120 * second_ns),
      cf_log_level = parse_log_level (env_or env ''LOG_LEVEL'' ''info'')\<rparr>"

lemma env_int_pos: "0 < def \<Longrightarrow> 0 < env_int env k def"
  by (simp add: env_int_def Let_def split: option.split)

lemma env_int_max: "def < 2 ^ 63 \<Longrightarrow> env_int env k def < 2 ^ 63"
  by (auto simp: env_int_def parse_int64_def Let_def split: option.splits if_splits)

lemma env_duration_pos: "0 < def \<Longrightarrow> 0 < env_duration env k def"
  by (simp add: env_duration_def Let_def split: option.split)

lemma env_duration_max: "def < 2 ^ 63 \<Longrightarrow> env_duration env k def < 2 ^ 63"
  using parse_duration_range by (auto simp: env_duration_def Let_def split: option.splits if_splits)

section \<open>Properties\<close>

text \<open>
  C29: a duration of the environment means what it says: a variable whose value is a sequence of whole
  numbers with units, such as \<open>1h30m\<close>, gives exactly the sum in nanoseconds, as long as this is an
  int64; a sum of zero, like a value that is no duration, gives the default.
\<close>

theorem env_duration_value:
  assumes "getenv env k = concat (map item_text is)" "is \<noteq> []" "\<forall>i \<in> set is. snd i \<in> fst ` set unit_map"
    "sum_list (map item_ns is) < 2 ^ 63"
  shows "env_duration env k def =
    (if sum_list (map item_ns is) = 0 then def else int (sum_list (map item_ns is)))"
proof -
  have "getenv env k \<noteq> []" unfolding assms(1) using assms(2) by (cases "is") (simp_all add: item_text_def)
  moreover have "parse_duration (getenv env k) = Some (int (sum_list (map item_ns is)))"
    unfolding assms(1) by (rule parse_duration_items [OF assms(2-4)])
  ultimately show ?thesis by (simp add: env_duration_def Let_def del: sum_list_eq_0_iff)
qed

lemma env_duration_value_witness:
  "env_duration [(''BATCH_INTERVAL'', ''1m30s'')] ''BATCH_INTERVAL'' (15 * second_ns) = 90 * second_ns"
proof -
  have "concat (map item_text [(1, ''m''), (30, ''s'')]) = ''1m30s''"
    by code_simp
  then show ?thesis
    using env_duration_value [of "[(''BATCH_INTERVAL'', ''1m30s'')]" "''BATCH_INTERVAL''" "[(1, ''m''), (30, ''s'')]"]
    by (simp add: getenv_def item_ns_def unit_ns_def unit_map_def second_ns_def)
qed

end
