(* ===== verification/Live_Tail.thy ===== *)
theory Live_Tail
  imports Main "HOL-Library.Sublist" Prelude Go_Strings Store Broadcast Handler
begin

text \<open>
  The live tail: the connections of \<open>/api/tail\<close> (\<open>handleTail\<close> of \<open>internal/api/handler.go\<close>), each a
  goroutine that subscribes to the \<open>Broadcaster\<close>, receives from its channel and unsubscribes when it
  returns, together with the publisher. Every operation on the broadcaster is a step of the theory
  \<open>Broadcast\<close>; here it is done by the goroutine that the code lets do it.
\<close>

section \<open>Connections\<close>

text \<open>
  Where \<open>handleTail\<close> is: before \<open>Subscribe\<close>, in its loop, in the deferred \<open>unsubscribe\<close> (before the
  channel leaves the map, then before it is closed), returned; or it has refused the request.
\<close>

datatype tail_pc = Tail_start | Tail_refused | Looping | Leaving | Closing | Tail_returned

record tail_conn =
  tc_request :: http_request
  tc_filter :: tail_filter
  tc_chan :: nat
  tc_pc :: tail_pc
  tc_out :: string
  tc_got :: "log_line list"
  tc_since :: nat

text \<open>
  \<open>tc_got\<close> is what was received and \<open>tc_since\<close> how many lines were published before the subscription;
  \<open>lt_published\<close> are the lines of the \<open>Publish\<close> calls so far, \<open>lt_evicted\<close> counts the lines that made
  room in a channel.
\<close>

record live_tail =
  lt_bc :: broadcaster
  lt_conns :: "tail_conn list"
  lt_published :: "log_line list"
  lt_evicted :: "nat \<Rightarrow> nat"

definition new_live_tail :: live_tail where
  "new_live_tail = \<lparr>lt_bc = new_broadcaster, lt_conns = [], lt_published = [], lt_evicted = (\<lambda>_. 0)\<rparr>"

definition accept_tail :: "(string \<Rightarrow> string) \<Rightarrow> bool \<Rightarrow> http_request \<Rightarrow> tail_conn" where
  "accept_tail uni can_flush r =
     \<lparr>tc_request = r, tc_filter = tail_filter_of uni r, tc_chan = 0,
      tc_pc = (if can_flush then Tail_start else Tail_refused), tc_out = [], tc_got = [], tc_since = 0\<rparr>"

definition tail_receive ::
  "(tail_event \<Rightarrow> string option) \<Rightarrow> (string \<Rightarrow> string) \<Rightarrow> log_line \<Rightarrow> tail_conn \<Rightarrow> tail_conn" where
  "tail_receive marshal uni l c =
     c\<lparr>tc_out := tc_out c @ tail_write marshal uni (tc_filter c) l, tc_got := tc_got c @ [l]\<rparr>"

text \<open>The collector \<open>grepod_tail_subscribers\<close>.\<close>

definition tail_subscribers_gauge :: "live_tail \<Rightarrow> nat" where
  "tail_subscribers_gauge s = subscriber_count (lt_bc s)"

section \<open>Steps\<close>

datatype lt_action =
    Tail_request bool http_request
  | Tail_subscribe nat
  | Tail_recv nat
  | Tail_ended nat
  | Tail_gone nat
  | Tail_unsubscribe nat
  | Tail_close nat
  | Live_publish log_line "nat list"
  | Live_step

definition conn_at :: "live_tail \<Rightarrow> nat \<Rightarrow> tail_pc \<Rightarrow> bool" where
  "conn_at s i pc \<longleftrightarrow> i < length (lt_conns s) \<and> tc_pc (lt_conns s ! i) = pc"

abbreviation chan_of :: "live_tail \<Rightarrow> nat \<Rightarrow> nat" where
  "chan_of s i \<equiv> tc_chan (lt_conns s ! i)"

definition set_conn :: "nat \<Rightarrow> tail_conn \<Rightarrow> broadcaster \<Rightarrow> live_tail \<Rightarrow> live_tail" where
  "set_conn i c b s = s\<lparr>lt_bc := b, lt_conns := (lt_conns s)[i := c]\<rparr>"

text \<open>A step of the connection \<open>i\<close> on the broadcaster.\<close>

definition conn_step ::
  "nat \<Rightarrow> tail_pc \<Rightarrow> bc_action \<Rightarrow> (tail_conn \<Rightarrow> tail_conn) \<Rightarrow> live_tail \<Rightarrow> live_tail option" where
  "conn_step i pc a f s =
     (if conn_at s i pc
      then case bc_step a (lt_bc s) of None \<Rightarrow> None | Some b \<Rightarrow> Some (set_conn i (f (lt_conns s ! i)) b s)
      else None)"

definition evicts :: "broadcaster \<Rightarrow> nat \<Rightarrow> nat" where
  "evicts b c =
     (case bc_pub b of Evicting l ch rest \<Rightarrow> if ch = c \<and> bc_buf b ch \<noteq> [] then 1 else 0 | _ \<Rightarrow> 0)"

fun lt_step ::
  "(tail_event \<Rightarrow> string option) \<Rightarrow> (string \<Rightarrow> string) \<Rightarrow> lt_action \<Rightarrow> live_tail \<Rightarrow> live_tail option" where
  "lt_step marshal uni (Tail_request can_flush r) s =
     Some (s\<lparr>lt_conns := lt_conns s @ [accept_tail uni can_flush r]\<rparr>)"
| "lt_step marshal uni (Tail_subscribe i) s =
     conn_step i Tail_start Subscribe
       (\<lambda>c. c\<lparr>tc_chan := snd (subscribe (lt_bc s)), tc_pc := Looping, tc_since := length (lt_published s)\<rparr>) s"
| "lt_step marshal uni (Tail_recv i) s =
     conn_step i Looping (Receive (chan_of s i))
       (tail_receive marshal uni (hd (bc_buf (lt_bc s) (chan_of s i)))) s"
| "lt_step marshal uni (Tail_ended i) s =
     (if conn_at s i Looping \<and> bc_closed (lt_bc s) (chan_of s i) \<and> bc_buf (lt_bc s) (chan_of s i) = []
      then Some (set_conn i ((lt_conns s ! i)\<lparr>tc_pc := Leaving\<rparr>) (lt_bc s) s) else None)"
| "lt_step marshal uni (Tail_gone i) s =
     (if conn_at s i Looping
      then Some (set_conn i ((lt_conns s ! i)\<lparr>tc_pc := Leaving\<rparr>) (lt_bc s) s) else None)"
| "lt_step marshal uni (Tail_unsubscribe i) s =
     conn_step i Leaving (Unsubscribe (chan_of s i)) (\<lambda>c. c\<lparr>tc_pc := Closing\<rparr>) s"
| "lt_step marshal uni (Tail_close i) s =
     conn_step i Closing (Close_channel (chan_of s i)) (\<lambda>c. c\<lparr>tc_pc := Tail_returned\<rparr>) s"
| "lt_step marshal uni (Live_publish l order) s =
     (case bc_step (Publish l order) (lt_bc s) of
        None \<Rightarrow> None | Some b \<Rightarrow> Some (s\<lparr>lt_bc := b, lt_published := lt_published s @ [l]\<rparr>))"
| "lt_step marshal uni Live_step s =
     (case bc_step Publish_step (lt_bc s) of
        None \<Rightarrow> None
      | Some b \<Rightarrow> Some (s\<lparr>lt_bc := b, lt_evicted := (\<lambda>c. lt_evicted s c + evicts (lt_bc s) c)\<rparr>))"

inductive lt_exec :: "(tail_event \<Rightarrow> string option) \<Rightarrow> (string \<Rightarrow> string) \<Rightarrow> live_tail \<Rightarrow> bool"
  for marshal uni where
  lt_start: "lt_exec marshal uni new_live_tail"
| lt_next: "lt_exec marshal uni s \<Longrightarrow> lt_step marshal uni a s = Some s' \<Longrightarrow> lt_exec marshal uni s'"

section \<open>Each connection has its own channel\<close>

definition has_chan :: "tail_conn \<Rightarrow> bool" where
  "has_chan c \<longleftrightarrow> tc_pc c \<in> {Looping, Leaving, Closing, Tail_returned}"

definition in_map :: "tail_conn \<Rightarrow> bool" where
  "in_map c \<longleftrightarrow> tc_pc c \<in> {Looping, Leaving}"

lemma tail_receive_views [simp]:
  "has_chan (tail_receive marshal uni l c) = has_chan c" "in_map (tail_receive marshal uni l c) = in_map c"
  "tc_chan (tail_receive marshal uni l c) = tc_chan c" "tc_since (tail_receive marshal uni l c) = tc_since c"
  "tc_filter (tail_receive marshal uni l c) = tc_filter c" "tc_request (tail_receive marshal uni l c) = tc_request c"
  "tc_got (tail_receive marshal uni l c) = tc_got c @ [l]"
  "tc_out (tail_receive marshal uni l c) = tc_out c @ tail_write marshal uni (tc_filter c) l"
  by (simp_all add: tail_receive_def has_chan_def in_map_def)

definition chan_in :: "(tail_conn \<Rightarrow> bool) \<Rightarrow> live_tail \<Rightarrow> nat \<Rightarrow> bool" where
  "chan_in P s ch \<longleftrightarrow> (\<exists>i < length (lt_conns s). P (lt_conns s ! i) \<and> chan_of s i = ch)"

definition own_chans :: "live_tail \<Rightarrow> bool" where
  "own_chans s \<longleftrightarrow> (\<forall>i < length (lt_conns s). \<forall>j < length (lt_conns s).
     has_chan (lt_conns s ! i) \<and> has_chan (lt_conns s ! j) \<and> chan_of s i = chan_of s j \<longrightarrow> i = j)"

definition chan_inv :: "live_tail \<Rightarrow> bool" where
  "chan_inv s \<longleftrightarrow> bc_inv (lt_bc s) \<and> own_chans s
     \<and> (\<forall>ch. chan_in has_chan s ch \<longrightarrow> ch < bc_next (lt_bc s))
     \<and> (\<forall>ch. ch \<in> set (bc_subs (lt_bc s)) \<longleftrightarrow> chan_in in_map s ch)
     \<and> (\<forall>ch. ch \<in> set (bc_leaving (lt_bc s)) \<longleftrightarrow> chan_in (\<lambda>c. tc_pc c = Closing) s ch)
     \<and> (\<forall>ch. bc_closed (lt_bc s) ch \<longleftrightarrow> chan_in (\<lambda>c. tc_pc c = Tail_returned) s ch)"

lemma chan_inv_new: "chan_inv new_live_tail"
  using bc_inv_new
  by (simp add: chan_inv_def new_live_tail_def chan_in_def own_chans_def) (simp add: new_broadcaster_def)

lemma chan_in_cong:
  "lt_conns s' = lt_conns s \<Longrightarrow> chan_in P s' ch = chan_in P s ch"
  by (simp add: chan_in_def)

lemma own_chans_cong: "lt_conns s' = lt_conns s \<Longrightarrow> own_chans s' = own_chans s"
  by (simp add: own_chans_def)

lemma set_conn_views [simp]:
  "lt_bc (set_conn i c b s) = b" "length (lt_conns (set_conn i c b s)) = length (lt_conns s)"
  "lt_published (set_conn i c b s) = lt_published s" "lt_evicted (set_conn i c b s) = lt_evicted s"
  "i < length (lt_conns s) \<Longrightarrow> lt_conns (set_conn i c b s) ! j = (if j = i then c else lt_conns s ! j)"
  by (auto simp: set_conn_def nth_list_update)

text \<open>Whose channel a channel is after a step of the connection \<open>i\<close>.\<close>

lemma chan_in_set_conn:
  assumes "own_chans s" "i < length (lt_conns s)" "has_chan (lt_conns s ! i)" "\<And>c. P c \<Longrightarrow> has_chan c"
  shows "chan_in P (set_conn i c b s) ch \<longleftrightarrow>
    P c \<and> tc_chan c = ch \<or> chan_in P s ch \<and> ch \<noteq> chan_of s i"
proof
  assume "chan_in P (set_conn i c b s) ch"
  then obtain j where j: "j < length (lt_conns s)" "P (if j = i then c else lt_conns s ! j)"
    "tc_chan (if j = i then c else lt_conns s ! j) = ch"
    using assms(2) by (auto simp: chan_in_def)
  then show "P c \<and> tc_chan c = ch \<or> chan_in P s ch \<and> ch \<noteq> chan_of s i"
    using assms unfolding own_chans_def chan_in_def by (cases "j = i") auto
next
  assume "P c \<and> tc_chan c = ch \<or> chan_in P s ch \<and> ch \<noteq> chan_of s i"
  then show "chan_in P (set_conn i c b s) ch"
  proof
    assume "P c \<and> tc_chan c = ch"
    then show ?thesis using assms(2) by (auto simp: chan_in_def intro!: exI [of _ i])
  next
    assume "chan_in P s ch \<and> ch \<noteq> chan_of s i"
    then obtain j where "j < length (lt_conns s)" "P (lt_conns s ! j)" "chan_of s j = ch" "j \<noteq> i"
      by (auto simp: chan_in_def)
    then show ?thesis using assms(2) by (auto simp: chan_in_def intro!: exI [of _ j])
  qed
qed

lemma chan_in_set_conn_new:
  assumes "i < length (lt_conns s)" "\<not> P (lt_conns s ! i)"
  shows "chan_in P (set_conn i c b s) ch \<longleftrightarrow> P c \<and> tc_chan c = ch \<or> chan_in P s ch"
proof
  assume "chan_in P (set_conn i c b s) ch"
  then show "P c \<and> tc_chan c = ch \<or> chan_in P s ch"
    using assms by (auto simp: chan_in_def split: if_splits)
next
  assume "P c \<and> tc_chan c = ch \<or> chan_in P s ch"
  then show "chan_in P (set_conn i c b s) ch"
  proof
    assume "P c \<and> tc_chan c = ch"
    then show ?thesis using assms by (auto simp: chan_in_def intro!: exI [of _ i])
  next
    assume "chan_in P s ch"
    then obtain j where "j < length (lt_conns s)" "P (lt_conns s ! j)" "chan_of s j = ch"
      by (auto simp: chan_in_def)
    then show ?thesis using assms by (auto simp: chan_in_def intro!: exI [of _ j])
  qed
qed

lemma own_chans_set_conn:
  assumes "own_chans s" "i < length (lt_conns s)" "tc_chan c = chan_of s i" "has_chan (lt_conns s ! i)"
  shows "own_chans (set_conn i c b s)"
proof -
  have "chan_of (set_conn i c b s) j = chan_of s j" for j using assms(2,3) by simp
  moreover have "has_chan (lt_conns (set_conn i c b s) ! j) \<Longrightarrow> has_chan (lt_conns s ! j)" for j
    using assms(2,4) by (simp split: if_splits)
  ultimately show ?thesis using assms(1) by (simp add: own_chans_def)
qed

lemma pc_has_chan:
  "tc_pc c = Looping \<Longrightarrow> has_chan c" "tc_pc c = Leaving \<Longrightarrow> has_chan c" "tc_pc c = Closing \<Longrightarrow> has_chan c"
  "tc_pc c = Tail_returned \<Longrightarrow> has_chan c" "in_map c \<Longrightarrow> has_chan c"
  by (auto simp: has_chan_def in_map_def)

text \<open>The owner of a channel decides what its state is.\<close>

lemma chan_in_own:
  assumes "own_chans s" "i < length (lt_conns s)" "has_chan (lt_conns s ! i)" "\<And>c. P c \<Longrightarrow> has_chan c"
  shows "chan_in P s (chan_of s i) \<longleftrightarrow> P (lt_conns s ! i)"
  using assms unfolding chan_in_def own_chans_def by auto

text \<open>A step of a connection in its loop that leaves it in the map.\<close>

lemma chan_inv_loop:
  assumes "chan_inv s" "conn_at s i Looping" "tc_chan c = chan_of s i" "in_map c"
    and "bc_inv b" "bc_subs b = bc_subs (lt_bc s)" "bc_leaving b = bc_leaving (lt_bc s)"
      "bc_closed b = bc_closed (lt_bc s)" "bc_next b = bc_next (lt_bc s)"
  shows "chan_inv (set_conn i c b s)"
proof -
  have i: "i < length (lt_conns s)" "has_chan (lt_conns s ! i)" and pc: "tc_pc (lt_conns s ! i) = Looping"
    using assms(2) by (simp_all add: conn_at_def pc_has_chan)
  have own: "own_chans s" using assms(1) by (simp add: chan_inv_def)
  have same: "chan_in P (set_conn i c b s) ch \<longleftrightarrow> chan_in P s ch"
    if "\<And>c. P c \<Longrightarrow> has_chan c" "P c \<longleftrightarrow> P (lt_conns s ! i)" for P ch
  proof -
    have "chan_in P (set_conn i c b s) ch \<longleftrightarrow> P c \<and> chan_of s i = ch \<or> chan_in P s ch \<and> ch \<noteq> chan_of s i"
      using chan_in_set_conn [OF own i that(1)] by (simp add: assms(3))
    moreover have "chan_in P s (chan_of s i) \<longleftrightarrow> P c" using chan_in_own [OF own i that(1)] that(2) by simp
    ultimately show ?thesis by (cases "ch = chan_of s i") simp_all
  qed
  have "has_chan c" "tc_pc c \<noteq> Closing" "tc_pc c \<noteq> Tail_returned" "in_map (lt_conns s ! i)"
    using assms(4) pc by (auto simp: in_map_def has_chan_def)
  then have "chan_in has_chan (set_conn i c b s) ch = chan_in has_chan s ch"
    "chan_in in_map (set_conn i c b s) ch = chan_in in_map s ch"
    "chan_in (\<lambda>c. tc_pc c = Closing) (set_conn i c b s) ch = chan_in (\<lambda>c. tc_pc c = Closing) s ch"
    "chan_in (\<lambda>c. tc_pc c = Tail_returned) (set_conn i c b s) ch = chan_in (\<lambda>c. tc_pc c = Tail_returned) s ch" for ch
    using i(2) assms(4) pc by (simp_all add: same pc_has_chan)
  with assms own_chans_set_conn [OF own i(1) assms(3) i(2)] show ?thesis
    by (simp add: chan_inv_def)
qed

lemma bc_views [simp]:
  "bc_next (unsubscribe_delete ch b) = bc_next b" "bc_next (unsubscribe_close ch b) = bc_next b"
  "bc_subs (receive_from ch b) = bc_subs b" "bc_leaving (receive_from ch b) = bc_leaving b"
  "bc_closed (receive_from ch b) = bc_closed b" "bc_next (receive_from ch b) = bc_next b"
  by (simp_all add: unsubscribe_delete_def unsubscribe_close_def receive_from_def)

lemma publisher_views:
  assumes "bc_step a b = Some b'" "a = Publish_step \<or> (\<exists>l order. a = Publish l order)"
  shows "bc_subs b' = bc_subs b \<and> bc_leaving b' = bc_leaving b \<and> bc_closed b' = bc_closed b
    \<and> bc_next b' = bc_next b"
  using assms by (auto split: if_splits elim!: publish_step_cases
      simp: send_def publish_evict_def publish_retry_def receive_from_def simp del: bc_step.simps(5))

lemma conn_step_cases:
  assumes "conn_step i pc a f s = Some s'"
  obtains b where "conn_at s i pc" "bc_step a (lt_bc s) = Some b" "s' = set_conn i (f (lt_conns s ! i)) b s"
  using assms by (auto simp: conn_step_def split: if_splits option.splits)

lemma subscribe_chan_inv:
  assumes "lt_step marshal uni (Tail_subscribe i) s = Some s'" "chan_inv s"
  shows "chan_inv s'"
proof -
  have own: "own_chans s" and bc: "bc_inv (lt_bc s)" using assms(2) by (simp_all add: chan_inv_def)
  obtain b where c: "conn_at s i Tail_start" and b: "bc_step Subscribe (lt_bc s) = Some b"
    and s': "s' = set_conn i ((lt_conns s ! i)\<lparr>tc_chan := snd (subscribe (lt_bc s)), tc_pc := Looping,
       tc_since := length (lt_published s)\<rparr>) b s"
    using assms(1) by (auto elim: conn_step_cases)
  have i: "i < length (lt_conns s)" "tc_pc (lt_conns s ! i) = Tail_start" using c by (simp_all add: conn_at_def)
  have "bc_inv b" using bc_step_inv [OF b bc] .
  have n: "bc_subs b = bc_next (lt_bc s) # bc_subs (lt_bc s)" "bc_next b = Suc (bc_next (lt_bc s))"
    "bc_leaving b = bc_leaving (lt_bc s)" "bc_closed b = bc_closed (lt_bc s)"
    "snd (subscribe (lt_bc s)) = bc_next (lt_bc s)"
    using b by (auto simp: subscribe_def Let_def split: if_splits)
  have iff: "chan_in P s' ch \<longleftrightarrow> P ((lt_conns s ! i)\<lparr>tc_chan := bc_next (lt_bc s), tc_pc := Looping,
       tc_since := length (lt_published s)\<rparr>) \<and> bc_next (lt_bc s) = ch \<or> chan_in P s ch"
    if "\<not> P (lt_conns s ! i)" for P ch
    using chan_in_set_conn_new [of i s P, OF i(1)] that by (simp add: s' n(5))
  have no: "\<not> has_chan (lt_conns s ! i)" "\<not> in_map (lt_conns s ! i)"
    "tc_pc (lt_conns s ! i) \<noteq> Closing" "tc_pc (lt_conns s ! i) \<noteq> Tail_returned"
    using i(2) by (simp_all add: has_chan_def in_map_def)
  have yes: "has_chan ((lt_conns s ! i)\<lparr>tc_chan := x, tc_pc := Looping, tc_since := y\<rparr>)"
    "in_map ((lt_conns s ! i)\<lparr>tc_chan := x, tc_pc := Looping, tc_since := y\<rparr>)" for x y
    by (simp_all add: has_chan_def in_map_def)
  have ch: "chan_of s' j = (if j = i then bc_next (lt_bc s) else chan_of s j)"
    "j \<noteq> i \<Longrightarrow> lt_conns s' ! j = lt_conns s ! j" "length (lt_conns s') = length (lt_conns s)" for j
    using i(1) by (simp_all add: s' n(5))
  have old: "chan_of s' j < bc_next (lt_bc s)"
    if "j < length (lt_conns s')" "has_chan (lt_conns s' ! j)" "j \<noteq> i" for j
    using assms(2) that ch by (auto simp: chan_inv_def chan_in_def)
  have "j = k" if jk: "j < length (lt_conns s')" "k < length (lt_conns s')"
    "has_chan (lt_conns s' ! j)" "has_chan (lt_conns s' ! k)" "chan_of s' j = chan_of s' k" for j k
  proof (cases "j = i \<or> k = i")
    case True
    with old [of j] old [of k] jk ch(1) [of i] show ?thesis by (metis less_irrefl)
  next
    case False
    with jk ch own show ?thesis by (simp add: own_chans_def)
  qed
  then have "own_chans s'" by (simp add: own_chans_def)
  then show ?thesis
    using assms(2) \<open>bc_inv b\<close> n iff no yes by (simp add: chan_inv_def) (auto simp: s' less_Suc_eq)
qed

lemma unsubscribe_chan_inv:
  assumes "lt_step marshal uni (Tail_unsubscribe i) s = Some s'" "chan_inv s"
  shows "chan_inv s'"
proof -
  have own: "own_chans s" and bc: "bc_inv (lt_bc s)" using assms(2) by (simp_all add: chan_inv_def)
  obtain b where c: "conn_at s i Leaving" and b: "bc_step (Unsubscribe (chan_of s i)) (lt_bc s) = Some b"
    and s': "s' = set_conn i ((lt_conns s ! i)\<lparr>tc_pc := Closing\<rparr>) b s"
    using assms(1) by (auto elim: conn_step_cases)
  have i: "i < length (lt_conns s)" "has_chan (lt_conns s ! i)" and pc: "tc_pc (lt_conns s ! i) = Leaving"
    using c by (simp_all add: conn_at_def pc_has_chan)
  have b': "b = unsubscribe_delete (chan_of s i) (lt_bc s)" using b by (auto split: if_splits)
  note iff = chan_in_set_conn [OF own i]
  have "own_chans s'" unfolding s' by (rule own_chans_set_conn [OF own i(1) _ i(2)]) simp
  moreover have "chan_in has_chan s (chan_of s i)" using i by (auto simp: chan_in_def)
  moreover have "\<not> chan_in (\<lambda>c. tc_pc c = Tail_returned) s (chan_of s i)"
    using chan_in_own [OF own i, of "\<lambda>c. tc_pc c = Tail_returned"] pc by (simp add: pc_has_chan)
  ultimately show ?thesis
    using assms(2) bc_step_inv [OF b bc]
    by (simp add: chan_inv_def s' iff pc_has_chan) (auto simp: b' unsubscribe_delete_def in_map_def)
qed

lemma close_chan_inv:
  assumes "lt_step marshal uni (Tail_close i) s = Some s'" "chan_inv s"
  shows "chan_inv s'"
proof -
  have own: "own_chans s" and bc: "bc_inv (lt_bc s)" using assms(2) by (simp_all add: chan_inv_def)
  obtain b where c: "conn_at s i Closing" and b: "bc_step (Close_channel (chan_of s i)) (lt_bc s) = Some b"
    and s': "s' = set_conn i ((lt_conns s ! i)\<lparr>tc_pc := Tail_returned\<rparr>) b s"
    using assms(1) by (auto elim: conn_step_cases)
  have i: "i < length (lt_conns s)" "has_chan (lt_conns s ! i)" and pc: "tc_pc (lt_conns s ! i) = Closing"
    using c by (simp_all add: conn_at_def pc_has_chan)
  have b': "b = unsubscribe_close (chan_of s i) (lt_bc s)" using b by (auto split: if_splits)
  note iff = chan_in_set_conn [OF own i]
  have "own_chans s'" unfolding s' by (rule own_chans_set_conn [OF own i(1) _ i(2)]) simp
  moreover have "chan_in has_chan s (chan_of s i)" using i by (auto simp: chan_in_def)
  moreover have "\<not> chan_in in_map s (chan_of s i)"
    using chan_in_own [OF own i, of in_map] pc by (simp add: pc_has_chan) (simp add: in_map_def)
  ultimately show ?thesis
    using assms(2) bc_step_inv [OF b bc]
    by (simp add: chan_inv_def s' iff pc_has_chan) (auto simp: b' unsubscribe_close_def in_map_def)
qed

lemma lt_step_chan_inv:
  assumes "lt_step marshal uni a s = Some s'" "chan_inv s"
  shows "chan_inv s'"
proof -
  have own: "own_chans s" and bc: "bc_inv (lt_bc s)" using assms(2) by (simp_all add: chan_inv_def)
  show ?thesis
  proof (cases a)
    case (Tail_request cf r)
    then have s': "s' = s\<lparr>lt_conns := lt_conns s @ [accept_tail uni cf r]\<rparr>" using assms(1) by simp
    have "chan_in P s' ch = chan_in P s ch" if "\<not> P (accept_tail uni cf r)" for P ch
      using that by (auto simp: s' chan_in_def nth_append less_Suc_eq)
    moreover have no: "\<not> has_chan (accept_tail uni cf r)" "\<not> in_map (accept_tail uni cf r)"
      "tc_pc (accept_tail uni cf r) \<noteq> Closing" "tc_pc (accept_tail uni cf r) \<noteq> Tail_returned"
      by (simp_all add: has_chan_def in_map_def accept_tail_def)
    moreover have "own_chans s'" using own no(1) by (auto simp: s' own_chans_def nth_append less_Suc_eq)
    moreover have "lt_bc s' = lt_bc s" by (simp add: s')
    ultimately show ?thesis using assms(2) by (simp add: chan_inv_def)
  next
    case (Tail_subscribe i)
    with subscribe_chan_inv assms show ?thesis by blast
  next
    case (Tail_recv i)
    then obtain b where c: "conn_at s i Looping" and b: "bc_step (Receive (chan_of s i)) (lt_bc s) = Some b"
      and s': "s' = set_conn i (tail_receive marshal uni (hd (bc_buf (lt_bc s) (chan_of s i))) (lt_conns s ! i)) b s"
      using assms(1) by (auto elim: conn_step_cases)
    have "b = receive_from (chan_of s i) (lt_bc s)" using b by (auto split: if_splits)
    moreover have "bc_inv b" using bc_step_inv [OF b bc] .
    ultimately show ?thesis
      unfolding s' using c by (intro chan_inv_loop [OF assms(2) c]) (simp_all add: tail_receive_def in_map_def conn_at_def)
  next
    case (Tail_ended i)
    with assms bc show ?thesis
      by (auto simp: in_map_def split: if_splits intro!: chan_inv_loop)
  next
    case (Tail_gone i)
    with assms bc show ?thesis
      by (auto simp: in_map_def split: if_splits intro!: chan_inv_loop)
  next
    case (Tail_unsubscribe i)
    with unsubscribe_chan_inv assms show ?thesis by blast
  next
    case (Tail_close i)
    with close_chan_inv assms show ?thesis by blast
  next
    case (Live_publish l order)
    then obtain b where b: "bc_step (Publish l order) (lt_bc s) = Some b"
      and s': "s' = s\<lparr>lt_bc := b, lt_published := lt_published s @ [l]\<rparr>"
      using assms(1) by (auto split: option.splits simp del: bc_step.simps)
    have "lt_conns s' = lt_conns s" "lt_bc s' = b" by (simp_all add: s')
    with assms(2) publisher_views [OF b] bc_step_inv [OF b bc] show ?thesis
      by (simp add: chan_inv_def chan_in_cong [of s' s] own_chans_cong [of s' s])
  next
    case Live_step
    then obtain b where b: "bc_step Publish_step (lt_bc s) = Some b"
      and s': "s' = s\<lparr>lt_bc := b, lt_evicted := (\<lambda>c. lt_evicted s c + evicts (lt_bc s) c)\<rparr>"
      using assms(1) by (auto split: option.splits simp del: bc_step.simps)
    have "lt_conns s' = lt_conns s" "lt_bc s' = b" by (simp_all add: s')
    with assms(2) publisher_views [OF b] bc_step_inv [OF b bc] show ?thesis
      by (simp add: chan_inv_def chan_in_cong [of s' s] own_chans_cong [of s' s])
  qed
qed

section \<open>What a connection has received\<close>

text \<open>The line of the running \<open>Publish\<close> when it has not yet been put into the channel \<open>c\<close>.\<close>

definition pub_rest :: "broadcaster \<Rightarrow> nat \<Rightarrow> log_line list" where
  "pub_rest b c =
     (case bc_pub b of
        No_publish \<Rightarrow> []
      | Publishing l rest \<Rightarrow> if c \<in> set rest then [l] else []
      | Evicting l ch rest \<Rightarrow> if c \<in> set (ch # rest) then [l] else []
      | Retrying l ch rest \<Rightarrow> if c \<in> set (ch # rest) then [l] else [])"

lemma publish_step_history:
  assumes "bc_step Publish_step b = Some b'" "bc_inv b"
  shows "pub_rest b c = published_by Publish_step b c @ pub_rest b' c"
    and "length (bc_buf b' c) + evicts b c = length (bc_buf b c) + length (published_by Publish_step b c)"
    and "c \<notin> set (bc_subs b) \<Longrightarrow> published_by Publish_step b c = []"
  using assms(1)
proof (atomize (full), cases rule: publish_step_cases)
  case (2 l ch rest)
  with assms(2) show "pub_rest b c = published_by Publish_step b c @ pub_rest b' c \<and>
    length (bc_buf b' c) + evicts b c = length (bc_buf b c) + length (published_by Publish_step b c) \<and>
    (c \<notin> set (bc_subs b) \<longrightarrow> published_by Publish_step b c = [])"
    by (auto simp: pub_rest_def published_by_def evicts_def bc_inv_def in_publish_def send_def)
next
  case (4 l ch rest)
  then show "pub_rest b c = published_by Publish_step b c @ pub_rest b' c \<and>
    length (bc_buf b' c) + evicts b c = length (bc_buf b c) + length (published_by Publish_step b c) \<and>
    (c \<notin> set (bc_subs b) \<longrightarrow> published_by Publish_step b c = [])"
    by (auto simp: pub_rest_def published_by_def evicts_def publish_evict_def receive_from_def)
next
  case (5 l ch rest)
  moreover have "has_room b ch" using 5 assms(2) by (simp add: bc_inv_def)
  ultimately show "pub_rest b c = published_by Publish_step b c @ pub_rest b' c \<and>
    length (bc_buf b' c) + evicts b c = length (bc_buf b c) + length (published_by Publish_step b c) \<and>
    (c \<notin> set (bc_subs b) \<longrightarrow> published_by Publish_step b c = [])"
    using assms(2) by (auto simp: pub_rest_def published_by_def evicts_def publish_retry_def send_def
        bc_inv_def in_publish_def)
qed (auto simp: pub_rest_def published_by_def evicts_def)

definition conn_hist ::
  "(tail_event \<Rightarrow> string option) \<Rightarrow> (string \<Rightarrow> string) \<Rightarrow> (nat \<Rightarrow> log_line list) \<Rightarrow> (nat \<Rightarrow> log_line list)
   \<Rightarrow> live_tail \<Rightarrow> tail_conn \<Rightarrow> bool" where
  "conn_hist marshal uni pubs got s c \<longleftrightarrow>
     tc_filter c = tail_filter_of uni (tc_request c)
     \<and> tc_out c = concat (map (tail_write marshal uni (tc_filter c)) (tc_got c))
     \<and> (\<not> has_chan c \<longrightarrow> tc_got c = [])
     \<and> (has_chan c \<longrightarrow> got (tc_chan c) = tc_got c \<and> tc_since c \<le> length (lt_published s)
          \<and> prefix (pubs (tc_chan c)) (drop (tc_since c) (lt_published s)))
     \<and> (in_map c \<longrightarrow> drop (tc_since c) (lt_published s) = pubs (tc_chan c) @ pub_rest (lt_bc s) (tc_chan c))"

definition lt_hist ::
  "(tail_event \<Rightarrow> string option) \<Rightarrow> (string \<Rightarrow> string) \<Rightarrow> (nat \<Rightarrow> log_line list) \<Rightarrow> (nat \<Rightarrow> log_line list)
   \<Rightarrow> live_tail \<Rightarrow> bool" where
  "lt_hist marshal uni pubs got s \<longleftrightarrow>
     (\<forall>i < length (lt_conns s). conn_hist marshal uni pubs got s (lt_conns s ! i))
     \<and> (\<forall>ch. length (got ch) + length (bc_buf (lt_bc s) ch) + lt_evicted s ch = length (pubs ch))
     \<and> (\<forall>ch \<ge> bc_next (lt_bc s). pubs ch = [] \<and> got ch = [])"

text \<open>The histories after a step on the broadcaster.\<close>

abbreviation pubs_after where "pubs_after pubs a b \<equiv> (\<lambda>c. pubs c @ published_by a b c)"
abbreviation got_after where "got_after got a b \<equiv> (\<lambda>c. got c @ received_by a b c)"

lemma no_history:
  "(\<forall>ch. a \<noteq> Receive ch) \<Longrightarrow> received_by a b c = []" "a \<noteq> Publish_step \<Longrightarrow> published_by a b c = []"
  by (cases a; simp add: received_by_def published_by_def)+

lemma lt_hist_publish:
  assumes "bc_step (Publish l order) (lt_bc s) = Some b" "chan_inv s" "lt_hist marshal uni pubs got s"
  shows "lt_hist marshal uni pubs got (s\<lparr>lt_bc := b, lt_published := lt_published s @ [l]\<rparr>)"
proof -
  have b: "b = (lt_bc s)\<lparr>bc_pub := Publishing l order\<rparr>" "bc_pub (lt_bc s) = No_publish"
    "set order = set (bc_subs (lt_bc s))"
    using assms(1) by (auto split: if_splits)
  have "conn_hist marshal uni pubs got (s\<lparr>lt_bc := b, lt_published := lt_published s @ [l]\<rparr>) c"
    if c: "c = lt_conns s ! i" "i < length (lt_conns s)" "conn_hist marshal uni pubs got s c" for c i
  proof -
    have "tc_chan c \<in> set order" if "in_map c"
      using that c(1,2) assms(2) b(3) by (auto simp: chan_inv_def chan_in_def)
    with c(3) b(1,2) show ?thesis by (auto simp: conn_hist_def pub_rest_def pc_has_chan)
  qed
  with assms(3) b(1) show ?thesis by (simp add: lt_hist_def)
qed

lemma lt_hist_publish_step:
  assumes b: "bc_step Publish_step (lt_bc s) = Some b" and inv: "chan_inv s"
    and h: "lt_hist marshal uni pubs got s"
  shows "lt_hist marshal uni (pubs_after pubs Publish_step (lt_bc s)) (got_after got Publish_step (lt_bc s))
    (s\<lparr>lt_bc := b, lt_evicted := (\<lambda>c. lt_evicted s c + evicts (lt_bc s) c)\<rparr>)"
proof -
  let ?s = "s\<lparr>lt_bc := b, lt_evicted := (\<lambda>c. lt_evicted s c + evicts (lt_bc s) c)\<rparr>"
  let ?pubs = "pubs_after pubs Publish_step (lt_bc s)"
  have bc: "bc_inv (lt_bc s)" using inv by (simp add: chan_inv_def)
  note ph = publish_step_history [OF b bc]
  have got: "got_after got Publish_step (lt_bc s) = got" by (simp add: no_history)
  have "conn_hist marshal uni ?pubs got ?s c"
    if c: "c = lt_conns s ! i" "i < length (lt_conns s)" "conn_hist marshal uni pubs got s c" for c i
  proof (cases "in_map c")
    case True
    then have "drop (tc_since c) (lt_published s) = ?pubs (tc_chan c) @ pub_rest b (tc_chan c)"
      using c(3) ph(1) [of "tc_chan c"] by (simp add: conn_hist_def)
    moreover from this have "prefix (?pubs (tc_chan c)) (drop (tc_since c) (lt_published s))" by (rule prefixI)
    ultimately show ?thesis using c(3) True pc_has_chan(5) [OF True] unfolding conn_hist_def by simp
  next
    case False
    have "published_by Publish_step (lt_bc s) (tc_chan c) = []" if "has_chan c"
    proof -
      have "\<not> chan_in in_map s (tc_chan c)"
        using False c(1,2) that inv chan_in_own [of s i in_map] by (simp add: chan_inv_def pc_has_chan)
      with inv ph(3) show ?thesis by (simp add: chan_inv_def)
    qed
    with False c(3) show ?thesis by (simp add: conn_hist_def)
  qed
  moreover have "published_by Publish_step (lt_bc s) ch = []" if "bc_next (lt_bc s) \<le> ch" for ch
    using ph(3) [of ch] bc that unfolding bc_inv_def by fastforce
  moreover have "length (got ch) + length (bc_buf b ch) + (lt_evicted s ch + evicts (lt_bc s) ch) =
      length (?pubs ch)" for ch
  proof -
    have "length (got ch) + length (bc_buf (lt_bc s) ch) + lt_evicted s ch = length (pubs ch)"
      using h by (simp add: lt_hist_def)
    with ph(2) [of ch] show ?thesis by simp
  qed
  ultimately show ?thesis
    using h publisher_views [OF b] unfolding got by (auto simp: lt_hist_def)
qed

text \<open>A step of a connection: the others see nothing of it.\<close>

lemma lt_hist_conn:
  assumes "chan_inv s" "i < length (lt_conns s)" "lt_hist marshal uni pubs got s"
    and "conn_hist marshal uni pubs got' (set_conn i c b s) c"
    and "\<And>ch. got' ch = got ch \<or> has_chan (lt_conns s ! i) \<and> ch = chan_of s i"
    and "bc_pub b = bc_pub (lt_bc s)" "bc_next (lt_bc s) \<le> bc_next b"
    and "\<And>ch. length (got' ch) + length (bc_buf b ch) = length (got ch) + length (bc_buf (lt_bc s) ch)"
  shows "lt_hist marshal uni pubs got' (set_conn i c b s)"
proof -
  have "conn_hist marshal uni pubs got' (set_conn i c b s) (lt_conns s ! j)"
    if j: "j < length (lt_conns s)" "j \<noteq> i" for j
  proof -
    have "got' (chan_of s j) = got (chan_of s j)" if "has_chan (lt_conns s ! j)"
      using assms(1,2) assms(5) [of "chan_of s j"] j that by (auto simp: chan_inv_def own_chans_def)
    moreover have "pub_rest b = pub_rest (lt_bc s)" using assms(6) by (simp add: pub_rest_def fun_eq_iff)
    moreover have "conn_hist marshal uni pubs got s (lt_conns s ! j)" using assms(3) j(1) by (simp add: lt_hist_def)
    ultimately show ?thesis unfolding conn_hist_def by simp
  qed
  moreover have "got' ch = []" if "bc_next b \<le> ch" for ch
  proof -
    have "has_chan (lt_conns s ! i) \<Longrightarrow> chan_of s i < bc_next (lt_bc s)"
      using assms(1,2) by (auto simp: chan_inv_def chan_in_def)
    with assms(3) assms(5) [of ch] assms(7) that show ?thesis by (auto simp: lt_hist_def)
  qed
  ultimately show ?thesis
    using assms(2-4,7,8) by (auto simp: lt_hist_def)
qed

lemma lt_hist_leave:
  assumes "chan_inv s" "lt_hist marshal uni pubs got s" "conn_at s i pc"
    and "(pc, pc') \<in> {(Looping, Leaving), (Leaving, Closing), (Closing, Tail_returned)}"
    and "bc_pub b = bc_pub (lt_bc s)" "bc_next b = bc_next (lt_bc s)" "bc_buf b = bc_buf (lt_bc s)"
  shows "lt_hist marshal uni pubs got (set_conn i ((lt_conns s ! i)\<lparr>tc_pc := pc'\<rparr>) b s)"
proof -
  have i: "i < length (lt_conns s)" "tc_pc (lt_conns s ! i) = pc" using assms(3) by (simp_all add: conn_at_def)
  have "pub_rest b = pub_rest (lt_bc s)" using assms(5) by (simp add: pub_rest_def fun_eq_iff)
  moreover have "conn_hist marshal uni pubs got s (lt_conns s ! i)" using assms(2) i(1) by (simp add: lt_hist_def)
  ultimately have "conn_hist marshal uni pubs got (set_conn i ((lt_conns s ! i)\<lparr>tc_pc := pc'\<rparr>) b s)
      ((lt_conns s ! i)\<lparr>tc_pc := pc'\<rparr>)"
    using assms(4) i(2) by (auto simp: conn_hist_def has_chan_def in_map_def)
  then show ?thesis
    by (rule lt_hist_conn [OF assms(1) i(1) assms(2)]) (simp_all add: assms(5-7))
qed

lemma lt_hist_step:
  assumes step: "lt_step marshal uni a s = Some s'" and inv: "chan_inv s"
    and h: "lt_hist marshal uni pubs got s" and e: "bc_exec pubs got (lt_bc s)"
  shows "\<exists>pubs got. lt_hist marshal uni pubs got s' \<and> bc_exec pubs got (lt_bc s')"
proof -
  have conn: "conn_hist marshal uni pubs got s (lt_conns s ! i)" if "i < length (lt_conns s)" for i
    using h that by (simp add: lt_hist_def)
  have bc: "bc_inv (lt_bc s)" using inv by (simp add: chan_inv_def)
  have next_exec: "bc_exec pubs (got_after got ba (lt_bc s)) b"
    if "bc_step ba (lt_bc s) = Some b" "ba \<noteq> Publish_step" for ba b
    using bc_next [OF e that(1)] that(2) by (simp add: no_history)
  show ?thesis
  proof (cases a)
    case (Tail_request cf r)
    then have "s' = s\<lparr>lt_conns := lt_conns s @ [accept_tail uni cf r]\<rparr>" using step by simp
    moreover have "conn_hist marshal uni pubs got s' (accept_tail uni cf r)" for s'
      by (simp add: conn_hist_def accept_tail_def has_chan_def in_map_def)
    moreover have "conn_hist marshal uni pubs got (s\<lparr>lt_conns := x\<rparr>) c = conn_hist marshal uni pubs got s c" for x c
      by (simp add: conn_hist_def)
    ultimately show ?thesis using h e
      by (intro exI [of _ pubs] exI [of _ got]) (auto simp: lt_hist_def nth_append less_Suc_eq)
  next
    case (Tail_subscribe i)
    then obtain b where c: "conn_at s i Tail_start" and b: "bc_step Subscribe (lt_bc s) = Some b"
      and s': "s' = set_conn i ((lt_conns s ! i)\<lparr>tc_chan := snd (subscribe (lt_bc s)), tc_pc := Looping,
         tc_since := length (lt_published s)\<rparr>) b s"
      using step by (auto elim: conn_step_cases)
    have b': "b = fst (subscribe (lt_bc s))" "bc_pub (lt_bc s) = No_publish" using b by (auto split: if_splits)
    have i: "i < length (lt_conns s)" "\<not> has_chan (lt_conns s ! i)" using c by (simp_all add: conn_at_def has_chan_def)
    have n: "pubs (bc_next (lt_bc s)) = []" "got (bc_next (lt_bc s)) = []" "bc_buf (lt_bc s) (bc_next (lt_bc s)) = []"
      using h bc by (simp_all add: lt_hist_def bc_inv_def)
    have "lt_hist marshal uni pubs got s'"
      unfolding s'
      by (rule lt_hist_conn [OF inv i(1) h])
        (use conn [OF i(1)] i(2) n b' in \<open>auto simp: conn_hist_def subscribe_def Let_def pub_rest_def\<close>)
    moreover have "bc_exec pubs got (lt_bc s')" using next_exec [OF b] i(1) by (simp add: s' no_history)
    ultimately show ?thesis by blast
  next
    case (Tail_recv i)
    let ?ch = "chan_of s i" let ?l = "hd (bc_buf (lt_bc s) (chan_of s i))"
    obtain b where c: "conn_at s i Looping" and b: "bc_step (Receive ?ch) (lt_bc s) = Some b"
      and s': "s' = set_conn i (tail_receive marshal uni ?l (lt_conns s ! i)) b s"
      using step Tail_recv by (auto elim: conn_step_cases)
    have b': "b = receive_from ?ch (lt_bc s)" "bc_buf (lt_bc s) ?ch \<noteq> []" using b by (auto split: if_splits)
    then have got: "got_after got (Receive ?ch) (lt_bc s) = got(?ch := got ?ch @ [?l])"
      by (auto simp: received_by_def fun_eq_iff take_Suc)
    have i: "i < length (lt_conns s)" "has_chan (lt_conns s ! i)" using c by (simp_all add: conn_at_def pc_has_chan)
    have "conn_hist marshal uni pubs (got(?ch := got ?ch @ [?l])) (set_conn i (tail_receive marshal uni ?l (lt_conns s ! i)) b s)
        (tail_receive marshal uni ?l (lt_conns s ! i))"
      using conn [OF i(1)] i(2) b'(1) by (simp add: conn_hist_def pub_rest_def receive_from_def)
    then have "lt_hist marshal uni pubs (got(?ch := got ?ch @ [?l])) s'"
      unfolding s' by (rule lt_hist_conn [OF inv i(1) h])
        (use i(2) b' in \<open>auto simp: receive_from_def\<close>)
    moreover have "bc_exec pubs (got(?ch := got ?ch @ [?l])) (lt_bc s')"
      using next_exec [OF b] i(1) unfolding got by (simp add: s')
    ultimately show ?thesis by blast
  next
    case (Live_publish l order)
    then obtain b where b: "bc_step (Publish l order) (lt_bc s) = Some b"
      and s': "s' = s\<lparr>lt_bc := b, lt_published := lt_published s @ [l]\<rparr>"
      using step by (auto split: option.splits simp del: bc_step.simps)
    have "bc_exec pubs got (lt_bc s')" using next_exec [OF b] by (simp add: s' no_history)
    with lt_hist_publish [OF b inv h] show ?thesis unfolding s' by blast
  next
    case Live_step
    then obtain b where b: "bc_step Publish_step (lt_bc s) = Some b"
      and s': "s' = s\<lparr>lt_bc := b, lt_evicted := (\<lambda>c. lt_evicted s c + evicts (lt_bc s) c)\<rparr>"
      using step by (auto split: option.splits simp del: bc_step.simps)
    have "bc_exec (pubs_after pubs Publish_step (lt_bc s)) (got_after got Publish_step (lt_bc s)) (lt_bc s')"
      using bc_next [OF e b] by (simp add: s')
    with lt_hist_publish_step [OF b inv h] show ?thesis unfolding s' by blast
  next
    case (Tail_unsubscribe i)
    then obtain b where c: "conn_at s i Leaving" and b: "bc_step (Unsubscribe (chan_of s i)) (lt_bc s) = Some b"
      and s': "s' = set_conn i ((lt_conns s ! i)\<lparr>tc_pc := Closing\<rparr>) b s"
      using step by (auto elim: conn_step_cases)
    have "bc_exec pubs got (lt_bc s')" using next_exec [OF b] c by (simp add: s' no_history conn_at_def)
    moreover have "lt_hist marshal uni pubs got s'" unfolding s'
      by (rule lt_hist_leave [OF inv h, of i Leaving]) (use b c in \<open>auto simp: unsubscribe_delete_def split: if_splits\<close>)
    ultimately show ?thesis by blast
  next
    case (Tail_close i)
    then obtain b where c: "conn_at s i Closing" and b: "bc_step (Close_channel (chan_of s i)) (lt_bc s) = Some b"
      and s': "s' = set_conn i ((lt_conns s ! i)\<lparr>tc_pc := Tail_returned\<rparr>) b s"
      using step by (auto elim: conn_step_cases)
    have "bc_exec pubs got (lt_bc s')" using next_exec [OF b] c by (simp add: s' no_history conn_at_def)
    moreover have "lt_hist marshal uni pubs got s'" unfolding s'
      by (rule lt_hist_leave [OF inv h, of i Closing]) (use b c in \<open>auto simp: unsubscribe_close_def split: if_splits\<close>)
    ultimately show ?thesis by blast
  next
    case (Tail_ended i)
    with step have "conn_at s i Looping" "s' = set_conn i ((lt_conns s ! i)\<lparr>tc_pc := Leaving\<rparr>) (lt_bc s) s"
      by (simp_all split: if_splits)
    with lt_hist_leave [OF inv h, of i Looping Leaving "lt_bc s"] e show ?thesis by (auto simp: conn_at_def)
  next
    case (Tail_gone i)
    with step have "conn_at s i Looping" "s' = set_conn i ((lt_conns s ! i)\<lparr>tc_pc := Leaving\<rparr>) (lt_bc s) s"
      by (simp_all split: if_splits)
    with lt_hist_leave [OF inv h, of i Looping Leaving "lt_bc s"] e show ?thesis by (auto simp: conn_at_def)
  qed
qed

lemma lt_exec_inv: "lt_exec marshal uni s \<Longrightarrow> chan_inv s"
  by (induction rule: lt_exec.induct) (auto intro: chan_inv_new lt_step_chan_inv)

text \<open>An execution of the connections is one of the broadcaster.\<close>

lemma lt_exec_hist: "lt_exec marshal uni s \<Longrightarrow> \<exists>pubs got. lt_hist marshal uni pubs got s \<and> bc_exec pubs got (lt_bc s)"
proof (induction rule: lt_exec.induct)
  case lt_start
  have "lt_hist marshal uni (\<lambda>_. []) (\<lambda>_. []) new_live_tail"
    by (simp add: lt_hist_def new_live_tail_def) (simp add: new_broadcaster_def)
  moreover have "bc_exec (\<lambda>_. []) (\<lambda>_. []) (lt_bc new_live_tail)"
    using bc_start by (simp add: new_live_tail_def)
  ultimately show ?case by blast
next
  case (lt_next s a s')
  then show ?case using lt_hist_step [OF lt_next.hyps(2) lt_exec_inv [OF lt_next.hyps(1)]] by blast
qed

section \<open>Properties\<close>

lemma lines_before_end_lines [simp]: "lines_before_end (map Tail_line ls) = ls"
  by (induction ls) simp_all

lemma tail_loop_lines:
  "tail_loop marshal uni f (map Tail_line ls) = concat (map (tail_write marshal uni f) ls)"
  by (induction ls) simp_all

lemma subseq_prefix: "subseq (xs @ ys) zs \<Longrightarrow> prefix zs ws \<Longrightarrow> subseq xs ws"
  by (metis prefix_imp_subseq prefixI subseq_order.order_trans)

lemma tail_got_published:
  assumes "lt_exec marshal uni s" "i < length (lt_conns s)" "c = lt_conns s ! i"
  shows "subseq (tc_got c) (drop (tc_since c) (lt_published s))"
proof -
  obtain pubs got where h: "lt_hist marshal uni pubs got s" and e: "bc_exec pubs got (lt_bc s)"
    using lt_exec_hist [OF assms(1)] by blast
  have c: "conn_hist marshal uni pubs got s c" using h assms(2,3) by (simp add: lt_hist_def)
  show ?thesis
  proof (cases "has_chan c")
    case True
    with c have "got (tc_chan c) = tc_got c" "prefix (pubs (tc_chan c)) (drop (tc_since c) (lt_published s))"
      by (simp_all add: conn_hist_def)
    moreover have "subseq (got ch @ bc_buf (lt_bc s) ch) (pubs ch)" for ch
      using bc_exec_hist [OF e] by (simp add: hist_inv_def)
    ultimately show ?thesis using subseq_prefix by metis
  next
    case False
    with c show ?thesis by (simp add: conn_hist_def)
  qed
qed

text \<open>
  C7: what a client of \<open>/api/tail\<close> reads, from the publisher to the bytes: the events of lines that were
  published after it had subscribed, in that order and each at most once, filtered as it asked for.
  While it is connected and no \<open>Publish\<close> is running, each such line has been received, waits in its
  channel, or was evicted because 256 newer ones were waiting; if none was, it has missed nothing, and
  in any case the newest one was received or waits.
  It relies on \<open>json.Marshal\<close> to print an event on one line.
\<close>

theorem tail_client_sees:
  assumes "lt_exec marshal uni s" "i < length (lt_conns s)" "c = lt_conns s ! i"
    and "\<forall>e d. marshal e = Some d \<longrightarrow> CHR 0x0A \<notin> set d"
  shows "sse_payloads (tc_out c) =
      List.map_filter (marshal \<circ> tail_event_of) (filter (tail_passes uni (tc_request c)) (tc_got c))
    \<and> subseq (tc_got c) (drop (tc_since c) (lt_published s))
    \<and> (tc_pc c = Looping \<and> bc_pub (lt_bc s) = No_publish \<longrightarrow>
        (let waiting = bc_buf (lt_bc s) (tc_chan c); missed = lt_evicted s (tc_chan c)
         in length waiting \<le> subscriber_buffer_size
            \<and> subseq (tc_got c @ waiting) (drop (tc_since c) (lt_published s))
            \<and> length (tc_got c @ waiting) + missed = length (drop (tc_since c) (lt_published s))
            \<and> (missed = 0 \<longrightarrow> tc_got c @ waiting = drop (tc_since c) (lt_published s))
            \<and> (drop (tc_since c) (lt_published s) \<noteq> [] \<longrightarrow> tc_got c @ waiting \<noteq> []
                 \<and> last (tc_got c @ waiting) = last (drop (tc_since c) (lt_published s)))))"
proof -
  obtain pubs got where h: "lt_hist marshal uni pubs got s" and e: "bc_exec pubs got (lt_bc s)"
    using lt_exec_hist [OF assms(1)] by blast
  have c: "conn_hist marshal uni pubs got s c" using h assms(2,3) by (simp add: lt_hist_def)
  have sub: "subseq (got ch @ bc_buf (lt_bc s) ch) (pubs ch)" "length (bc_buf (lt_bc s) ch) \<le> subscriber_buffer_size" for ch
    using bc_exec_hist [OF e] bc_exec_inv [OF e] by (simp_all add: hist_inv_def bc_inv_def)
  have "tc_out c = tail_loop marshal uni (tail_filter_of uni (tc_request c)) (map Tail_line (tc_got c))"
    using c by (simp add: conn_hist_def tail_loop_lines)
  then have "sse_payloads (tc_out c) =
      List.map_filter (marshal \<circ> tail_event_of) (filter (tail_passes uni (tc_request c)) (tc_got c))"
    using tail_loop_payloads [OF assms(4)] by simp
  moreover have "subseq (tc_got c) (drop (tc_since c) (lt_published s))"
    using tail_got_published [OF assms(1-3)] .
  moreover have "length waiting \<le> subscriber_buffer_size \<and> subseq (tc_got c @ waiting) new
      \<and> length (tc_got c @ waiting) + missed = length new \<and> (missed = 0 \<longrightarrow> tc_got c @ waiting = new)
      \<and> (new \<noteq> [] \<longrightarrow> tc_got c @ waiting \<noteq> [] \<and> last (tc_got c @ waiting) = last new)"
    if "tc_pc c = Looping" "bc_pub (lt_bc s) = No_publish" "waiting = bc_buf (lt_bc s) (tc_chan c)"
      "missed = lt_evicted s (tc_chan c)" "new = drop (tc_since c) (lt_published s)" for waiting missed new
  proof -
    have new: "new = pubs (tc_chan c)" "got (tc_chan c) = tc_got c"
      using c that by (simp_all add: conn_hist_def in_map_def has_chan_def pub_rest_def)
    moreover have "length (got (tc_chan c)) + length waiting + missed = length (pubs (tc_chan c))"
      using h that by (simp add: lt_hist_def)
    moreover have "new \<noteq> [] \<longrightarrow> tc_got c @ waiting \<noteq> [] \<and> last (tc_got c @ waiting) = last new"
      using bc_exec_hist [OF e, of "tc_chan c"] new that(2,3) by (auto simp: hist_inv_def)
    ultimately show ?thesis
      using sub [of "tc_chan c"] that(3) subseq_same_length [of "tc_got c @ waiting" new] by auto
  qed
  ultimately show ?thesis unfolding Let_def by blast
qed

text \<open>
  C13: subscriptions do not leak and the gauge tells the truth: \<open>grepod_tail_subscribers\<close> is the number
  of connections that have subscribed and not yet left; a connection that is leaving is never stuck
  (the first half waits for a running \<open>Publish\<close> only); no step panics, and no channel is closed while
  its handler receives from it.
\<close>

theorem tail_subscriptions:
  assumes "lt_exec marshal uni s"
  shows "tail_subscribers_gauge s = length (filter in_map (lt_conns s))
    \<and> (\<forall>i. conn_at s i Leaving \<and> bc_pub (lt_bc s) = No_publish \<longrightarrow> lt_step marshal uni (Tail_unsubscribe i) s \<noteq> None)
    \<and> (\<forall>i. conn_at s i Closing \<longrightarrow> lt_step marshal uni (Tail_close i) s \<noteq> None)
    \<and> (\<forall>i. lt_step marshal uni (Tail_ended i) s = None) \<and> (\<forall>a. \<not> bc_panics a (lt_bc s))"
proof -
  have inv: "chan_inv s" using lt_exec_inv [OF assms] .
  then have own: "own_chans s" and bc: "bc_inv (lt_bc s)" by (simp_all add: chan_inv_def)
  let ?I = "{i. i < length (lt_conns s) \<and> in_map (lt_conns s ! i)}"
  have inj: "inj_on (chan_of s) ?I" using own by (auto simp: inj_on_def own_chans_def pc_has_chan)
  have set: "set (bc_subs (lt_bc s)) = chan_of s ` ?I"
    using inv by (auto simp: chan_inv_def chan_in_def)
  have "distinct (bc_subs (lt_bc s))" using bc by (simp add: bc_inv_def)
  then have "length (bc_subs (lt_bc s)) = card ?I"
    using card_image [OF inj] by (simp only: distinct_card [symmetric] set)
  then have "tail_subscribers_gauge s = length (filter in_map (lt_conns s))"
    by (simp add: tail_subscribers_gauge_def subscriber_count_def length_filter_conv_card)
  moreover have "lt_step marshal uni (Tail_unsubscribe i) s \<noteq> None"
    if "conn_at s i Leaving" "bc_pub (lt_bc s) = No_publish" for i
    using that inv by (auto simp: conn_step_def conn_at_def chan_inv_def chan_in_def in_map_def)
  moreover have "lt_step marshal uni (Tail_close i) s \<noteq> None" if "conn_at s i Closing" for i
    using that inv by (auto simp: conn_step_def conn_at_def chan_inv_def chan_in_def)
  moreover have "lt_step marshal uni (Tail_ended i) s = None" for i
    using inv chan_in_own [OF own, of i "\<lambda>c. tc_pc c = Tail_returned"] by (auto simp: conn_at_def chan_inv_def pc_has_chan)
  ultimately show ?thesis using bc_inv_no_panic [OF bc] by blast
qed

section \<open>An execution\<close>

fun lt_run ::
  "(tail_event \<Rightarrow> string option) \<Rightarrow> (string \<Rightarrow> string) \<Rightarrow> lt_action list \<Rightarrow> live_tail \<Rightarrow> live_tail option" where
  "lt_run marshal uni [] s = Some s"
| "lt_run marshal uni (a # as) s =
     (case lt_step marshal uni a s of None \<Rightarrow> None | Some s' \<Rightarrow> lt_run marshal uni as s')"

lemma lt_run_exec: "lt_run marshal uni as s = Some s' \<Longrightarrow> lt_exec marshal uni s \<Longrightarrow> lt_exec marshal uni s'"
  by (induction marshal uni "as" s rule: lt_run.induct) (auto split: option.splits intro: lt_next)

text \<open>A client asks for the pod \<open>web-0\<close>; two lines are published, and it receives the first.\<close>

definition example_marshal :: "tail_event \<Rightarrow> string option" where
  "example_marshal e = (if CHR 0x0A \<in> set (te_content e) then None else Some (te_content e))"

definition web_request :: http_request where
  "web_request = \<lparr>rq_path = ''/api/tail'', rq_query = [(''pod'', ''web-0'')]\<rparr>"

definition example_tail_run :: "lt_action list" where
  "example_tail_run = [Tail_request True web_request, Tail_subscribe 0, Live_publish example_line [0],
     Live_step, Live_step, Tail_recv 0, Live_publish example_line [0], Live_step, Live_step]"

lemma example_connection:
  obtains s where "lt_run example_marshal id example_tail_run new_live_tail = Some s"
    "length (lt_conns s) = 1" "tc_pc (lt_conns s ! 0) = Looping" "bc_pub (lt_bc s) = No_publish"
    "tc_got (lt_conns s ! 0) = [example_line]" "tc_request (lt_conns s ! 0) = web_request"
    "lt_evicted s (tc_chan (lt_conns s ! 0)) = 0" "lt_published s = [example_line, example_line]"
    "tc_since (lt_conns s ! 0) = 0"
  by (simp add: example_tail_run_def new_live_tail_def new_broadcaster_def conn_step_def conn_at_def
      set_conn_def accept_tail_def subscribe_def Let_def publish_first_def has_room_def send_def
      subscriber_buffer_size_def evicts_def tail_receive_def receive_from_def)

lemma web_request_passes: "tail_passes id web_request example_line"
proof -
  have "to_lower id [] = []" by (simp add: to_lower_def)
  then show ?thesis by (auto simp: tail_passes_def web_request_def query_get_def example_line_def)
qed

lemma tail_client_sees_witness:
  "\<exists>s. lt_run example_marshal id example_tail_run new_live_tail = Some s
     \<and> sse_payloads (tc_out (lt_conns s ! 0)) = [''ERROR boom'']
     \<and> bc_buf (lt_bc s) (tc_chan (lt_conns s ! 0)) = [example_line]"
proof -
  obtain s where s: "lt_run example_marshal id example_tail_run new_live_tail = Some s"
    "length (lt_conns s) = 1" "tc_pc (lt_conns s ! 0) = Looping" "bc_pub (lt_bc s) = No_publish"
    "tc_got (lt_conns s ! 0) = [example_line]" "tc_request (lt_conns s ! 0) = web_request"
    "lt_evicted s (tc_chan (lt_conns s ! 0)) = 0" "lt_published s = [example_line, example_line]"
    "tc_since (lt_conns s ! 0) = 0"
    by (rule example_connection)
  have m: "\<forall>e d. example_marshal e = Some d \<longrightarrow> CHR 0x0A \<notin> set d" by (simp add: example_marshal_def)
  have "example_marshal (tail_event_of example_line) = Some ''ERROR boom''"
    by (simp add: example_marshal_def tail_event_of_def example_line_def)
  with tail_client_sees [OF lt_run_exec [OF s(1) lt_start] _ refl m, of 0] s web_request_passes show ?thesis
    by (auto simp: Let_def map_filter_simps)
qed

lemma tail_subscriptions_witness:
  "\<exists>s. lt_run example_marshal id example_tail_run new_live_tail = Some s \<and> tail_subscribers_gauge s = 1"
proof -
  obtain s where s: "lt_run example_marshal id example_tail_run new_live_tail = Some s"
    "length (lt_conns s) = 1" "tc_pc (lt_conns s ! 0) = Looping"
    by (rule example_connection)
  then obtain c where "lt_conns s = [c]" "in_map c" by (cases "lt_conns s") (auto simp: in_map_def)
  with tail_subscriptions [OF lt_run_exec [OF s(1) lt_start]] s(1) show ?thesis by auto
qed

end
