(* ===== verification/Cron.thy ===== *)
theory Cron
  imports Main Prelude Go_Time Go_Time_Text Store Retention
begin

text \<open>
  The retention cron as a goroutine beside the others (\<open>StartRetentionCron\<close> and \<open>CleanupOldDBs\<close> of
  \<open>internal/storage/sqlite.go\<close>): its steps between two points where another goroutine can use the
  store, which are the entries of the directory and the shards to vacuum. The bodies of the two loops are
  those of \<open>Retention\<close>, whose function has a whole pass that nothing disturbs.
\<close>

section \<open>Steps\<close>

text \<open>
  Where the cron is: at the top of its loop, in its select until the due time, in the first loop of a
  cleanup (with the cutoff, the entries that are left and the dates that remain), in its second loop,
  returned.
\<close>

datatype cron_pc =
    Cron_top
  | Cron_waiting go_time
  | Cron_deleting go_time "(string \<times> dir_entry) list" "string list"
  | Cron_vacuuming "string list"
  | Cron_returned

datatype cron_action =
    Cron_schedule go_time | Cron_fires faults go_time | Cron_stop | Cron_entry faults | Cron_vacuum faults

definition cutoff_of :: "int \<Rightarrow> go_time \<Rightarrow> go_time" where
  "cutoff_of days now = add_days now (- retention_or_default days)"

fun cron_step ::
  "int \<Rightarrow> bool \<Rightarrow> cron_action \<Rightarrow> cron_pc \<times> store \<Rightarrow> (cron_pc \<times> store) option" where
  "cron_step days stopped (Cron_schedule now) (pc, s) =
     (if pc = Cron_top then Some (Cron_waiting (next_three_am now), s) else None)"
| "cron_step days stopped (Cron_fires flt now) (pc, s) =
     (case pc of
        Cron_waiting due \<Rightarrow>
          if before now due then None
          else if flt Read_dir \<noteq> None then Some (Cron_top, s)
          else Some (Cron_deleting (cutoff_of days now) (read_dir s) [], s)
      | _ \<Rightarrow> None)"
| "cron_step days stopped Cron_stop (pc, s) =
     (case pc of Cron_waiting due \<Rightarrow> if stopped then Some (Cron_returned, s) else None | _ \<Rightarrow> None)"
| "cron_step days stopped (Cron_entry flt) (pc, s) =
     (case pc of
        Cron_deleting cutoff (e # es) remaining \<Rightarrow>
          (case cleanup_entry flt cutoff e remaining s of
             (remaining', s') \<Rightarrow> Some (Cron_deleting cutoff es remaining', s'))
      | Cron_deleting cutoff [] remaining \<Rightarrow> Some (Cron_vacuuming remaining, s)
      | _ \<Rightarrow> None)"
| "cron_step days stopped (Cron_vacuum flt) (pc, s) =
     (case pc of
        Cron_vacuuming (d # ds) \<Rightarrow> Some (Cron_vacuuming ds, fst (vacuum_shard flt d s))
      | Cron_vacuuming [] \<Rightarrow> Some (Cron_top, s)
      | _ \<Rightarrow> None)"

text \<open>The times at which a step starts a cleanup.\<close>

definition cleanups_by :: "cron_action \<Rightarrow> go_time list" where
  "cleanups_by a = (case a of Cron_fires flt now \<Rightarrow> [now] | _ \<Rightarrow> [])"

section \<open>A pass without interference\<close>

fun cron_run :: "int \<Rightarrow> bool \<Rightarrow> cron_action list \<Rightarrow> cron_pc \<times> store \<Rightarrow> (cron_pc \<times> store) option" where
  "cron_run days stopped [] cs = Some cs"
| "cron_run days stopped (a # as) cs =
     (case cron_step days stopped a cs of None \<Rightarrow> None | Some cs' \<Rightarrow> cron_run days stopped as cs')"

lemma cron_run_append:
  "cron_run days stopped (as @ bs) cs =
     (case cron_run days stopped as cs of None \<Rightarrow> None | Some cs' \<Rightarrow> cron_run days stopped bs cs')"
  by (induction "as" arbitrary: cs) (auto split: option.split)

lemma cron_run_entries:
  "cron_run days stopped (replicate (Suc (length es)) (Cron_entry flt)) (Cron_deleting cutoff es remaining, s) =
     (case cleanup_entries flt cutoff es remaining s of (s', remaining') \<Rightarrow> Some (Cron_vacuuming remaining', s'))"
proof (induction es arbitrary: remaining s)
  case (Cons e es)
  obtain r1 s1 where 1: "cleanup_entry flt cutoff e remaining s = (r1, s1)" by fastforce
  with Cons.IH [of r1 s1] show ?case by simp
qed simp

lemma cron_run_vacuums:
  "cron_run days stopped (replicate (Suc (length ds)) (Cron_vacuum flt)) (Cron_vacuuming ds, s) =
     Some (Cron_top, vacuum_all flt ds s)"
  by (induction ds arbitrary: s) simp_all

text \<open>
  When no other goroutine touches the store meanwhile, the steps of a pass that starts at \<open>now\<close> leave the
  store as \<open>CleanupOldDBs\<close> called at \<open>now\<close> does, and the cron is back at the top of its loop. So what
  \<open>Retention\<close> shows of the function holds of an undisturbed pass of the goroutine.
\<close>

lemma cron_pass_is_cleanup:
  assumes "\<not> before now due"
  shows "\<exists>as. hd as = Cron_fires flt now
    \<and> cron_run days stopped as (Cron_waiting due, s) = Some (Cron_top, fst (cleanup_old_dbs flt days now s))"
proof (cases "flt Read_dir")
  case None
  obtain s1 remaining where e: "cleanup_entries flt (cutoff_of days now) (read_dir s) [] s = (s1, remaining)"
    by fastforce
  let ?as = "replicate (Suc (length (read_dir s))) (Cron_entry flt) @ replicate (Suc (length remaining)) (Cron_vacuum flt)"
  have "cron_run days stopped (Cron_fires flt now # ?as) (Cron_waiting due, s) = Some (Cron_top, vacuum_all flt remaining s1)"
    using assms None e unfolding cron_run.simps(2) cron_step.simps(2) cron_pc.case
    by (simp only: cron_run_append cron_run_entries cron_run_vacuums e if_False option.case prod.case simp_thms)
  moreover have "vacuum_all flt remaining s1 = fst (cleanup_old_dbs flt days now s)"
    using None e by (simp add: cleanup_old_dbs_def cutoff_of_def)
  ultimately show ?thesis by (intro exI [of _ "Cron_fires flt now # ?as"]) simp
next
  case (Some err)
  with assms show ?thesis
    by (intro exI [of _ "[Cron_fires flt now]"]) (simp add: cleanup_old_dbs_def Let_def)
qed

section \<open>What a step leaves alone\<close>

lemma delete_shard_rows:
  assumes "e \<noteq> d"
  shows "shard_rows (delete_shard flt (shard_name d) d s) e = shard_rows s e"
proof -
  have "shard_rows (remove_file flt name s) e = shard_rows s e" if "shard_name e \<noteq> name" for name s
    using that by (simp add: remove_file_def shard_rows_def table_of_del split: option.split)
  moreover have "shard_name e \<noteq> shard_name d" using assms by (simp add: shard_name_def)
  ultimately show ?thesis
    using side_file_no_shard [of e "shard_name d"] by (simp add: delete_shard_def close_shard_def)
qed

text \<open>The rows of a day that is not expired, whatever fails.\<close>

lemma cleanup_entry_rows:
  assumes "in_years n" "\<not> before (midnight n) cutoff" "cleanup_entry flt cutoff e remaining s = (remaining', s')"
  shows "shard_rows s' (fmt_day n) = shard_rows s (fmt_day n)"
  using assms(3)
proof (cases rule: cleanup_entry_cases)
  case (expired d date)
  then have "fmt_day n \<noteq> d" using shard_entry_date [OF assms(1), of e date] assms(2) by blast
  then show ?thesis unfolding expired(5) by (rule delete_shard_rows)
qed simp_all

lemma cron_step_rows:
  assumes "cron_step days stopped a (pc, s) = Some (pc', s')" "in_years n"
    and "\<And>cutoff es remaining. pc = Cron_deleting cutoff es remaining \<Longrightarrow> \<not> before (midnight n) cutoff"
  shows "shard_rows s' (fmt_day n) = shard_rows s (fmt_day n)"
  using assms cleanup_entry_rows vacuum_shard_rows
  by (cases a) (auto split: cron_pc.splits if_splits list.splits prod.splits)

lemma cron_step_inv [wf_intros]:
  "cron_step days stopped a (pc, s) = Some (pc', s') \<Longrightarrow> store_inv s \<Longrightarrow> store_inv s'"
  using cleanup_entry_inv vacuum_shard_inv
  by (cases a) (auto split: cron_pc.splits if_splits list.splits prod.splits)

text \<open>The cutoff of the pass that is running.\<close>

definition cron_cutoff :: "int \<Rightarrow> go_time list \<Rightarrow> cron_pc \<Rightarrow> bool" where
  "cron_cutoff days nows pc \<longleftrightarrow>
     (\<forall>cutoff es remaining. pc = Cron_deleting cutoff es remaining \<longrightarrow> (\<exists>now \<in> set nows. cutoff = cutoff_of days now))"

lemma cron_step_cutoff:
  assumes "cron_step days stopped a (pc, s) = Some (pc', s')" "cron_cutoff days nows pc"
  shows "cron_cutoff days (nows @ cleanups_by a) pc'"
  using assms by (cases a) (auto simp: cron_cutoff_def cleanups_by_def split: cron_pc.splits if_splits list.splits prod.splits)

end
