(* ===== verification/Server.thy ===== *)
theory Server
  imports Main "HOL-Library.Sublist" Prelude Go_Strings Go_Time Store Retention Metrics Batch_Queue Broadcast
    Handler Live_Tail Cron Ingest Manager Tailing Stream_Lines Config
begin

text \<open>
  The process of \<open>cmd/server/main.go\<close>: the tailer, the queue's worker, the live tail, the retention cron
  and \<open>main\<close> side by side, the sink that hands each line to the queue and to the broadcaster, and the
  shutdown, in which \<open>main\<close> waits for the tailer before it closes the queue and for the queue before it
  closes the store. The store is the one in the queue; the cron's steps change it too.
\<close>

section \<open>The process\<close>

text \<open>
  Where \<open>main\<close> is: serving until the signal, in \<open>srv.Shutdown\<close>, waiting for the tailer, in the deferred
  calls (last deferred first): \<open>close(stopCron)\<close>, \<open>cancel\<close>, \<open>queue.Close\<close> (its two halves), \<open>store.Close\<close>.
  \<open>Died\<close> is \<open>os.Exit(1)\<close> of the goroutine that runs the HTTP server, which runs no deferred call.
\<close>

datatype main_pc =
    Serving | Http_shutdown | Waiting_mgr | Stopping_cron | Cancelling
  | Closing_queue | Waiting_queue | Closing_store | Exited | Died

text \<open>
  A call of \<open>fanoutSink.Enqueue\<close> by the goroutine \<open>i\<close> of the tailer is in \<open>pr_calls\<close> after the queue's
  \<open>Enqueue\<close>, and \<open>pr_publisher\<close> has the one that is inside \<open>Publish\<close>. The last five fields are
  histories: what was handed over and what was published (each line with its goroutine), what the queue
  accepted, the batches with whether \<open>InsertBatch\<close> returned no error, the times of the cleanups.
\<close>

record process =
  pr_mgr :: manager
  pr_queue :: batch_queue
  pr_live :: live_tail
  pr_cron :: cron_pc
  pr_retention_days :: int
  pr_main :: main_pc
  pr_cron_stopped :: bool
  pr_calls :: "(nat \<times> log_line) list"
  pr_publisher :: "nat option"
  pr_sent :: "(nat \<times> log_line) list"
  pr_published :: "(nat \<times> log_line) list"
  pr_accepted :: "log_line list"
  pr_batches :: "(log_line list \<times> bool) list"
  pr_cleanups :: "go_time list"

definition new_process :: "manager \<Rightarrow> batch_queue \<Rightarrow> int \<Rightarrow> process" where
  "new_process m q days = \<lparr>pr_mgr = m, pr_queue = q, pr_live = new_live_tail, pr_cron = Cron_top,
     pr_retention_days = days, pr_main = Serving, pr_cron_stopped = False, pr_calls = [],
     pr_publisher = None, pr_sent = [], pr_published = [], pr_accepted = [], pr_batches = [],
     pr_cleanups = []\<rparr>"

abbreviation pr_store :: "process \<Rightarrow> store" where
  "pr_store p \<equiv> q_store (pr_queue p)"

text \<open>\<open>fanoutSink.Enqueue\<close> up to \<open>Publish\<close>, and \<open>Publish\<close> by the call number \<open>k\<close>.\<close>

definition fanout_enqueue :: "nat \<Rightarrow> int \<Rightarrow> log_line \<Rightarrow> process \<Rightarrow> process" where
  "fanout_enqueue i now l p =
     p\<lparr>pr_queue := enqueue l now (pr_queue p),
       pr_accepted := pr_accepted p @ accepted_by (Enqueue l now) (pr_queue p),
       pr_calls := pr_calls p @ [(i, l)], pr_sent := pr_sent p @ [(i, l)]\<rparr>"

definition fanout_publish ::
  "(tail_event \<Rightarrow> string option) \<Rightarrow> (string \<Rightarrow> string) \<Rightarrow> nat \<Rightarrow> nat list \<Rightarrow> process \<Rightarrow> process option" where
  "fanout_publish marshal uni k order p =
     (if k < length (pr_calls p)
      then let (i, l) = pr_calls p ! k
           in case lt_step marshal uni (Live_publish l order) (pr_live p) of
                None \<Rightarrow> None
              | Some s \<Rightarrow> Some (p\<lparr>pr_live := s, pr_publisher := Some i,
                  pr_calls := take k (pr_calls p) @ drop (Suc k) (pr_calls p),
                  pr_published := pr_published p @ [(i, l)]\<rparr>)
      else None)"

text \<open>The goroutines that are inside \<open>fanoutSink.Enqueue\<close>.\<close>

definition busy :: "process \<Rightarrow> nat list" where
  "busy p = map fst (pr_calls p) @ (case pr_publisher p of None \<Rightarrow> [] | Some i \<Rightarrow> [i])"

definition insert_ok :: "bq_action \<Rightarrow> batch_queue \<Rightarrow> bool" where
  "insert_ok a q =
     (case a of
        Flush_insert flt ctx_err order duration \<Rightarrow>
          (case q_pc q of
             Inserting batch _ \<Rightarrow> snd (insert_batch flt ctx_err order batch (q_store q)) = Inr ()
           | _ \<Rightarrow> True)
      | _ \<Rightarrow> True)"

datatype proc_action =
    Tailer action int
  | Publish_call nat "nat list"
  | Live lt_action
  | Queue bq_action
  | Cron cron_action
  | Signal | Http_done | Http_fails | Mgr_done | Stop_cron | Cancel | Close_queue | Queue_stopped | Close_store

definition tailer_task :: "action \<Rightarrow> nat" where
  "tailer_task a = (case a of Task i _ \<Rightarrow> i | _ \<Rightarrow> 0)"

definition is_busy :: "action \<Rightarrow> process \<Rightarrow> bool" where
  "is_busy a p = (case a of Task i _ \<Rightarrow> i \<in> set (busy p) | _ \<Rightarrow> False)"

fun proc_act ::
  "(tail_event \<Rightarrow> string option) \<Rightarrow> (string \<Rightarrow> string) \<Rightarrow> proc_action \<Rightarrow> process \<Rightarrow> process option" where
  "proc_act marshal uni (Tailer a now) p =
     (if a = Cancel_ctx \<or> is_busy a p then None
      else case tl_step a (pr_mgr p) of
        None \<Rightarrow> None
      | Some m' \<Rightarrow>
          Some (fold (fanout_enqueue (tailer_task a) now) (newly_sent (pr_mgr p) m') (p\<lparr>pr_mgr := m'\<rparr>)))"
| "proc_act marshal uni (Publish_call k order) p = fanout_publish marshal uni k order p"
| "proc_act marshal uni (Live a) p =
     (case a of
        Live_publish l order \<Rightarrow> None
      | _ \<Rightarrow> (case lt_step marshal uni a (pr_live p) of
               None \<Rightarrow> None
             | Some s \<Rightarrow> Some (p\<lparr>pr_live := s, pr_publisher :=
                 (if bc_pub (lt_bc s) = No_publish then None else pr_publisher p)\<rparr>)))"
| "proc_act marshal uni (Queue a) p =
     (case a of
        Enqueue l now \<Rightarrow> None
      | Close_done \<Rightarrow> None
      | _ \<Rightarrow> (case bq_step a (pr_queue p) of
               None \<Rightarrow> None
             | Some q' \<Rightarrow> Some (p\<lparr>pr_queue := q', pr_batches := pr_batches p
                 @ map (\<lambda>b. (b, insert_ok a (pr_queue p))) (inserted_by a (pr_queue p))\<rparr>)))"
| "proc_act marshal uni (Cron a) p =
     (case cron_step (pr_retention_days p) (pr_cron_stopped p) a (pr_cron p, pr_store p) of
        None \<Rightarrow> None
      | Some (pc, s) \<Rightarrow> Some (p\<lparr>pr_cron := pc, pr_queue := (pr_queue p)\<lparr>q_store := s\<rparr>,
          pr_cleanups := pr_cleanups p @ cleanups_by a\<rparr>))"
| "proc_act marshal uni Signal p =
     (if pr_main p = Serving
      then Some (p\<lparr>pr_mgr := (pr_mgr p)\<lparr>m_ctx_done := True\<rparr>, pr_main := Http_shutdown\<rparr>) else None)"
| "proc_act marshal uni Http_done p =
     (if pr_main p = Http_shutdown then Some (p\<lparr>pr_main := Waiting_mgr\<rparr>) else None)"
| "proc_act marshal uni Http_fails p =
     (if pr_main p \<in> {Serving, Http_shutdown} then Some (p\<lparr>pr_main := Died\<rparr>) else None)"
| "proc_act marshal uni Mgr_done p =
     (if pr_main p = Waiting_mgr
      then (case m_run (pr_mgr p) of
              Run_returned \<Rightarrow> Some (p\<lparr>pr_main := Stopping_cron\<rparr>)
            | Run_failed e \<Rightarrow> Some (p\<lparr>pr_main := Stopping_cron\<rparr>)
            | _ \<Rightarrow> None)
      else None)"
| "proc_act marshal uni Stop_cron p =
     (if pr_main p = Stopping_cron then Some (p\<lparr>pr_cron_stopped := True, pr_main := Cancelling\<rparr>) else None)"
| "proc_act marshal uni Cancel p =
     (if pr_main p = Cancelling
      then Some (p\<lparr>pr_mgr := (pr_mgr p)\<lparr>m_ctx_done := True\<rparr>, pr_main := Closing_queue\<rparr>) else None)"
| "proc_act marshal uni Close_queue p =
     (if pr_main p = Closing_queue
      then (case bq_step Close_done (pr_queue p) of
              None \<Rightarrow> None | Some q' \<Rightarrow> Some (p\<lparr>pr_queue := q', pr_main := Waiting_queue\<rparr>))
      else None)"
| "proc_act marshal uni Queue_stopped p =
     (if pr_main p = Waiting_queue \<and> q_pc (pr_queue p) = Stopped
      then Some (p\<lparr>pr_main := Closing_store\<rparr>) else None)"
| "proc_act marshal uni Close_store p =
     (if pr_main p = Closing_store
      then Some (p\<lparr>pr_queue := (pr_queue p)\<lparr>q_store := store_close (pr_store p)\<rparr>, pr_main := Exited\<rparr>)
      else None)"

text \<open>When \<open>main\<close> has returned or the process was made to exit, no goroutine runs any more.\<close>

definition proc_step ::
  "(tail_event \<Rightarrow> string option) \<Rightarrow> (string \<Rightarrow> string) \<Rightarrow> proc_action \<Rightarrow> process \<Rightarrow> process option" where
  "proc_step marshal uni a p = (if pr_main p \<in> {Exited, Died} then None else proc_act marshal uni a p)"

text \<open>
  \<open>main\<close> up to serving: what a failing step makes it exit with (\<open>os.Exit(1)\<close>, or the panic of
  \<open>NewBatchQueue\<close>), else the process with its handler. \<open>made\<close> is what \<open>NewStore\<close> returns, \<open>memory\<close> what the
  system grants to \<open>make\<close>.
\<close>

definition start_up ::
  "(int \<Rightarrow> bool) \<Rightarrow> environment \<Rightarrow> store result \<Rightarrow> err option \<Rightarrow> err option \<Rightarrow> err option
   \<Rightarrow> (process \<times> handler) result" where
  "start_up memory env made client_err template_err static_err =
     (let c = read_config env; m = Some new_metrics
      in case made of
           Inl e \<Rightarrow> Inl (''failed to init storage: '' @ e)
         | Inr st \<Rightarrow>
             (case new_batch_queue memory st (cf_batch_size c) (cf_batch_interval c) (cf_insert_timeout c) m of
                Inl e \<Rightarrow> Inl e
              | Inr q \<Rightarrow>
                  (case client_err of
                     Some e \<Rightarrow> Inl (''failed to build k8s client: '' @ e)
                   | None \<Rightarrow>
                       (case new_handler template_err static_err (cf_search_days c) m of
                          Inl e \<Rightarrow> Inl (''failed to init API handler: '' @ e)
                        | Inr h \<Rightarrow>
                            Inr (new_process
                                   (new_manager (cf_namespace c) (cf_include_init c) (cf_pod_name c) True m)
                                   q (cf_retention_days c), h)))))"

text \<open>The settings of the \<open>http.Server\<close> that \<open>main\<close> builds; a timeout of zero would be none.\<close>

record http_server =
  sv_addr :: string
  sv_read_header_timeout :: int
  sv_read_timeout :: int
  sv_write_timeout :: int
  sv_idle_timeout :: int

definition http_server_of :: "config \<Rightarrow> http_server" where
  "http_server_of c =
     \<lparr>sv_addr = cf_addr c, sv_read_header_timeout = 10 * second_ns, sv_read_timeout = cf_read_timeout c,
      sv_write_timeout = cf_write_timeout c, sv_idle_timeout = cf_idle_timeout c\<rparr>"

text \<open>
  The executions. What they rely on: client-go opens no stream under a cancelled context. The store may
  fail, inserts may time out and the cron may run at any time.
\<close>

definition proc_ok :: "proc_action \<Rightarrow> process \<Rightarrow> bool" where
  "proc_ok a p = (case a of Tailer ta now \<Rightarrow> respects_ctx ta (pr_mgr p) | _ \<Rightarrow> True)"

inductive proc_exec ::
  "(tail_event \<Rightarrow> string option) \<Rightarrow> (string \<Rightarrow> string) \<Rightarrow> process \<Rightarrow> process \<Rightarrow> bool" for marshal uni p0 where
  proc_start: "proc_exec marshal uni p0 p0"
| proc_next: "proc_exec marshal uni p0 p \<Longrightarrow> proc_ok a p \<Longrightarrow> proc_step marshal uni a p = Some p' \<Longrightarrow>
    proc_exec marshal uni p0 p'"

text \<open>
  C28: whatever the environment has, every number of the configuration is positive and an int64, the HTTP
  server has an address and none of its timeouts is off. A start in which nothing else fails reaches the
  serving process exactly when the runtime can make the queue's buffer of \<open>BATCH_SIZE\<close> lines and its
  channel of four times as many; else \<open>NewBatchQueue\<close> ends the process. The queue, the cron and the handler
  of the serving process have the configured values and never their own fallbacks.
\<close>

theorem config_in_range:
  "let c = read_config env; sv = http_server_of c;
       buffer = cf_batch_size c * 104; channel = 4 * buffer + 96;
       fits = (channel \<le> 2 ^ 48 \<and> memory buffer \<and> memory channel)
   in list_all (\<lambda>n. 0 < n \<and> n < 2 ^ 63)
        [cf_retention_days c, cf_batch_size c, cf_search_days c, cf_batch_interval c,
         cf_insert_timeout c, sv_read_header_timeout sv, sv_read_timeout sv, sv_write_timeout sv,
         sv_idle_timeout sv]
      \<and> sv_addr sv \<noteq> []
      \<and> (case start_up memory env (Inr st) None None None of
            Inl e \<Rightarrow> \<not> fits
          | Inr (p, h) \<Rightarrow> fits \<and> pr_main p = Serving
              \<and> int (q_size (pr_queue p)) = cf_batch_size c \<and> int (q_cap (pr_queue p)) = 4 * cf_batch_size c
              \<and> q_interval (pr_queue p) = cf_batch_interval c
              \<and> q_insert_timeout (pr_queue p) = cf_insert_timeout c
              \<and> pr_retention_days p = cf_retention_days c \<and> h_default_search_days h = cf_search_days c)"
proof -
  let ?c = "read_config env"
  have pos: "0 < cf_batch_size ?c" "0 < cf_batch_interval ?c" "0 < cf_insert_timeout ?c" "0 < cf_search_days ?c"
    "0 < cf_retention_days ?c" "0 < cf_read_timeout ?c" "0 < cf_write_timeout ?c" "0 < cf_idle_timeout ?c"
    by (simp_all add: read_config_def env_int_pos env_duration_pos second_ns_def)
  moreover have "cf_retention_days ?c < 2 ^ 63" "cf_batch_size ?c < 2 ^ 63" "cf_search_days ?c < 2 ^ 63"
    unfolding read_config_def by (simp_all add: env_int_max [simplified])
  moreover have "cf_batch_interval ?c < 2 ^ 63" "cf_insert_timeout ?c < 2 ^ 63" "cf_read_timeout ?c < 2 ^ 63"
    "cf_write_timeout ?c < 2 ^ 63" "cf_idle_timeout ?c < 2 ^ 63"
    unfolding read_config_def by (simp_all add: env_duration_max [simplified] second_ns_def)
  moreover have "cf_addr ?c \<noteq> []" by (simp add: read_config_def env_or_def)
  moreover note new_batch_queue_cases [OF pos(1), of memory st "cf_batch_interval ?c" "cf_insert_timeout ?c" "Some new_metrics"]
  ultimately show ?thesis
    by (auto simp: Let_def start_up_def new_process_def fresh_queue_def new_handler_def http_server_of_def
        second_ns_def split: sum.splits)
qed

text \<open>A batch size that \<open>envInt\<close> takes and \<open>make\<close> does not.\<close>

lemma huge_batch_size_panics:
  "start_up memory [(''BATCH_SIZE'', ''9223372036854775807'')] (Inr st) None None None =
   Inl ''panic: runtime error: makeslice: cap out of range''"
proof -
  have "env_int [(''BATCH_SIZE'', ''9223372036854775807'')] ''BATCH_SIZE'' 200 = 9223372036854775807"
    by (simp add: env_int_def getenv_def parse_int64_def is_digit_def read_nat_def digit_val_def)
  then have "cf_batch_size (read_config [(''BATCH_SIZE'', ''9223372036854775807'')]) = 9223372036854775807"
    unfolding read_config_def by simp
  then show ?thesis
    by (simp add: start_up_def Let_def new_batch_queue_def make_error_def max_alloc_def log_line_bytes_def)
qed

end
