(* ===== verification/Server_Inv.thy ===== *)
theory Server_Inv
  imports Main "HOL-Library.Sublist" Prelude Go_Time Store Retention Batch_Queue Broadcast Live_Tail Cron Manager
    Tailing Stream_Lines Config Server
begin

text \<open>
  The invariant of the process in \<open>Server\<close>, in five parts: the sink (which goroutine handed over what),
  the live tail, the queue with the phases of \<open>main\<close>, the store, and the context; each with a lemma that
  every step keeps it.
\<close>

section \<open>The tailer's side\<close>

definition mgr_over :: "manager \<Rightarrow> bool" where
  "mgr_over m = (case m_run m of Run_returned \<Rightarrow> True | Run_failed _ \<Rightarrow> True | _ \<Rightarrow> False)"

text \<open>A manager whose \<open>Run\<close> is over stays so and sends nothing; its goroutines are quiet.\<close>

lemma mgr_over_step:
  assumes "run_inv m" "mgr_over m" "respects_ctx a m" "tl_step a m = Some m'"
  shows "mgr_over m' \<and> newly_sent m m' = []"
proof (cases "m_run m = Run_returned")
  case True
  then show ?thesis using run_inv_step [OF assms(1,3,4)] by (simp add: mgr_over_def newly_sent_def)
next
  case False
  then obtain e where e: "m_run m = Run_failed e" using assms(2) by (auto simp: mgr_over_def split: run_pc.splits)
  then have "m_tasks m = []" "m_handler m = []" "\<not> informing m"
    using assms(1) by (simp_all add: run_inv_def informing_def)
  then have "m_run m' = m_run m \<and> m_sent m' = m_sent m"
    using assms(4) e by (cases a) (auto split: if_splits)
  with e show ?thesis by (simp add: mgr_over_def newly_sent_def)
qed

lemma mgr_over_quiet:
  assumes "run_inv m" "mgr_over m" "i < length (m_tasks m)"
  shows "quiet_pc (pc_of m i)"
  using assms by (auto simp: mgr_over_def run_inv_def informing_def split: run_pc.splits)

lemma ctx_done_views [simp]:
  "m_tasks (m\<lparr>m_ctx_done := True\<rparr>) = m_tasks m" "mgr_over (m\<lparr>m_ctx_done := True\<rparr>) = mgr_over m"
  "run_inv m \<Longrightarrow> run_inv (m\<lparr>m_ctx_done := True\<rparr>)"
  by (simp_all add: run_inv_def informing_def mgr_over_def)

section \<open>The invariant of the sink\<close>

text \<open>What was handed over on behalf of one goroutine.\<close>

definition of_task :: "nat \<Rightarrow> (nat \<times> log_line) list \<Rightarrow> (nat \<times> log_line) list" where
  "of_task i ls = filter (\<lambda>x. fst x = i) ls"

lemma of_task_simps [simp]:
  "of_task i [] = []" "of_task i (xs @ ys) = of_task i xs @ of_task i ys"
  "of_task i [x] = (if fst x = i then [x] else [])"
  by (simp_all add: of_task_def)

text \<open>
  The manager's own invariant; every line handed over is labelled with its goroutine; a goroutine makes
  one call at a time and waits in \<open>ingest\<close> until it returns; what a goroutine handed over was published
  or is in its call.
\<close>

definition sink_inv :: "process \<Rightarrow> bool" where
  "sink_inv p \<longleftrightarrow> run_inv (pr_mgr p) \<and> map snd (pr_sent p) = m_sent (pr_mgr p)
     \<and> (\<forall>(i, l) \<in> set (pr_sent p). i < length (m_tasks (pr_mgr p)) \<and> line_key l = key_of (pr_mgr p) i)
     \<and> distinct (busy p)
     \<and> (\<forall>i \<in> set (busy p). i < length (m_tasks (pr_mgr p)) \<and> \<not> quiet_pc (pc_of (pr_mgr p) i))
     \<and> (\<forall>i. of_task i (pr_sent p) = of_task i (pr_published p) @ of_task i (pr_calls p))"

definition live_inv ::
  "(tail_event \<Rightarrow> string option) \<Rightarrow> (string \<Rightarrow> string) \<Rightarrow> process \<Rightarrow> bool" where
  "live_inv marshal uni p \<longleftrightarrow> lt_exec marshal uni (pr_live p)
     \<and> lt_published (pr_live p) = map snd (pr_published p)
     \<and> (pr_publisher p = None \<longleftrightarrow> bc_pub (lt_bc (pr_live p)) = No_publish)"

lemma sink_inv_cong:
  assumes "sink_inv p" "pr_mgr p' = pr_mgr p" "pr_sent p' = pr_sent p" "pr_calls p' = pr_calls p"
    "pr_published p' = pr_published p" "pr_publisher p' = pr_publisher p \<or> pr_publisher p' = None"
  shows "sink_inv p'"
proof -
  have "set (busy p') \<subseteq> set (busy p)" "distinct (busy p) \<longrightarrow> distinct (busy p')"
    using assms(4,6) by (auto simp: busy_def)
  with assms show ?thesis unfolding sink_inv_def by (simp add: subset_iff)
qed

lemma sink_inv_tailer:
  assumes inv: "sink_inv p" and free: "\<not> is_busy a p" and ctx: "respects_ctx a (pr_mgr p)"
    and step: "tl_step a (pr_mgr p) = Some m'"
  shows "sink_inv (fold (fanout_enqueue (tailer_task a) now) (newly_sent (pr_mgr p) m') (p\<lparr>pr_mgr := m'\<rparr>))"
proof -
  let ?m = "pr_mgr p"
  note others = tl_step_others [OF step] and sent = newly_sent_step [OF step]
  have run: "run_inv m'" using run_inv_step [OF _ ctx step] inv by (simp add: sink_inv_def)
  have old: "i < length (m_tasks m') \<and> line_key l = key_of m' i" if "(i, l) \<in> set (pr_sent p)" for i l
    using inv others [of i] that by (force simp: sink_inv_def)
  have calls: "i < length (m_tasks m') \<and> \<not> quiet_pc (pc_of m' i)" if "i \<in> set (busy p)" for i
  proof -
    have "\<forall>ta. a \<noteq> Task i ta" using free that by (auto simp: is_busy_def)
    with inv others [of i] that show ?thesis by (simp add: sink_inv_def)
  qed
  show ?thesis
  proof (cases "newly_sent ?m m'")
    case Nil
    with sent run old calls inv show ?thesis by (auto simp: sink_inv_def busy_def)
  next
    case (Cons l ls)
    with sent obtain i ta where s: "a = Task i ta" "i < length (m_tasks ?m)" "newly_sent ?m m' = [l]"
      "line_key l = key_of ?m i" "\<not> quiet_pc (pc_of m' i)" by auto
    let ?p = "fanout_enqueue i now l (p\<lparr>pr_mgr := m'\<rparr>)"
    have "i \<notin> set (busy p)" using free s(1) by (simp add: is_busy_def)
    moreover have "set (busy ?p) = insert i (set (busy p))" "mset (busy ?p) = add_mset i (mset (busy p))"
      by (auto simp: busy_def fanout_enqueue_def split: option.split)
    ultimately have "distinct (busy ?p)" using inv by (metis distinct.simps(2) mset.simps(2) mset_eq_imp_distinct_iff sink_inv_def)
    moreover have "\<forall>j \<in> set (busy ?p). j < length (m_tasks m') \<and> \<not> quiet_pc (pc_of m' j)"
      unfolding \<open>set (busy ?p) = _\<close> using calls s(2,5) others by auto
    moreover have "pr_mgr ?p = m'" "pr_sent ?p = pr_sent p @ [(i, l)]" "pr_calls ?p = pr_calls p @ [(i, l)]"
      "pr_published ?p = pr_published p" by (simp_all add: fanout_enqueue_def)
    ultimately have "sink_inv ?p"
      unfolding sink_inv_def using run old sent s(2-4) others inv by (auto simp: sink_inv_def)
    with s show ?thesis by (simp add: tailer_task_def)
  qed
qed

lemma sink_inv_publish:
  assumes "sink_inv p" "fanout_publish marshal uni k order p = Some p'" "pr_publisher p = None"
  shows "sink_inv p'"
proof -
  obtain i l where x: "pr_calls p ! k = (i, l)" by fastforce
  let ?us = "take k (pr_calls p)" and ?vs = "drop (Suc k) (pr_calls p)"
  have k: "k < length (pr_calls p)" using assms(2) by (simp add: fanout_publish_def split: if_splits)
  then have calls: "pr_calls p = ?us @ (i, l) # ?vs" using x by (metis id_take_nth_drop)
  have p': "pr_mgr p' = pr_mgr p" "pr_sent p' = pr_sent p" "pr_calls p' = ?us @ ?vs" "pr_publisher p' = Some i"
    "pr_published p' = pr_published p @ [(i, l)]"
    using assms(2) k x by (auto simp: fanout_publish_def split: option.splits simp del: lt_step.simps)
  have "distinct (map fst (pr_calls p))" using assms(1,3) by (simp add: sink_inv_def busy_def)
  then have d: "distinct (map fst ?us @ i # map fst ?vs)" by (subst (asm) calls) simp
  then have "of_task i ?us = []" by (auto simp: of_task_def filter_empty_conv)
  then have "of_task j (pr_calls p) = of_task j [(i, l)] @ of_task j (?us @ ?vs)" for j
    by (subst calls) (auto simp: of_task_def)
  moreover have "busy p = map fst ?us @ i # map fst ?vs" "busy p' = (map fst ?us @ map fst ?vs) @ [i]"
    using assms(3) calls p'(3,4) by (simp add: busy_def, metis fst_conv list.simps(9) map_append) (simp add: busy_def p')
  ultimately show ?thesis
    using assms(1) d unfolding sink_inv_def p' by auto
qed

lemma lt_publish_step:
  assumes "lt_step marshal uni (Live_publish l order) s = Some s'"
  shows "bc_pub (lt_bc s) = No_publish \<and> bc_pub (lt_bc s') \<noteq> No_publish
    \<and> lt_published s' = lt_published s @ [l]"
  using assms by (auto split: option.splits if_splits)

lemma lt_other_step:
  assumes "lt_step marshal uni a s = Some s'" "\<forall>l order. a \<noteq> Live_publish l order"
  shows "lt_published s' = lt_published s
    \<and> (bc_pub (lt_bc s) = No_publish \<longrightarrow> bc_pub (lt_bc s') = No_publish)"
  using assms by (cases a)
    (auto simp: conn_step_def set_conn_def subscribe_def Let_def receive_from_def unsubscribe_delete_def
      unsubscribe_close_def split: if_splits option.splits)

text \<open>What the steps do to each part, for the case distinctions below.\<close>

lemma proc_act_cases:
  assumes "proc_act marshal uni a p = Some p'"
  obtains
    ta now m' where "a = Tailer ta now" "ta \<noteq> Cancel_ctx" "\<not> is_busy ta p" "tl_step ta (pr_mgr p) = Some m'"
      "p' = fold (fanout_enqueue (tailer_task ta) now) (newly_sent (pr_mgr p) m') (p\<lparr>pr_mgr := m'\<rparr>)"
  | k order where "a = Publish_call k order" "fanout_publish marshal uni k order p = Some p'"
  | la s where "a = Live la" "\<forall>l order. la \<noteq> Live_publish l order" "lt_step marshal uni la (pr_live p) = Some s"
      "p' = p\<lparr>pr_live := s, pr_publisher := (if bc_pub (lt_bc s) = No_publish then None else pr_publisher p)\<rparr>"
  | qa q' where "a = Queue qa" "\<forall>l now. qa \<noteq> Enqueue l now" "qa \<noteq> Close_done" "bq_step qa (pr_queue p) = Some q'"
      "p' = p\<lparr>pr_queue := q', pr_batches := pr_batches p
        @ map (\<lambda>b. (b, insert_ok qa (pr_queue p))) (inserted_by qa (pr_queue p))\<rparr>"
  | ca pc s where "a = Cron ca"
      "cron_step (pr_retention_days p) (pr_cron_stopped p) ca (pr_cron p, pr_store p) = Some (pc, s)"
      "p' = p\<lparr>pr_cron := pc, pr_queue := (pr_queue p)\<lparr>q_store := s\<rparr>, pr_cleanups := pr_cleanups p @ cleanups_by ca\<rparr>"
  | q' where "a = Close_queue" "pr_main p = Closing_queue" "bq_step Close_done (pr_queue p) = Some q'"
      "p' = p\<lparr>pr_queue := q', pr_main := Waiting_queue\<rparr>"
  | "a = Close_store" "pr_main p = Closing_store"
      "p' = p\<lparr>pr_queue := (pr_queue p)\<lparr>q_store := store_close (pr_store p)\<rparr>, pr_main := Exited\<rparr>"
  | main m c where "p' = p\<lparr>pr_main := main, pr_mgr := m, pr_cron_stopped := c\<rparr>"
      "m = pr_mgr p \<or> m = (pr_mgr p)\<lparr>m_ctx_done := True\<rparr>"
      "(pr_main p, main) \<in> {(Serving, Http_shutdown), (Http_shutdown, Waiting_mgr), (Serving, Died),
         (Http_shutdown, Died), (Waiting_mgr, Stopping_cron), (Stopping_cron, Cancelling), (Cancelling, Closing_queue),
         (Waiting_queue, Closing_store)}"
      "pr_main p = Waiting_mgr \<longrightarrow> mgr_over (pr_mgr p)" "pr_main p = Waiting_queue \<longrightarrow> q_pc (pr_queue p) = Stopped"
      "main = Http_shutdown \<longrightarrow> m_ctx_done m"
proof (cases a)
  case (Tailer ta now)
  with assms that(1) show ?thesis by (auto split: if_splits option.splits)
next
  case (Live la)
  with assms that(3) show ?thesis by (auto split: lt_action.splits option.splits simp del: lt_step.simps)
next
  case (Queue qa)
  with assms that(4) show ?thesis by (auto split: bq_action.splits option.splits simp del: bq_step.simps)
next
  case (Cron ca)
  with assms that(5) show ?thesis by (auto split: option.splits simp del: cron_step.simps)
next
  case Mgr_done
  with assms that(8) [of "pr_cron_stopped p" "pr_mgr p" Stopping_cron] show ?thesis
    by (auto simp: mgr_over_def split: if_splits run_pc.splits)
next
  case Signal
  with assms that(8) [of "pr_cron_stopped p" "(pr_mgr p)\<lparr>m_ctx_done := True\<rparr>" Http_shutdown] show ?thesis by (auto split: if_splits)
next
  case Cancel
  with assms that(8) [of "pr_cron_stopped p" "(pr_mgr p)\<lparr>m_ctx_done := True\<rparr>" Closing_queue] show ?thesis by (auto split: if_splits)
next
  case Close_queue
  with assms that(6) show ?thesis by (auto split: if_splits)
next
  case Http_done
  with assms that(8) [of "pr_cron_stopped p" "pr_mgr p" Waiting_mgr] show ?thesis by (auto split: if_splits)
next
  case Http_fails
  with assms that(8) [of "pr_cron_stopped p" "pr_mgr p" Died] show ?thesis by (auto split: if_splits)
next
  case Stop_cron
  with assms that(8) [of True "pr_mgr p" Cancelling] show ?thesis by (auto split: if_splits)
next
  case Queue_stopped
  with assms that(8) [of "pr_cron_stopped p" "pr_mgr p" Closing_store] show ?thesis by (auto split: if_splits)
next
  case (Publish_call k order)
  with assms show ?thesis by (intro that(2)) simp_all
next
  case Close_store
  with assms have "pr_main p = Closing_store"
    "p' = p\<lparr>pr_queue := (pr_queue p)\<lparr>q_store := store_close (pr_store p)\<rparr>, pr_main := Exited\<rparr>"
    by (simp_all split: if_splits)
  with Close_store show ?thesis by (rule that(7))
qed

lemma fanout_enqueue_views [simp]:
  "pr_mgr (fanout_enqueue i now l p) = pr_mgr p" "pr_live (fanout_enqueue i now l p) = pr_live p"
  "pr_cron (fanout_enqueue i now l p) = pr_cron p" "pr_main (fanout_enqueue i now l p) = pr_main p"
  "pr_publisher (fanout_enqueue i now l p) = pr_publisher p"
  "pr_published (fanout_enqueue i now l p) = pr_published p"
  "pr_batches (fanout_enqueue i now l p) = pr_batches p"
  "pr_cleanups (fanout_enqueue i now l p) = pr_cleanups p"
  "pr_retention_days (fanout_enqueue i now l p) = pr_retention_days p"
  "pr_queue (fanout_enqueue i now l p) = enqueue l now (pr_queue p)"
  "pr_accepted (fanout_enqueue i now l p) = pr_accepted p @ accepted_by (Enqueue l now) (pr_queue p)"
  by (simp_all add: fanout_enqueue_def)

lemma fanout_fold_views [simp]:
  "pr_mgr (fold (fanout_enqueue i now) ls p) = pr_mgr p"
  "pr_live (fold (fanout_enqueue i now) ls p) = pr_live p"
  "pr_cron (fold (fanout_enqueue i now) ls p) = pr_cron p"
  "pr_main (fold (fanout_enqueue i now) ls p) = pr_main p"
  "pr_publisher (fold (fanout_enqueue i now) ls p) = pr_publisher p"
  "pr_published (fold (fanout_enqueue i now) ls p) = pr_published p"
  "pr_batches (fold (fanout_enqueue i now) ls p) = pr_batches p"
  "pr_cleanups (fold (fanout_enqueue i now) ls p) = pr_cleanups p"
  "pr_retention_days (fold (fanout_enqueue i now) ls p) = pr_retention_days p"
  "pr_store (fold (fanout_enqueue i now) ls p) = pr_store p"
  "q_done (pr_queue (fold (fanout_enqueue i now) ls p)) = q_done (pr_queue p)"
  "q_pc (pr_queue (fold (fanout_enqueue i now) ls p)) = q_pc (pr_queue p)"
  by (induction ls arbitrary: p) simp_all

lemma fanout_publish_views:
  assumes "fanout_publish marshal uni k order p = Some p'"
  obtains i l s where "lt_step marshal uni (Live_publish l order) (pr_live p) = Some s"
    "p' = p\<lparr>pr_live := s, pr_publisher := Some i, pr_calls := take k (pr_calls p) @ drop (Suc k) (pr_calls p),
       pr_published := pr_published p @ [(i, l)]\<rparr>"
  using assms
  by (auto simp: fanout_publish_def Let_def split: if_splits prod.splits option.splits simp del: lt_step.simps)

lemma live_inv_step:
  assumes "live_inv marshal uni p" "proc_act marshal uni a p = Some p'"
  shows "live_inv marshal uni p'"
  using assms(2)
proof (cases rule: proc_act_cases)
  case (2 k order)
  from 2(2) obtain i l s where "lt_step marshal uni (Live_publish l order) (pr_live p) = Some s"
    "pr_live p' = s" "pr_publisher p' = Some i" "pr_published p' = pr_published p @ [(i, l)]"
    by (auto elim: fanout_publish_views simp del: lt_step.simps)
  with assms(1) lt_publish_step show ?thesis
    by (auto simp: live_inv_def intro: lt_next simp del: lt_step.simps)
next
  case (3 la s)
  with assms(1) lt_other_step [OF 3(3,2)] show ?thesis by (auto simp: live_inv_def intro: lt_next)
qed (use assms(1) in \<open>simp_all add: live_inv_def\<close>)

lemma sink_inv_step:
  assumes "sink_inv p" "live_inv marshal uni p" "proc_ok a p" "proc_act marshal uni a p = Some p'"
  shows "sink_inv p'"
  using assms(4)
proof (cases rule: proc_act_cases)
  case (1 ta now m')
  with sink_inv_tailer [OF assms(1) 1(3) _ 1(4)] assms(3) show ?thesis by (simp add: proc_ok_def)
next
  case (2 k order)
  then have "bc_pub (lt_bc (pr_live p)) = No_publish"
    using lt_publish_step by (auto elim!: fanout_publish_views simp del: lt_step.simps)
  with assms(2) have "pr_publisher p = None" by (simp add: live_inv_def)
  with sink_inv_publish [OF assms(1) 2(2)] show ?thesis by blast
next
  case (8 main m c)
  have "busy (p\<lparr>pr_mgr := m\<rparr>) = busy p" by (simp add: busy_def)
  then have "sink_inv (p\<lparr>pr_mgr := m\<rparr>)" using 8(2) assms(1) by (elim disjE) (simp_all add: sink_inv_def)
  then show ?thesis by (rule sink_inv_cong) (simp_all add: 8(1))
qed (rule sink_inv_cong [OF assms(1)]; simp)+

section \<open>The invariant of the queue and of main\<close>

definition last_flush :: "bq_pc \<Rightarrow> bool" where
  "last_flush pc = (case pc of Flushing final \<Rightarrow> final | Inserting _ final \<Rightarrow> final | Stopped \<Rightarrow> True | _ \<Rightarrow> False)"

definition after_mgr :: "main_pc set" where
  "after_mgr = {Stopping_cron, Cancelling, Closing_queue, Waiting_queue, Closing_store, Exited}"

definition main_inv :: "process \<Rightarrow> bool" where
  "main_inv p \<longleftrightarrow> (pr_main p \<in> after_mgr \<longrightarrow> mgr_over (pr_mgr p))
     \<and> bq_inv (pr_queue p) \<and> pr_accepted p = concat (map fst (pr_batches p)) @ pending (pr_queue p)
     \<and> (q_done (pr_queue p) \<longleftrightarrow> pr_main p \<in> {Waiting_queue, Closing_store, Exited})
     \<and> (last_flush (q_pc (pr_queue p)) \<longrightarrow> q_done (pr_queue p) \<and> q_in (pr_queue p) = [])
     \<and> (pr_main p \<in> {Closing_store, Exited} \<longrightarrow> q_pc (pr_queue p) = Stopped)"

lemma last_flush_step:
  assumes "bq_inv q" "bq_step a q = Some q'" "\<forall>l now. a \<noteq> Enqueue l now"
    "last_flush (q_pc q) \<longrightarrow> q_done q \<and> q_in q = []"
  shows "last_flush (q_pc q') \<longrightarrow> q_done q' \<and> q_in q' = []"
  using assms
  by (cases a)
    (auto simp: last_flush_def flush_take_def after_flush_def receive_def drain_receive_def Let_def bq_inv_def
      split: if_splits bq_pc.splits list.splits)

lemma queue_stopped_stuck:
  "q_pc q = Stopped \<Longrightarrow> \<forall>l now. a \<noteq> Enqueue l now \<Longrightarrow> a \<noteq> Close_done \<Longrightarrow> bq_step a q = None"
  by (cases a) auto

lemma bq_step_done: "bq_step a q = Some q' \<Longrightarrow> a \<noteq> Close_done \<Longrightarrow> q_done q' = q_done q"
  by (cases a)
    (auto simp: flush_take_def receive_def drain_receive_def Let_def split: if_splits bq_pc.splits list.splits)

lemma queue_store_views [simp]:
  "bq_inv (q\<lparr>q_store := s\<rparr>) = bq_inv q" "pending (q\<lparr>q_store := s\<rparr>) = pending q"
  "pending (q\<lparr>q_done := d\<rparr>) = pending q"
  by (simp_all add: bq_inv_def pending_def in_flight_def split: bq_pc.split)

lemma fanout_fold_queue:
  assumes "bq_inv (pr_queue p)" "pr_accepted p = xs @ pending (pr_queue p)"
  shows "bq_inv (pr_queue (fold (fanout_enqueue i now) ls p))
    \<and> pr_accepted (fold (fanout_enqueue i now) ls p) = xs @ pending (pr_queue (fold (fanout_enqueue i now) ls p))"
  using assms
proof (induction ls arbitrary: p)
  case (Cons l ls)
  have step: "bq_step (Enqueue l now) (pr_queue p) = Some (enqueue l now (pr_queue p))" by simp
  have "pending (enqueue l now (pr_queue p)) = pending (pr_queue p) @ accepted_by (Enqueue l now) (pr_queue p)"
    using bq_step_pending [OF step Cons.prems(1)] by (simp add: inserted_by_def)
  with bq_step_inv [OF step Cons.prems(1)] Cons show ?case by simp
qed simp

lemma main_inv_cong:
  assumes "main_inv p" "pr_mgr p' = pr_mgr p" "pr_main p' = pr_main p" "pr_queue p' = pr_queue p"
    "pr_accepted p' = pr_accepted p" "pr_batches p' = pr_batches p"
  shows "main_inv p'"
  using assms(1) unfolding main_inv_def assms(2-6) .

lemma main_inv_step:
  assumes inv: "main_inv p" and sink: "sink_inv p" and ok: "proc_ok a p"
    and step: "proc_act marshal uni a p = Some p'"
  shows "main_inv p'"
  using step
proof (cases rule: proc_act_cases)
  case (1 ta now m')
  show ?thesis
  proof (cases "pr_main p \<in> after_mgr")
    case True
    then have "mgr_over m' \<and> newly_sent (pr_mgr p) m' = []"
      using mgr_over_step [OF _ _ _ 1(4)] inv sink ok 1(1) by (simp add: main_inv_def sink_inv_def proc_ok_def)
    with inv show ?thesis by (auto simp: 1(5) main_inv_def)
  next
    case False
    then have "\<not> q_done (pr_queue p)" "\<not> last_flush (q_pc (pr_queue p))"
      using inv by (auto simp: main_inv_def after_mgr_def)
    with False fanout_fold_queue [of "p\<lparr>pr_mgr := m'\<rparr>"] inv show ?thesis
      by (auto simp: 1(5) main_inv_def after_mgr_def)
  qed
next
  case (2 k order)
  from 2(2) obtain i l s where "p' = p\<lparr>pr_live := s, pr_publisher := Some i,
      pr_calls := take k (pr_calls p) @ drop (Suc k) (pr_calls p), pr_published := pr_published p @ [(i, l)]\<rparr>"
    by (rule fanout_publish_views)
  then show ?thesis by (intro main_inv_cong [OF inv]) simp_all
next
  case (4 qa q')
  have bq: "bq_inv (pr_queue p)" using inv by (simp add: main_inv_def)
  have "accepted_by qa (pr_queue p) = []" using 4(2) by (cases qa) (simp_all add: accepted_by_def)
  then have "pending (pr_queue p) = concat (inserted_by qa (pr_queue p)) @ pending q'"
    using bq_step_pending [OF 4(4) bq] by simp
  moreover have "last_flush (q_pc q') \<longrightarrow> q_done q' \<and> q_in q' = []"
    by (rule last_flush_step [OF bq 4(4,2)]) (use inv in \<open>unfold main_inv_def, iprover\<close>)
  moreover have "q_pc (pr_queue p) \<noteq> Stopped" using queue_stopped_stuck 4 by fastforce
  moreover have "map fst (map (\<lambda>b. (b, insert_ok qa (pr_queue p))) bs) = bs" for bs :: "log_line list list"
    by (induction bs) simp_all
  ultimately show ?thesis
    using inv bq_step_inv [OF 4(4) bq] bq_step_done [OF 4(4,3)] by (simp add: 4(5) main_inv_def)
next
  case (6 q')
  then have q': "q' = (pr_queue p)\<lparr>q_done := True\<rparr>" by (auto split: if_splits)
  have "bq_inv q'" using bq_step_inv [OF 6(3)] inv by (simp add: main_inv_def)
  with inv 6(2) show ?thesis unfolding 6(4) q' by (auto simp: main_inv_def after_mgr_def)
next
  case (8 main m c)
  have "mgr_over m = mgr_over (pr_mgr p)" using 8(2) by auto
  moreover have old: "pr_main p \<in> after_mgr \<longrightarrow> mgr_over (pr_mgr p)"
    "q_done (pr_queue p) \<longleftrightarrow> pr_main p \<in> {Waiting_queue, Closing_store, Exited}"
    using inv unfolding main_inv_def by iprover+
  have "main \<in> after_mgr \<longrightarrow> mgr_over (pr_mgr p)"
    "q_done (pr_queue p) \<longleftrightarrow> main \<in> {Waiting_queue, Closing_store, Exited}"
    "main \<in> {Closing_store, Exited} \<longrightarrow> q_pc (pr_queue p) = Stopped"
    using 8(3) by (elim insertE emptyE Pair_inject; use old 8(4,5) in \<open>simp add: after_mgr_def\<close>)+
  moreover have "bq_inv (pr_queue p)" "pr_accepted p = concat (map fst (pr_batches p)) @ pending (pr_queue p)"
    "last_flush (q_pc (pr_queue p)) \<longrightarrow> q_done (pr_queue p) \<and> q_in (pr_queue p) = []"
    using inv unfolding main_inv_def by iprover+
  ultimately show ?thesis unfolding main_inv_def 8(1) by simp
qed (use inv in \<open>auto simp: main_inv_def after_mgr_def\<close>)

section \<open>The invariant of the store\<close>

definition of_day :: "string \<Rightarrow> log_line list \<Rightarrow> log_line list" where
  "of_day d ls = filter (\<lambda>l. line_date l = d) ls"

text \<open>The lines of the batches for which \<open>InsertBatch\<close> returned no error.\<close>

definition acknowledged :: "process \<Rightarrow> log_line list" where
  "acknowledged p = concat (map fst (filter snd (pr_batches p)))"

text \<open>A day that no cleanup so far found expired.\<close>

definition kept_day :: "process \<Rightarrow> int \<Rightarrow> bool" where
  "kept_day p n \<longleftrightarrow> in_years n
     \<and> list_all (\<lambda>now. \<not> before (midnight n) (cutoff_of (pr_retention_days p) now)) (pr_cleanups p)"

definition stored :: "store \<Rightarrow> store \<Rightarrow> string \<Rightarrow> log_line list \<Rightarrow> log_line list \<Rightarrow> bool" where
  "stored st s d must may \<longleftrightarrow>
     (\<exists>ls. shard_rows s d = shard_rows st d @ map row_of_line ls
        \<and> subseq (of_day d must) ls \<and> subseq ls (of_day d may))"

definition disk_inv :: "store \<Rightarrow> process \<Rightarrow> bool" where
  "disk_inv st p \<longleftrightarrow> cron_cutoff (pr_retention_days p) (pr_cleanups p) (pr_cron p)
     \<and> (store_inv st \<longrightarrow> store_inv (pr_store p))
     \<and> (\<forall>n. kept_day p n \<longrightarrow>
          stored st (pr_store p) (fmt_day n) (acknowledged p) (concat (map fst (pr_batches p))))"

lemma of_day_append [simp]: "of_day d (xs @ ys) = of_day d xs @ of_day d ys"
  by (simp add: of_day_def)

lemma of_day_Nil [simp]: "of_day d [] = []"
  by (simp add: of_day_def)

lemma disk_inv_cong:
  assumes "disk_inv st p" "pr_store p' = pr_store p" "pr_batches p' = pr_batches p" "pr_cron p' = pr_cron p"
    "pr_cleanups p' = pr_cleanups p" "pr_retention_days p' = pr_retention_days p"
  shows "disk_inv st p'"
  using assms(1) unfolding disk_inv_def kept_day_def acknowledged_def assms(2-6) .

lemma stored_same: "shard_rows s' d = shard_rows s d \<Longrightarrow> stored st s' d must may = stored st s d must may"
  by (simp add: stored_def)

lemma flush_stored:
  assumes "stored st s d must may" "map_order batch order" "insert_batch flt ctx order batch s = (s', r)"
  shows "stored st s' d (must @ (if r = Inr () then batch else [])) (may @ batch)"
proof -
  obtain ls where ls: "shard_rows s d = shard_rows st d @ map row_of_line ls" "subseq (of_day d must) ls"
    "subseq ls (of_day d may)" using assms(1) by (auto simp: stored_def)
  have out: "shard_rows s' d = shard_rows s d \<or> shard_rows s' d = shard_rows s d @ map row_of_line (of_day d batch)"
    "r = Inr () \<longrightarrow> shard_rows s' d = shard_rows s d @ map row_of_line (of_day d batch)"
    using insert_batch_outcome [OF assms(2,3), of d] by (simp_all add: of_day_def)
  have grow: "subseq (ls @ of_day d batch) (of_day d may @ of_day d batch)"
    "subseq (of_day d must @ of_day d batch) (ls @ of_day d batch)"
    using ls(2,3) by (simp_all add: list_emb_append_mono)
  show ?thesis
  proof (cases "shard_rows s' d = shard_rows s d @ map row_of_line (of_day d batch)")
    case True
    have "subseq (of_day d must) (ls @ of_day d batch)" using ls(2) by (rule subseq_rev_drop_many)
    with True ls(1) grow show ?thesis unfolding stored_def by (intro exI [of _ "ls @ of_day d batch"]) simp
  next
    case False
    have "subseq ls (of_day d may @ of_day d batch)" using ls(3) by (rule subseq_rev_drop_many)
    with False out ls show ?thesis unfolding stored_def by (intro exI [of _ ls]) auto
  qed
qed

text \<open>A step of the worker: only an insert changes the store.\<close>

lemma bq_step_disk:
  assumes "bq_step a q = Some q'"
  shows "inserted_by a q = [] \<and> q_store q' = q_store q
    \<or> (\<exists>flt ctx order batch r. map_order batch order \<and> inserted_by a q = [batch] \<and> insert_batch flt ctx order batch (q_store q) = (q_store q', r)
         \<and> insert_ok a q = (r = Inr ()))"
proof (cases a)
  case (Flush_insert flt ctx order dur)
  then obtain batch final where f: "q_pc q = Inserting batch final" "map_order batch order"
      "q' = flush_insert flt ctx order dur batch final q"
    using assms by (auto split: bq_pc.splits if_splits)
  then show ?thesis
    using Flush_insert by (cases "insert_batch flt ctx order batch (q_store q)")
      (auto simp: inserted_by_def insert_ok_def)
qed (use assms in \<open>auto simp: inserted_by_def flush_take_def receive_def drain_receive_def Let_def
       split: if_splits bq_pc.splits list.splits\<close>)

lemma disk_inv_queue:
  assumes inv: "disk_inv st p" and step: "bq_step a (pr_queue p) = Some q'"
  shows "disk_inv st (p\<lparr>pr_queue := q', pr_batches := pr_batches p
    @ map (\<lambda>b. (b, insert_ok a (pr_queue p))) (inserted_by a (pr_queue p))\<rparr>)" (is "disk_inv st ?p")
proof -
  from bq_step_disk [OF step] consider
    (same) "inserted_by a (pr_queue p) = []" "q_store q' = pr_store p"
  | (flush) flt ctx order batch r where "map_order batch order" "inserted_by a (pr_queue p) = [batch]"
      "insert_batch flt ctx order batch (pr_store p) = (q_store q', r)" "insert_ok a (pr_queue p) = (r = Inr ())"
    by blast
  then show ?thesis
  proof cases
    case same
    then show ?thesis by (intro disk_inv_cong [OF inv]) simp_all
  next
    case f: (flush flt ctx order batch r)
    have "stored st (pr_store ?p) (fmt_day n) (acknowledged ?p) (concat (map fst (pr_batches ?p)))" if "kept_day ?p n" for n
    proof -
      have "kept_day p n" using that by (simp add: kept_day_def)
      then have "stored st (pr_store p) (fmt_day n) (acknowledged p) (concat (map fst (pr_batches p)))"
        using inv by (simp add: disk_inv_def)
      from flush_stored [OF this f(1,3)] show ?thesis
        by (cases "r = Inr ()") (simp_all add: acknowledged_def f(2,4))
    qed
    moreover have "store_inv (pr_store p) \<longrightarrow> store_inv (q_store q')" using insert_batch_outcome [OF f(1,3)] by blast
    ultimately show ?thesis using inv by (simp add: disk_inv_def)
  qed
qed

lemma disk_inv_cron:
  assumes inv: "disk_inv st p"
    and step: "cron_step (pr_retention_days p) c a (pr_cron p, pr_store p) = Some (pc, s)"
  shows "disk_inv st (p\<lparr>pr_cron := pc, pr_queue := (pr_queue p)\<lparr>q_store := s\<rparr>,
    pr_cleanups := pr_cleanups p @ cleanups_by a\<rparr>)" (is "disk_inv st ?p")
proof -
  have cut: "cron_cutoff (pr_retention_days p) (pr_cleanups p) (pr_cron p)" using inv by (simp add: disk_inv_def)
  have "stored st s (fmt_day n) (acknowledged p) (concat (map fst (pr_batches p)))" if "kept_day ?p n" for n
  proof -
    have k: "kept_day p n" "in_years n" using that by (simp_all add: kept_day_def)
    have "\<not> before (midnight n) cutoff" if d: "pr_cron p = Cron_deleting cutoff es rem" for cutoff es rem
    proof -
      obtain now where "now \<in> set (pr_cleanups p)" "cutoff = cutoff_of (pr_retention_days p) now"
        using cut d unfolding cron_cutoff_def by blast
      with k(1) show ?thesis by (simp add: kept_day_def list_all_iff)
    qed
    then have same: "shard_rows s (fmt_day n) = shard_rows (pr_store p) (fmt_day n)"
      by (rule cron_step_rows [OF step k(2)])
    show ?thesis unfolding stored_same [OF same] using inv k(1) by (simp add: disk_inv_def)
  qed
  moreover have "acknowledged ?p = acknowledged p" by (simp add: acknowledged_def)
  moreover have "store_inv st \<longrightarrow> store_inv s" using inv cron_step_inv [OF step] unfolding disk_inv_def by blast
  ultimately show ?thesis
    using cron_step_cutoff [OF step cut] by (simp add: disk_inv_def del: cron_step.simps)
qed

lemma store_close_rows [simp]: "shard_rows (store_close s) d = shard_rows s d"
  by (simp add: shard_rows_def table_of_def store_close_def)

lemma disk_inv_step:
  assumes inv: "disk_inv st p" and step: "proc_act marshal uni a p = Some p'"
  shows "disk_inv st p'"
  using step
proof (cases rule: proc_act_cases)
  case (2 k order)
  from 2(2) obtain i l s where "p' = p\<lparr>pr_live := s, pr_publisher := Some i,
      pr_calls := take k (pr_calls p) @ drop (Suc k) (pr_calls p), pr_published := pr_published p @ [(i, l)]\<rparr>"
    by (rule fanout_publish_views)
  then show ?thesis by (intro disk_inv_cong [OF inv]) simp_all
next
  case (4 qa q')
  with disk_inv_queue [OF inv 4(4)] show ?thesis by simp
next
  case (5 ca pc s)
  with disk_inv_cron [OF inv 5(2)] show ?thesis by simp
next
  case (6 q')
  then have "q_store q' = pr_store p" by (auto split: if_splits)
  with 6 show ?thesis by (intro disk_inv_cong [OF inv]) simp_all
next
  case 7
  have "stored st (store_close (pr_store p)) d must may = stored st (pr_store p) d must may" for d must may
    by (rule stored_same) simp
  with inv 7(3) show ?thesis by (simp add: disk_inv_def kept_day_def acknowledged_def store_close_inv)
qed (simp_all add: disk_inv_cong [OF inv])

section \<open>Executions\<close>

definition proc_inv ::
  "(tail_event \<Rightarrow> string option) \<Rightarrow> (string \<Rightarrow> string) \<Rightarrow> store \<Rightarrow> process \<Rightarrow> bool" where
  "proc_inv marshal uni st p \<longleftrightarrow> sink_inv p \<and> live_inv marshal uni p \<and> main_inv p \<and> disk_inv st p"

lemma proc_inv_step:
  "proc_inv marshal uni st p \<Longrightarrow> proc_ok a p \<Longrightarrow> proc_step marshal uni a p = Some p' \<Longrightarrow> proc_inv marshal uni st p'"
  unfolding proc_inv_def proc_step_def
  using sink_inv_step live_inv_step main_inv_step disk_inv_step by (metis option.distinct(1))

lemma proc_exec_inv: "proc_exec marshal uni p0 p \<Longrightarrow> proc_inv marshal uni st p0 \<Longrightarrow> proc_inv marshal uni st p"
  by (induction rule: proc_exec.induct) (auto intro: proc_inv_step)

lemma new_process_inv:
  "proc_inv marshal uni st (new_process (new_manager ns ii self hs mt) (fresh_queue st sz interval timeout m) days)"
proof -
  let ?q = "fresh_queue st sz interval timeout m"
  have "q_done ?q = False" "q_pc ?q = At_select" "q_store ?q = st" by (simp_all add: fresh_queue_def Let_def)
  moreover have "bc_pub (lt_bc new_live_tail) = No_publish" "lt_published new_live_tail = []"
    by (simp_all add: new_live_tail_def new_broadcaster_def)
  moreover have "m_sent (new_manager ns ii self hs mt) = []" by (simp add: new_manager_def)
  ultimately show ?thesis
    using run_inv_new fresh_queue_inv lt_start
    by (simp add: proc_inv_def new_process_def sink_inv_def busy_def live_inv_def main_inv_def
        disk_inv_def after_mgr_def last_flush_def cron_cutoff_def stored_def acknowledged_def of_day_def)
qed

text \<open>The process that \<open>main\<close> starts.\<close>

lemma start_up_inv: "start_up memory env (Inr st) ce te se = Inr (p, h) \<Longrightarrow> proc_inv marshal uni st p"
  using new_process_inv by (auto simp: start_up_def Let_def split: option.splits sum.splits dest!: new_batch_queue_Inr)

text \<open>Once \<open>main\<close> is at \<open>store.Close\<close>, nothing is handed over or inserted any more.\<close>

lemma closing_step:
  assumes "proc_inv marshal uni st p" "pr_main p \<in> {Closing_store, Exited}" "proc_ok a p"
    "proc_step marshal uni a p = Some p'"
  shows "pr_main p' \<in> {Closing_store, Exited} \<and> pr_accepted p' = pr_accepted p
    \<and> pr_sent p' = pr_sent p \<and> pr_published p' = pr_published p"
proof -
  have act: "proc_act marshal uni a p = Some p'" using assms(4) by (simp add: proc_step_def split: if_splits)
  have over: "mgr_over (pr_mgr p)" and run: "run_inv (pr_mgr p)" and stop: "q_pc (pr_queue p) = Stopped"
    using assms(1,2) by (auto simp: proc_inv_def main_inv_def sink_inv_def after_mgr_def)
  have "busy p = []"
  proof (rule ccontr)
    assume "busy p \<noteq> []"
    then obtain i where "i \<in> set (busy p)" by (cases "busy p") auto
    then show False using assms(1) mgr_over_quiet [OF run over] by (auto simp: proc_inv_def sink_inv_def)
  qed
  then have calls: "pr_calls p = []" by (simp add: busy_def)
  from act show ?thesis
  proof (cases rule: proc_act_cases)
    case (1 ta now m')
    with mgr_over_step [OF run over _ 1(4)] assms(2,3) show ?thesis by (simp add: proc_ok_def)
  next
    case (2 k order)
    with calls show ?thesis by (simp add: fanout_publish_def)
  next
    case (4 qa q')
    with queue_stopped_stuck [OF stop] show ?thesis by simp
  next
    case (8 main m c)
    with assms(2) show ?thesis by auto
  qed (use assms(2) in auto)
qed

section \<open>The context\<close>

definition ctx_inv :: "process \<Rightarrow> bool" where
  "ctx_inv p \<longleftrightarrow> pr_main p \<notin> {Serving, Died} \<longrightarrow> m_ctx_done (pr_mgr p)"

lemma tl_step_ctx: "tl_step a m = Some m' \<Longrightarrow> m_ctx_done m \<Longrightarrow> m_ctx_done m'"
  using task_step_views by (cases a) (auto split: if_splits list.splits)

lemma ctx_inv_step:
  assumes "ctx_inv p" "proc_act marshal uni a p = Some p'"
  shows "ctx_inv p'"
  using assms(2)
proof (cases rule: proc_act_cases)
  case (1 ta now m')
  with assms(1) tl_step_ctx show ?thesis by (auto simp: ctx_inv_def)
next
  case (2 k order)
  from 2(2) have "pr_mgr p' = pr_mgr p" "pr_main p' = pr_main p" by (auto elim: fanout_publish_views)
  with assms(1) show ?thesis by (simp add: ctx_inv_def)
next
  case (8 main m c)
  then show ?thesis using assms(1) by (auto simp: ctx_inv_def)
qed (use assms(1) in \<open>simp_all add: ctx_inv_def\<close>)

lemma start_up_ctx: "start_up memory env (Inr st) ce te se = Inr (p, h) \<Longrightarrow> ctx_inv p"
  by (auto simp: start_up_def Let_def new_process_def ctx_inv_def split: option.splits sum.splits)

lemma proc_exec_ctx: "proc_exec marshal uni p0 p \<Longrightarrow> ctx_inv p0 \<Longrightarrow> ctx_inv p"
  by (induction rule: proc_exec.induct) (auto simp: proc_step_def intro: ctx_inv_step split: if_splits)

end
