(* ===== verification/Shutdown.thy ===== *)
theory Shutdown
  imports Main "HOL-Library.Sublist" Prelude Go_Time Store Retention Batch_Queue Broadcast Handler Live_Tail Cron
    Ingest Manager Tailing Config Server Server_Inv
begin

text \<open>
  What the whole process guarantees: lines reach their shards and stay there, the live tail keeps the order
  of each container, the shutdown loses nothing and there is always a step that brings it on; and an
  execution of it from an empty environment.
\<close>

section \<open>Properties\<close>

lemma subseq_map_lift: "subseq xs (map f ys) \<Longrightarrow> \<exists>zs. subseq zs ys \<and> map f zs = xs"
proof (induction ys arbitrary: xs)
  case (Cons y ys)
  show ?case
  proof (cases "xs \<noteq> [] \<and> hd xs = f y \<and> subseq (tl xs) (map f ys)")
    case True
    with Cons.IH [of "tl xs"] obtain zs where "subseq zs ys" "map f zs = tl xs" by blast
    with True show ?thesis by (intro exI [of _ "y # zs"]) (cases xs; simp)
  next
    case False
    with Cons.prems have "subseq xs (map f ys)" by (cases xs) (auto split: if_splits elim: list_emb.cases)
    with Cons.IH obtain zs where "subseq zs ys" "map f zs = xs" by blast
    then show ?thesis by (intro exI [of _ zs]) auto
  qed
qed (use list_emb_Nil2 in force)

text \<open>Nothing is in a call any more when the tailer is over.\<close>

lemma over_not_busy:
  assumes "sink_inv p" "mgr_over (pr_mgr p)"
  shows "busy p = []"
proof (rule ccontr)
  assume "busy p \<noteq> []"
  then obtain i where "i \<in> set (busy p)" by (cases "busy p") auto
  with assms mgr_over_quiet show False by (auto simp: sink_inv_def)
qed

lemma of_task_mset: "\<forall>i. of_task i xs = of_task i ys \<Longrightarrow> mset xs = mset ys"
proof (rule multiset_eqI)
  fix x assume all: "\<forall>i. of_task i xs = of_task i ys"
  have "count (mset zs) x = count (mset (of_task (fst x) zs)) x" for zs by (induction zs) (auto simp: of_task_def)
  with all show "count (mset xs) x = count (mset ys) x" by metis
qed

lemma proc_exec_closing:
  assumes "proc_exec marshal uni p p'" "proc_inv marshal uni st p" "pr_main p \<in> {Closing_store, Exited}"
  shows "pr_main p' \<in> {Closing_store, Exited} \<and> pr_accepted p' = pr_accepted p \<and> pr_sent p' = pr_sent p
    \<and> pr_published p' = pr_published p"
  using assms(1)
proof induction
  case proc_start
  with assms(3) show ?case by simp
next
  case (proc_next p1 a p2)
  have "proc_inv marshal uni st p1" using proc_exec_inv [OF proc_next.hyps(1) assms(2)] .
  with closing_step [OF _ _ proc_next.hyps(2,3)] proc_next.IH show ?case by auto
qed

text \<open>
  C4: a shutdown loses nothing that the store took. When \<open>main\<close> has come to \<open>store.Close\<close>, whatever the
  retention cron did meanwhile and whatever failed, the shard of a day that no cleanup found expired has
  what it had at the start and then, in order, lines that the queue accepted for this day: all those of
  batches whose insert returned no error, and if no insert failed, all. Every line handed over by a
  tailer was published to the live tail, and from there on nothing is handed over any more. It relies on
  client-go, which opens no stream under a cancelled context.
\<close>

theorem shutdown_loses_nothing:
  assumes "start_up memory env (Inr st) None None None = Inr (p0, h)" "proc_exec marshal uni p0 p"
    "pr_main p \<in> {Closing_store, Exited}"
  shows "(\<forall>n. kept_day p n \<longrightarrow> stored st (pr_store p) (fmt_day n) (acknowledged p) (pr_accepted p))
    \<and> (\<forall>n. kept_day p n \<and> list_all snd (pr_batches p) \<longrightarrow>
         shard_rows (pr_store p) (fmt_day n) =
           shard_rows st (fmt_day n) @ map row_of_line (of_day (fmt_day n) (pr_accepted p)))
    \<and> mset (pr_published p) = mset (pr_sent p) \<and> map snd (pr_sent p) = m_sent (pr_mgr p)
    \<and> (\<forall>p'. proc_exec marshal uni p p' \<longrightarrow> pr_accepted p' = pr_accepted p \<and> pr_sent p' = pr_sent p)"
proof -
  have inv: "proc_inv marshal uni st p" using proc_exec_inv [OF assms(2) start_up_inv [OF assms(1)]] .
  then have sink: "sink_inv p" and main: "main_inv p" and disk: "disk_inv st p" by (simp_all add: proc_inv_def)
  have over: "mgr_over (pr_mgr p)" and stop: "q_pc (pr_queue p) = Stopped" and bq: "bq_inv (pr_queue p)"
    and "q_in (pr_queue p) = []"
    using main assms(3) by (auto simp: main_inv_def after_mgr_def last_flush_def)
  then have "pending (pr_queue p) = []" by (simp add: pending_def in_flight_def bq_inv_def)
  then have acc: "pr_accepted p = concat (map fst (pr_batches p))" using main by (simp add: main_inv_def)
  have kept: "stored st (pr_store p) (fmt_day n) (acknowledged p) (pr_accepted p)" if "kept_day p n" for n
    using disk that acc by (simp add: disk_inv_def)
  have "shard_rows (pr_store p) (fmt_day n) = shard_rows st (fmt_day n) @ map row_of_line (of_day (fmt_day n) (pr_accepted p))"
    if "kept_day p n" "list_all snd (pr_batches p)" for n
  proof -
    have "filter snd (pr_batches p) = pr_batches p" using that(2) by (simp add: list_all_iff filter_id_conv)
    then have "acknowledged p = pr_accepted p" by (simp add: acknowledged_def acc)
    with kept [OF that(1)] show ?thesis by (auto simp: stored_def dest: subseq_order.order_antisym)
  qed
  moreover have "mset (pr_published p) = mset (pr_sent p)"
    by (rule of_task_mset) (use sink over_not_busy [OF sink over] in \<open>simp add: sink_inv_def busy_def\<close>)
  moreover have "map snd (pr_sent p) = m_sent (pr_mgr p)" using sink by (simp add: sink_inv_def)
  ultimately show ?thesis using kept proc_exec_closing [OF _ inv assms(3)] by blast
qed

text \<open>A line whose UTC time was within the last \<open>N - 1\<close> days at every cleanup, \<open>N\<close> the retention.\<close>

definition recent_line :: "process \<Rightarrow> log_line \<Rightarrow> bool" where
  "recent_line p l \<longleftrightarrow> zone_off (l_timestamp l) = 0 \<and> in_years (day_of (l_timestamp l))
     \<and> list_all (\<lambda>now. instant now - (retention_or_default (pr_retention_days p) - 1) * day_ns
          \<le> instant (l_timestamp l)) (pr_cleanups p)"

lemma acknowledged_stored:
  assumes "start_up memory env (Inr st) None None None = Inr (p0, h)" "proc_exec marshal uni p0 p"
    "l \<in> set (acknowledged p)" "recent_line p l"
  shows "row_of_line l \<in> set (shard_rows (pr_store p) (line_date l))"
proof -
  let ?d = "line_date l"
  have d: "?d = fmt_day (day_of (l_timestamp l))" by (simp add: line_date_def format_date_def)
  have "kept_day p (day_of (l_timestamp l))"
    using assms(4) recent_not_expired by (simp add: kept_day_def recent_line_def cutoff_of_def list_all_iff)
  moreover have "disk_inv st p"
    using proc_exec_inv [OF assms(2) start_up_inv [OF assms(1)]] by (simp add: proc_inv_def)
  ultimately obtain ls where ls: "shard_rows (pr_store p) ?d = shard_rows st ?d @ map row_of_line ls"
    "subseq (of_day ?d (acknowledged p)) ls"
    unfolding d by (auto simp: disk_inv_def stored_def)
  have "l \<in> set (of_day ?d (acknowledged p))" using assms(3) by (simp add: of_day_def)
  then have "l \<in> set ls" using list_emb_set [OF ls(2)] by blast
  then show ?thesis by (simp add: ls(1))
qed

text \<open>
  C5: an acknowledged line stays: at every moment of every execution, also while the cron cleans up and
  other inserts fail, a line of a batch whose insert returned no error is in the shard of its day, as
  long as no cleanup ran later than \<open>N - 1\<close> days after the line was written.
\<close>

theorem acknowledged_lines_stay:
  assumes "start_up memory env (Inr st) None None None = Inr (p0, h)" "proc_exec marshal uni p0 p"
    "l \<in> set (acknowledged p)" "recent_line p l"
  shows "row_of_line l \<in> set (shard_rows (pr_store p) (line_date l))"
  using assms by (rule acknowledged_stored)

text \<open>
  C12: from the container to the browser: what a client of \<open>/api/tail\<close> receives are lines that the tailer
  handed over, and those of one goroutine (one container) come in the order in which it read them, no
  line twice, however the goroutines, the publisher and the clients interleave.
\<close>

theorem live_tail_in_container_order:
  assumes "start_up memory env (Inr st) None None None = Inr (p0, h)" "proc_exec marshal uni p0 p"
    "i < length (lt_conns (pr_live p))"
  shows "\<exists>labelled. map snd labelled = tc_got (lt_conns (pr_live p) ! i)
    \<and> (\<forall>t. subseq (of_task t labelled) (of_task t (pr_sent p)))
    \<and> map snd (pr_sent p) = m_sent (pr_mgr p)
    \<and> list_all (\<lambda>(t, l). line_key l = key_of (pr_mgr p) t) (pr_sent p)"
proof -
  let ?c = "lt_conns (pr_live p) ! i"
  have "proc_inv marshal uni st p" using proc_exec_inv [OF assms(2) start_up_inv [OF assms(1)]] .
  then have sink: "sink_inv p" and live: "live_inv marshal uni p" by (simp_all add: proc_inv_def)
  have "subseq (tc_got ?c) (map snd (drop (tc_since ?c) (pr_published p)))"
    using tail_got_published [of marshal uni "pr_live p" i, OF _ assms(3) refl] live by (simp add: live_inv_def drop_map)
  then obtain ls where ls: "subseq ls (drop (tc_since ?c) (pr_published p))" "map snd ls = tc_got ?c"
    using subseq_map_lift by blast
  have "subseq (of_task t ls) (of_task t (pr_sent p))" for t
  proof -
    have "subseq ls (pr_published p)" using ls(1) suffix_drop suffix_imp_subseq subseq_order.trans by blast
    then have "subseq (of_task t ls) (of_task t (pr_published p))" unfolding of_task_def by (rule subseq_filter)
    moreover have "of_task t (pr_sent p) = of_task t (pr_published p) @ of_task t (pr_calls p)"
      using sink by (simp add: sink_inv_def)
    ultimately show ?thesis by (simp add: subseq_rev_drop_many)
  qed
  with ls(2) sink show ?thesis unfolding sink_inv_def list_all_iff by blast
qed

text \<open>
  The steps that a shutdown needs: those of \<open>main\<close>, of the tailer's goroutines and of \<open>Run\<close>, of the
  publisher and of the queue's worker; none of a client, of Kubernetes or of the clock.
\<close>

definition shutdown_action :: "proc_action \<Rightarrow> bool" where
  "shutdown_action a =
     (case a of
        Tailer ta now \<Rightarrow> (case ta of Pod_seen _ \<Rightarrow> False | Pod_deleted _ _ \<Rightarrow> False | _ \<Rightarrow> True)
      | Live la \<Rightarrow> la = Live_step
      | Queue qa \<Rightarrow> worker_action qa
      | Cron ca \<Rightarrow> False
      | Signal \<Rightarrow> False | Http_fails \<Rightarrow> False
      | _ \<Rightarrow> True)"

lemma publish_step_enabled: "bc_pub b \<noteq> No_publish \<Longrightarrow> \<exists>b'. bc_step Publish_step b = Some b'"
  by (cases "bc_pub b") (auto split: list.splits)

lemma tailer_enabled:
  assumes "sink_inv p" "live_inv marshal uni p" "m_ctx_done (pr_mgr p)" "pr_main p = Waiting_mgr" "\<not> mgr_over (pr_mgr p)"
  shows "\<exists>a p'. shutdown_action a \<and> proc_ok a p \<and> proc_step marshal uni a p = Some p'"
proof -
  consider (publishing) "pr_publisher p \<noteq> None" | (call) "pr_publisher p = None" "pr_calls p \<noteq> []"
    | (free) "busy p = []" by (cases "pr_publisher p") (auto simp: busy_def)
  then show ?thesis
  proof cases
    case publishing
    then obtain b where "bc_step Publish_step (lt_bc (pr_live p)) = Some b"
      using publish_step_enabled assms(2) by (auto simp: live_inv_def)
    with assms(4) show ?thesis
      by (intro exI [of _ "Live Live_step"]) (simp add: shutdown_action_def proc_ok_def proc_step_def del: bc_step.simps)
  next
    case call
    obtain i l where c: "pr_calls p ! 0 = (i, l)" by fastforce
    let ?b = "lt_bc (pr_live p)"
    have "bc_pub ?b = No_publish" "distinct (bc_subs ?b)"
      using assms(2) call(1) lt_exec_inv [of marshal uni "pr_live p"]
      by (simp_all add: live_inv_def chan_inv_def bc_inv_def)
    with call c assms(4) show ?thesis
      by (intro exI [of _ "Publish_call 0 (bc_subs ?b)"])
        (simp add: shutdown_action_def proc_ok_def proc_step_def fanout_publish_def)
  next
    case free
    have run: "\<exists>a p'. shutdown_action a \<and> proc_ok a p \<and> proc_step marshal uni a p = Some p'"
      if "tl_step ta (pr_mgr p) = Some m'" "ta \<noteq> Cancel_ctx" "respects_ctx ta (pr_mgr p)"
        "shutdown_action (Tailer ta 0)" for ta m'
      using that free assms(4)
      by (intro exI [of _ "Tailer ta 0"]) (simp add: proc_ok_def proc_step_def is_busy_def split: action.split)
    show ?thesis
    proof (cases "m_run (pr_mgr p)")
      case Run_start
      then show ?thesis
        by (intro run [of "Add_handler None"]) (simp_all add: respects_ctx_def shutdown_action_def)
    next
      case Run_syncing
      then show ?thesis by (intro run [of "Synced []"]) (simp_all add: respects_ctx_def shutdown_action_def)
    next
      case Run_waiting
      with assms(3) show ?thesis by (intro run [of Run_ctx_done]) (simp_all add: respects_ctx_def shutdown_action_def)
    next
      case Run_draining
      show ?thesis
      proof (cases "all_returned (pr_mgr p)")
        case True
        with Run_draining show ?thesis by (intro run [of Wait_done]) (simp_all add: respects_ctx_def shutdown_action_def)
      next
        case False
        then obtain j ta m' where "respects_ctx (Task j ta) (pr_mgr p)" "tl_step (Task j ta) (pr_mgr p) = Some m'"
          using tasks_enabled by blast
        then show ?thesis by (intro run [of "Task j ta"]) (simp_all add: shutdown_action_def)
      qed
    qed (use assms(5) in \<open>simp_all add: mgr_over_def\<close>)
  qed
qed

text \<open>
  From the signal on, whatever the clients, Kubernetes and the retention cron do or leave undone, until
  \<open>main\<close> has returned there is always a step of \<open>main\<close> or of a goroutine that it waits for.
\<close>

lemma shutdown_enabled:
  assumes "proc_inv marshal uni st p" "ctx_inv p" "pr_main p \<notin> {Serving, Exited, Died}"
  shows "\<exists>a p'. shutdown_action a \<and> proc_ok a p \<and> proc_step marshal uni a p = Some p'"
proof -
  note inv = assms(1)
  have main: "\<exists>a p'. shutdown_action a \<and> proc_ok a p \<and> proc_step marshal uni a p = Some p'"
    if "proc_act marshal uni a p = Some p'" "shutdown_action a" "\<And>ta now. a \<noteq> Tailer ta now" for a p'
    using that assms(3) by (intro exI [of _ a] exI [of _ p']) (auto simp: proc_ok_def proc_step_def split: proc_action.split)
  show ?thesis
  proof (cases "pr_main p")
    case Http_shutdown
    then show ?thesis by (intro main [of Http_done]) (simp_all add: shutdown_action_def)
  next
    case Waiting_mgr
    show ?thesis
    proof (cases "mgr_over (pr_mgr p)")
      case True
      with Waiting_mgr show ?thesis
        by (intro main [of Mgr_done]) (auto simp: shutdown_action_def mgr_over_def split: run_pc.splits)
    next
      case False
      from assms(2) Waiting_mgr have "m_ctx_done (pr_mgr p)" by (simp add: ctx_inv_def)
      with tailer_enabled False Waiting_mgr inv show ?thesis by (simp add: proc_inv_def)
    qed
  next
    case Stopping_cron
    then show ?thesis by (intro main [of Stop_cron]) (simp_all add: shutdown_action_def)
  next
    case Cancelling
    then show ?thesis by (intro main [of Cancel]) (simp_all add: shutdown_action_def)
  next
    case Closing_queue
    with inv have "\<not> q_done (pr_queue p)" by (simp add: proc_inv_def main_inv_def)
    with Closing_queue show ?thesis by (intro main [of Close_queue]) (simp_all add: shutdown_action_def)
  next
    case Waiting_queue
    show ?thesis
    proof (cases "q_pc (pr_queue p) = Stopped")
      case True
      with Waiting_queue show ?thesis by (intro main [of Queue_stopped]) (simp_all add: shutdown_action_def)
    next
      case False
      have "q_done (pr_queue p)" using inv Waiting_queue by (simp add: proc_inv_def main_inv_def)
      with False worker_step_enabled obtain qa q' where "worker_action qa" "bq_step qa (pr_queue p) = Some q'" by blast
      then have "\<exists>p'. proc_act marshal uni (Queue qa) p = Some p'"
        by (cases qa) (simp_all add: worker_action_def del: bq_step.simps)
      then obtain p' where "proc_act marshal uni (Queue qa) p = Some p'" by blast
      then show ?thesis by (rule main) (simp_all add: shutdown_action_def \<open>worker_action qa\<close>)
    qed
  next
    case Closing_store
    then show ?thesis by (intro main [of Close_store]) (simp_all add: shutdown_action_def)
  qed (use assms(3) in simp_all)
qed

section \<open>An execution\<close>

fun proc_run ::
  "(tail_event \<Rightarrow> string option) \<Rightarrow> (string \<Rightarrow> string) \<Rightarrow> proc_action list \<Rightarrow> process \<Rightarrow> process option" where
  "proc_run marshal uni [] p = Some p"
| "proc_run marshal uni (a # as) p =
     (if proc_ok a p
      then (case proc_step marshal uni a p of None \<Rightarrow> None | Some p' \<Rightarrow> proc_run marshal uni as p') else None)"

lemma proc_run_exec:
  "proc_run marshal uni as p = Some p' \<Longrightarrow> proc_exec marshal uni p0 p \<Longrightarrow> proc_exec marshal uni p0 p'"
  by (induction marshal uni "as" p rule: proc_run.induct) (auto split: if_splits option.splits intro: proc_next)

text \<open>
  The server starts with an empty environment; a pod is seen and tailed, a client subscribes, a line is
  read, stored in the queue and published to the client; a cleanup runs; then the signal comes and all
  of it shuts down.
\<close>

definition boot :: process where
  "boot = new_process (new_manager ''default'' False [] True (Some new_metrics))
     (fresh_queue empty_store 200 (15 * second_ns) (30 * second_ns) (Some new_metrics)) 7"

lemma boot_start_up: "\<exists>h. start_up (\<lambda>_. True) [] (Inr empty_store) None None None = Inr (boot, h)"
  using new_batch_queue_cases [of 200 "\<lambda>_. True" empty_store "15 * second_ns" "30 * second_ns" "Some new_metrics"]
  by (simp add: start_up_def boot_def read_config_def env_or_def env_int_def env_duration_def env_bool_def
      getenv_def Let_def new_handler_def split: sum.splits)

definition web_line :: log_line where
  "web_line = ingested_line ''default'' web_key ''INFO up'' (midnight 719163)"

definition boot_run :: "proc_action list" where
  "boot_run =
     map (\<lambda>a. Tailer a 0) example_up
     @ [Live (Tail_request True web_request), Live (Tail_subscribe 0),
        Tailer (Task 0 (Next_line (midnight 719163))) 0, Publish_call 0 [0]]"

definition rest_run :: "proc_action list" where
  "rest_run =
     [Live Live_step, Live Live_step, Live (Tail_recv 0),
        Tailer (Task 0 Set_marker) 0, Cron (Cron_schedule (midnight 719163)),
        Cron (Cron_fires no_faults (next_three_am (midnight 719163))), Cron (Cron_entry no_faults),
        Cron (Cron_vacuum no_faults), Signal]"

definition down_run :: "proc_action list" where
  "down_run =
     [Tailer (Task 0 Stream_ends) 0, Tailer (Task 0 Stream_returned) 0,
        Tailer Run_ctx_done 0, Tailer Wait_done 0, Http_done, Mgr_done, Stop_cron, Cancel, Close_queue,
        Queue Take_done, Queue Drain_recv, Queue Drain_empty, Queue Flush_take,
        Queue (Flush_insert no_faults None [line_date web_line] 1), Queue_stopped]"

lemmas up_simps = boot_run_def example_up_def boot_def new_process_def new_manager_def fresh_queue_def
  proc_ok_def proc_step_def is_busy_def busy_def newly_sent_def step_defs reconcile_ops_def statuses_of_def
  example_pod_def reconcile_container_def up_to_date_def start_container_def stop_container_def Let_def known_def
  looked_up_def no_marker_def store_marker_def marker_since_def marker_at_def example_tokens web_key_def
  fanout_publish_def fanout_enqueue_def tailer_task_def new_live_tail_def new_broadcaster_def conn_step_def
  conn_at_def set_conn_def accept_tail_def subscribe_def enqueue_def web_line_def [symmetric] accepted_by_def

lemmas down_simps = rest_run_def down_run_def publish_first_def has_room_def send_def subscriber_buffer_size_def
  evicts_def tail_receive_def receive_from_def set_marker_def all_returned_def cleanups_by_def read_dir_def
  drain_receive_def flush_take_def after_flush_def map_order_def inserted_by_def insert_ok_def

lemma web_line_key: "ingested_line ''default'' (Container_key ''web-0'' ''app'') ''INFO up'' (midnight 719163) = web_line"
  by (simp add: web_line_def web_key_def)

definition booted :: "process \<Rightarrow> bool" where
  "booted p \<longleftrightarrow> pr_main p = Http_shutdown \<and> pr_sent p = [(0, web_line)] \<and> pr_accepted p = [web_line]
     \<and> length (lt_conns (pr_live p)) = 1 \<and> tc_got (lt_conns (pr_live p) ! 0) = [web_line]"

lemma boot_serves: "\<exists>p. proc_run example_marshal id (boot_run @ rest_run) boot = Some p \<and> booted p"
  by (simp add: up_simps down_simps web_line_key booted_def no_faults_def [of Read_dir] before_def)

lemma insert_web: "snd (insert_batch no_faults None [line_date web_line] [web_line] empty_store) = Inr ()"
  using insert_batch_stores [of empty_store "[web_line]" "[line_date web_line]"] by (auto simp: map_order_def)

definition closed_down :: "process \<Rightarrow> bool" where
  "closed_down p \<longleftrightarrow> pr_main p = Closing_store \<and> pr_accepted p = [web_line]
     \<and> pr_batches p = [([web_line], True)] \<and> pr_cleanups p = [next_three_am (midnight 719163)]
     \<and> pr_retention_days p = 7
     \<and> pr_store p = fst (insert_batch no_faults None [line_date web_line] [web_line] empty_store)"

lemma boot_closes: "\<exists>p. proc_run example_marshal id (boot_run @ rest_run @ down_run) boot = Some p \<and> closed_down p"
  by (simp add: up_simps down_simps web_line_key closed_down_def no_faults_def [of Read_dir] before_def insert_web)

lemma boot_exec: "proc_run example_marshal id as boot = Some p \<Longrightarrow> proc_exec example_marshal id boot p"
  using proc_run_exec proc_start by blast

lemma web_line_date: "line_date web_line = fmt_day 719163" "row_of_line web_line \<in> set [row_of_line web_line]"
  by (simp_all add: line_date_def web_line_def ingested_line_def format_date_def)

lemma three_am_in_week: "next_three_am (midnight 719163) = \<lparr>instant = 719163 * day_ns + 10800 * second_ns, zone_off = 0\<rparr>"
  by (simp add: next_three_am_def three_am_def after_def Let_def second_ns_def day_ns_def)

lemma shutdown_loses_nothing_witness:
  "\<exists>p. proc_run example_marshal id (boot_run @ rest_run @ down_run) boot = Some p
     \<and> shard_rows (pr_store p) (line_date web_line) = [row_of_line web_line]"
proof -
  obtain p where p: "proc_run example_marshal id (boot_run @ rest_run @ down_run) boot = Some p" "closed_down p"
    using boot_closes by blast
  obtain h where h: "start_up (\<lambda>_. True) [] (Inr empty_store) None None None = Inr (boot, h)" using boot_start_up by blast
  have "kept_day p 719163"
    using p(2) by (simp add: kept_day_def closed_down_def year_1970 three_am_in_week cutoff_of_def
        retention_or_default_def before_def day_ns_def second_ns_def)
  moreover have "list_all snd (pr_batches p)" "pr_main p = Closing_store" "pr_accepted p = [web_line]"
    using p(2) by (simp_all add: closed_down_def)
  ultimately show ?thesis
    using shutdown_loses_nothing [OF h boot_exec [OF p(1)]] p(1) by (simp add: of_day_def web_line_date)
qed

lemma acknowledged_lines_stay_witness:
  "\<exists>p. proc_run example_marshal id (boot_run @ rest_run @ down_run) boot = Some p
     \<and> row_of_line web_line \<in> set (shard_rows (pr_store p) (fmt_day 719163))"
proof -
  obtain p where p: "proc_run example_marshal id (boot_run @ rest_run @ down_run) boot = Some p" "closed_down p"
    using boot_closes by blast
  obtain h where h: "start_up (\<lambda>_. True) [] (Inr empty_store) None None None = Inr (boot, h)" using boot_start_up by blast
  have "web_line \<in> set (acknowledged p)" using p(2) by (simp add: acknowledged_def closed_down_def)
  moreover have "recent_line p web_line"
    using p(2) by (simp add: recent_line_def closed_down_def three_am_in_week web_line_def ingested_line_def
        year_1970 retention_or_default_def day_ns_def second_ns_def)
  ultimately show ?thesis
    using acknowledged_lines_stay [OF h boot_exec [OF p(1)], of web_line] p(1) by (simp add: web_line_date)
qed

lemma live_tail_in_container_order_witness:
  "\<exists>p labelled. proc_run example_marshal id (boot_run @ rest_run) boot = Some p
     \<and> map snd labelled = [web_line] \<and> subseq (of_task 0 labelled) [(0, web_line)]"
proof -
  obtain p where p: "proc_run example_marshal id (boot_run @ rest_run) boot = Some p" "booted p"
    using boot_serves by blast
  obtain h where h: "start_up (\<lambda>_. True) [] (Inr empty_store) None None None = Inr (boot, h)" using boot_start_up by blast
  have "0 < length (lt_conns (pr_live p))" and s: "of_task 0 (pr_sent p) = [(0, web_line)]"
    "tc_got (lt_conns (pr_live p) ! 0) = [web_line]"
    using p(2) by (simp_all add: booted_def)
  from live_tail_in_container_order [OF h boot_exec [OF p(1)] this(1)] obtain labelled where
    "map snd labelled = [web_line]" "subseq (of_task 0 labelled) [(0, web_line)]"
    unfolding s by (metis s(1))
  with p(1) show ?thesis by (intro exI conjI)
qed

end
