(* ===== verification/Shutdown_End.thy ===== *)
theory Shutdown_End
  imports Main Prelude Go_Time Store Batch_Queue Broadcast Handler Live_Tail Cron Ingest Manager Tailing
    Config Server Server_Inv Shutdown
begin

text \<open>
  The shutdown of the process comes to its end: a lexicographic rank that every step of \<open>main\<close>, of the
  tailer, of the publisher and of the queue's worker decreases once the signal has come, and that no
  client and no cleanup increases.
\<close>

section \<open>The rank\<close>

text \<open>
  What is left for the tailer: the steps of its goroutines, the calls of the informer's handler, each
  of which may start one more goroutine, and the steps of \<open>Run\<close>.
\<close>

definition run_rank :: "run_pc \<Rightarrow> nat" where
  "run_rank r = (case r of
     Run_start \<Rightarrow> 4 | Run_syncing \<Rightarrow> 3 | Run_waiting \<Rightarrow> 2 | Run_draining \<Rightarrow> 1 | _ \<Rightarrow> 0)"

definition tailer_rank :: "manager \<Rightarrow> nat" where
  "tailer_rank m = shutdown_rank m + 5 * length (m_handler m) + run_rank (m_run m)"

definition main_rank :: "main_pc \<Rightarrow> nat" where
  "main_rank pc = (case pc of
     Serving \<Rightarrow> 9 | Http_shutdown \<Rightarrow> 8 | Waiting_mgr \<Rightarrow> 7 | Stopping_cron \<Rightarrow> 6 | Cancelling \<Rightarrow> 5
   | Closing_queue \<Rightarrow> 4 | Waiting_queue \<Rightarrow> 3 | Closing_store \<Rightarrow> 2 | _ \<Rightarrow> 0)"

definition down_rank :: "process \<Rightarrow> nat \<times> nat \<times> nat \<times> nat \<times> nat" where
  "down_rank p = (main_rank (pr_main p), tailer_rank (pr_mgr p), length (pr_calls p),
     publish_rank (lt_bc (pr_live p)), close_rank (pr_queue p))"

abbreviation down :: "((nat \<times> nat \<times> nat \<times> nat \<times> nat) \<times> (nat \<times> nat \<times> nat \<times> nat \<times> nat)) set" where
  "down \<equiv> less_than <*lex*> less_than <*lex*> less_than <*lex*> less_than <*lex*> less_than"

lemma wf_down: "wf down"
  by (intro wf_lex_prod wf_less_than)

text \<open>The steps from outside that make more work: events of Kubernetes, ticks of the queue's ticker.\<close>

definition from_outside :: "proc_action \<Rightarrow> bool" where
  "from_outside a =
     (case a of
        Tailer ta now \<Rightarrow> (case ta of Pod_seen _ \<Rightarrow> True | Pod_deleted _ _ \<Rightarrow> True | _ \<Rightarrow> False)
      | Queue qa \<Rightarrow> qa = Tick
      | _ \<Rightarrow> False)"

lemma do_op_rank: "shutdown_rank (do_op op m) \<le> shutdown_rank m + 4"
proof -
  have stop: "shutdown_rank (stop_container k n) = shutdown_rank n" for k n
  proof -
    have "length (m_tasks (stop_container k n)) = length (m_tasks n)"
      "pc_of (stop_container k n) i = pc_of n i" for i
      by (simp, simp add: stop_container_def cancel_task_pc split: option.splits)
    then show ?thesis by (simp add: shutdown_rank_def sum_list_sum_nth atLeast0LessThan)
  qed
  have start: "shutdown_rank (start_container pod c r n) \<le> shutdown_rank n + 4" for pod c r n
    by (simp add: shutdown_rank_def start_container_def pc_rank_def Let_def)
  show ?thesis
  proof (cases op)
    case (Reconcile pod cs)
    have "shutdown_rank (start_container pod (cs_name cs) (cs_restarts cs) (stop_container (Container_key pod (cs_name cs)) m))
      \<le> shutdown_rank m + 4"
      using start [of pod "cs_name cs" "cs_restarts cs"] stop by metis
    with Reconcile start [of pod "cs_name cs" "cs_restarts cs" m] show ?thesis
      by (simp add: reconcile_container_def Let_def)
  next
    case (Stop k)
    then show ?thesis by (simp add: stop)
  next
    case (Delete_marker k)
    then show ?thesis by (simp add: shutdown_rank_def)
  qed
qed

lemma tailer_rank_step:
  assumes "tl_step a m = Some m'" "m_ctx_done m" "respects_ctx a m" "a \<noteq> Cancel_ctx" "\<not> from_outside (Tailer a now)"
  shows "tailer_rank m' < tailer_rank m"
proof (cases a)
  case (Task i ta)
  then have t: "task_step i ta m = Some m'" using assms(1) by (simp split: if_splits)
  have "shutdown_rank m' < shutdown_rank m" using shutdown_rank_step assms(1-3) Task by simp
  moreover have "m_handler m' = m_handler m" "m_run m' = m_run m" using task_step_views [OF t] by simp_all
  ultimately show ?thesis by (simp add: tailer_rank_def)
next
  case Handle
  then obtain op ops where h: "m_handler m = op # ops" "m' = do_op op (m\<lparr>m_handler := ops\<rparr>)"
    using assms(1) by (auto split: list.splits)
  have "shutdown_rank (m\<lparr>m_handler := ops\<rparr>) = shutdown_rank m" by (simp add: shutdown_rank_def)
  with do_op_rank [of op "m\<lparr>m_handler := ops\<rparr>"] show ?thesis by (simp add: tailer_rank_def h)
qed (use assms in \<open>auto simp: tailer_rank_def run_rank_def shutdown_rank_def from_outside_def
    split: if_splits option.splits\<close>)

text \<open>What the clients do leaves the publisher alone.\<close>

lemma client_step_publish:
  assumes "lt_step marshal uni la s = Some s'" "la \<noteq> Live_step" "\<forall>l order. la \<noteq> Live_publish l order"
  shows "publish_rank (lt_bc s') = publish_rank (lt_bc s)"
  using assms by (cases la)
    (auto simp: conn_step_def set_conn_def publish_rank_def subscribe_def Let_def receive_from_def
      unsubscribe_delete_def unsubscribe_close_def split: if_splits option.splits)

lemma live_step_publish:
  assumes "lt_step marshal uni Live_step s = Some s'"
  shows "publish_rank (lt_bc s') < publish_rank (lt_bc s)"
proof -
  from assms have "bc_step Publish_step (lt_bc s) = Some (lt_bc s')"
    by (auto split: option.splits simp del: bc_step.simps)
  then show ?thesis
    by (cases rule: publish_step_cases)
      (auto simp: publish_rank_def publish_evict_def publish_retry_def send_def receive_from_def)
qed

text \<open>Every step decreases the rank, but those of clients and of the cron, which leave it as it is.\<close>

lemma down_step:
  assumes "proc_act marshal uni a p = Some p'" "proc_ok a p" "ctx_inv p" "bq_inv (pr_queue p)"
    and "pr_main p \<notin> {Serving, Died}" "\<not> from_outside a"
  shows "(down_rank p', down_rank p) \<in> down \<or> \<not> shutdown_action a \<and> down_rank p' = down_rank p"
  using assms(1)
proof (cases rule: proc_act_cases)
  case (1 ta now m')
  have "tailer_rank m' < tailer_rank (pr_mgr p)"
    using tailer_rank_step [OF 1(4) _ _ 1(2)] assms(2,3,5,6) 1(1) by (simp add: proc_ok_def ctx_inv_def)
  with 1 show ?thesis by (simp add: down_rank_def)
next
  case (2 k order)
  then have k: "k < length (pr_calls p)" by (auto simp: fanout_publish_def split: if_splits)
  from 2(2) have same: "pr_mgr p' = pr_mgr p" "pr_main p' = pr_main p"
    and "pr_calls p' = take k (pr_calls p) @ drop (Suc k) (pr_calls p)"
    by (auto elim: fanout_publish_views)
  from this(3) k have "length (pr_calls p') < length (pr_calls p)" by (cases "pr_calls p") auto
  with same show ?thesis by (simp add: down_rank_def)
next
  case (3 la s)
  then show ?thesis
    using live_step_publish [of marshal uni "pr_live p" s] client_step_publish [OF 3(3) _ 3(2)]
    by (cases "la = Live_step") (simp_all add: down_rank_def shutdown_action_def del: lt_step.simps)
next
  case (4 qa q')
  have "worker_action qa" using 4(1-3) assms(6) by (auto simp: worker_action_def from_outside_def split: bq_action.split)
  then have "close_rank q' < close_rank (pr_queue p)" using worker_step_rank [OF 4(4)] assms(4) by simp
  with 4 show ?thesis by (simp add: down_rank_def)
next
  case (5 ca pc s)
  then show ?thesis by (simp add: down_rank_def shutdown_action_def close_rank_def)
next
  case (6 q')
  then show ?thesis by (simp add: down_rank_def main_rank_def)
next
  case 7
  then show ?thesis by (simp add: down_rank_def main_rank_def)
next
  case (8 main m c)
  have "main_rank main < main_rank (pr_main p)" using 8(3) assms(5) by (auto simp: main_rank_def)
  moreover have "pr_main p' = main" using 8(1) by simp
  ultimately show ?thesis by (simp add: down_rank_def)
qed

lemma proc_act_runs:
  "proc_act marshal uni a p = Some p' \<Longrightarrow> pr_main p \<notin> {Serving, Died} \<Longrightarrow>
   pr_main p' \<noteq> Serving \<and> (a \<noteq> Http_fails \<longrightarrow> pr_main p' \<noteq> Died)"
  by (cases a) (auto split: if_splits option.splits run_pc.splits lt_action.splits bq_action.splits
      elim!: fanout_publish_views simp del: tl_step.simps lt_step.simps bq_step.simps cron_step.simps)

section \<open>The end\<close>

text \<open>A state that the process can be in after the signal.\<close>

definition shutting_down ::
  "(tail_event \<Rightarrow> string option) \<Rightarrow> (string \<Rightarrow> string) \<Rightarrow> store \<Rightarrow> process \<Rightarrow> bool" where
  "shutting_down marshal uni st p \<longleftrightarrow> proc_inv marshal uni st p \<and> ctx_inv p \<and> pr_main p \<notin> {Serving, Died}"

lemma shutting_down_step:
  assumes "shutting_down marshal uni st p" "proc_ok a p" "proc_step marshal uni a p = Some p'"
  shows "pr_main p' \<noteq> Died \<Longrightarrow> shutting_down marshal uni st p'"
    and "a \<noteq> Http_fails \<Longrightarrow> pr_main p' \<noteq> Died"
    and "\<not> from_outside a \<Longrightarrow> (down_rank p', down_rank p) \<in> down \<or> \<not> shutdown_action a \<and> down_rank p' = down_rank p"
proof -
  have act: "proc_act marshal uni a p = Some p'" using assms(3) by (simp add: proc_step_def split: if_splits)
  have inv: "proc_inv marshal uni st p" "ctx_inv p" "pr_main p \<notin> {Serving, Died}"
    using assms(1) by (simp_all add: shutting_down_def)
  note runs = proc_act_runs [OF act inv(3)]
  show "shutting_down marshal uni st p'" if "pr_main p' \<noteq> Died"
    using proc_inv_step [OF inv(1) assms(2,3)] ctx_inv_step [OF inv(2) act] runs that by (simp add: shutting_down_def)
  show "a \<noteq> Http_fails \<Longrightarrow> pr_main p' \<noteq> Died" using runs by blast
  have "bq_inv (pr_queue p)" using inv(1) by (simp add: proc_inv_def main_inv_def)
  then show "\<not> from_outside a \<Longrightarrow> (down_rank p', down_rank p) \<in> down \<or> \<not> shutdown_action a \<and> down_rank p' = down_rank p"
    using down_step [OF act assms(2) inv(2) _ inv(3)] by blast
qed

lemma shutdown_action_inside: "shutdown_action a \<Longrightarrow> \<not> from_outside a \<and> a \<noteq> Http_fails"
  by (auto simp: shutdown_action_def from_outside_def worker_action_def split: proc_action.splits action.splits)

lemma shutdown_run:
  assumes "shutting_down marshal uni st p"
  shows "\<exists>as p'. list_all shutdown_action as \<and> proc_run marshal uni as p = Some p' \<and> pr_main p' = Exited"
  using assms
proof (induction "down_rank p" arbitrary: p rule: wf_induct_rule [OF wf_down])
  case 1
  show ?case
  proof (cases "pr_main p = Exited")
    case True
    then show ?thesis by (intro exI [of _ "[]"] exI [of _ p]) simp
  next
    case False
    with 1(2) obtain a q where a: "shutdown_action a" "proc_ok a p" "proc_step marshal uni a p = Some q"
      using shutdown_enabled [of marshal uni st p] by (auto simp: shutting_down_def)
    note step = shutting_down_step [OF 1(2) a(2,3)]
    have "(down_rank q, down_rank p) \<in> down" "shutting_down marshal uni st q"
      using step shutdown_action_inside [OF a(1)] a(1) by blast+
    with 1(1) obtain as p' where "list_all shutdown_action as" "proc_run marshal uni as q = Some p'"
      "pr_main p' = Exited" by blast
    with a show ?thesis by (intro exI [of _ "a # as"] exI [of _ p']) simp
  qed
qed

text \<open>
  C8: a shutdown is never stuck and comes to its end. From every state after the signal, steps of
  \<open>main\<close>, of the tailer's goroutines, of the publisher and of the queue's worker alone bring \<open>main\<close> to
  return, whatever the clients, Kubernetes and the retention cron have done and leave undone: none of
  these goroutines waits for another one in a circle. And no run takes such steps for ever, however it
  is scheduled, with clients that come and go and a cron that never stops, as long as Kubernetes sends
  no more events and the ticker of the queue does not tick.
\<close>

theorem shutdown_ends:
  assumes "start_up memory env (Inr st) None None None = Inr (p0, h)" "proc_exec marshal uni p0 p"
    "pr_main p \<notin> {Serving, Died}"
  shows "(\<exists>as p'. list_all shutdown_action as \<and> proc_run marshal uni as p = Some p' \<and> pr_main p' = Exited)
    \<and> \<not> (\<exists>act f. f 0 = p
          \<and> (\<forall>i. proc_ok (act i) (f i) \<and> proc_step marshal uni (act i) (f i) = Some (f (Suc i))
                 \<and> \<not> from_outside (act i))
          \<and> infinite {i :: nat. shutdown_action (act i)})"
proof -
  have p: "shutting_down marshal uni st p"
    using proc_exec_inv [OF assms(2) start_up_inv [OF assms(1)]] proc_exec_ctx [OF assms(2) start_up_ctx [OF assms(1)]]
      assms(3) by (simp add: shutting_down_def)
  have "finite {i :: nat. shutdown_action (act i)}"
    if f: "f 0 = p" "\<forall>i. proc_ok (act i) (f i) \<and> proc_step marshal uni (act i) (f i) = Some (f (Suc i))
      \<and> \<not> from_outside (act i)" for act f
  proof -
    have "pr_main (f i) \<noteq> Died" for i using f(2) [rule_format, of i] by (auto simp: proc_step_def)
    then have s: "shutting_down marshal uni st (f i)" for i
      using p f shutting_down_step(1) by (induction i) (simp, blast)
    have step: "(down_rank (f (Suc i)), down_rank (f i)) \<in> down
      \<or> \<not> shutdown_action (act i) \<and> down_rank (f (Suc i)) = down_rank (f i)" for i
      using shutting_down_step(3) [OF s [of i]] f(2) by blast
    then have "finite {i. (down_rank (f (Suc i)), down_rank (f i)) \<in> down}"
      using finite_descents [OF wf_down, of "\<lambda>i. down_rank (f i)"] by blast
    moreover have "{i. shutdown_action (act i)} \<subseteq> {i. (down_rank (f (Suc i)), down_rank (f i)) \<in> down}"
      using step by blast
    ultimately show ?thesis by (rule rev_finite_subset)
  qed
  with shutdown_run [OF p] show ?thesis by blast
qed

lemma shutdown_ends_witness:
  "\<exists>p as p'. proc_run example_marshal id (boot_run @ rest_run) boot = Some p \<and> pr_main p = Http_shutdown
     \<and> proc_run example_marshal id as p = Some p' \<and> pr_main p' = Exited"
proof -
  obtain p where p: "proc_run example_marshal id (boot_run @ rest_run) boot = Some p" "booted p"
    using boot_serves by blast
  obtain h where h: "start_up (\<lambda>_. True) [] (Inr empty_store) None None None = Inr (boot, h)" using boot_start_up by blast
  have "pr_main p = Http_shutdown" using p(2) by (simp add: booted_def)
  with shutdown_ends [OF h boot_exec [OF p(1)]] p(1) show ?thesis by auto
qed

end
