(* ===== verification/Found.thy ===== *)
theory Found
  imports Main Prelude Go_Strings Go_Time Store Paging Search Known Retention Batch_Queue Broadcast Handler
    Live_Tail Cron Ingest Manager Tailing Config Server Server_Inv Shutdown
begin

text \<open>
  From the log to the search: a line that the process has stored is among the results of every search
  that it matches.
\<close>

section \<open>A stored row is a hit\<close>

text \<open>What a search asks of a row.\<close>

definition row_matches :: "fts_engine \<Rightarrow> search_options \<Rightarrow> log_row \<Rightarrow> bool" where
  "row_matches eng opts row \<longleftrightarrow> conditions_ok opts row
     \<and> (o_query opts = [] \<or> fe_match eng (sanitize_match_query (o_query opts)) (r_line row))"

lemma row_hit:
  assumes "row \<in> set (shard_rows s d)" "d \<in> set dates" "row_matches eng opts row"
  shows "\<exists>h \<in> set (matching_hits eng opts s dates). result_of_row eng opts row (rr_result (escape_result h))"
proof -
  obtain n where n: "(n, row) \<in> set (table_rows s d)" using assms(1) by (auto simp: shard_rows_table_rows)
  let ?h = "if o_query opts = [] then raw_of (shard_alias d) r_line (\<lambda>_. float_zero) (n, row)
    else raw_of (shard_alias d) (\<lambda>row. fe_snippet eng (sanitize_match_query (o_query opts)) (r_line row))
      (fe_bm25 eng (sanitize_match_query (o_query opts)) (table_rows s d)) (n, row)"
  have "?h \<in> set (shard_select eng opts d (table_rows s d))"
    using n assms(3) by (auto simp: shard_select_def Let_def row_matches_def)
  then have "?h \<in> set (matching_hits eng opts s dates)" using assms(2) by (auto simp: matching_hits_def)
  moreover have "result_of_row eng opts row (rr_result (escape_result ?h))"
    using assms(3) by (auto simp: result_of_row_def row_matches_def conditions_ok_iff raw_of_def escape_result_def)
  ultimately show ?thesis by blast
qed

text \<open>A range of at most ten days leaves no shard out.\<close>

definition short_range :: "search_options \<Rightarrow> bool" where
  "short_range opts \<longleftrightarrow> range_in_years (o_start opts) (o_end opts)
     \<and> last_day (o_start opts) (o_end opts) - day_of (o_start opts) < int max_attached_shards"

lemma short_range_dates:
  assumes "short_range opts" "day_of (o_start opts) \<le> n" "n \<le> last_day (o_start opts) (o_end opts)"
    and "shard_rows s (fmt_day n) \<noteq> []"
  shows "fmt_day n \<in> set (searched_dates no_faults opts s)"
proof -
  let ?all = "stat_dates no_faults s (o_start opts) (o_end opts)"
  have "length ?all \<le> length [day_of (o_start opts)..last_day (o_start opts) (o_end opts)]"
    using length_filter_le unfolding stat_dates_upto by (metis length_map)
  then have "length ?all \<le> max_attached_shards"
    using assms(1) unfolding short_range_def max_attached_shards_def length_upto by linarith
  then have "searched_dates no_faults opts s = ?all"
    by (simp add: searched_dates_def existing_shard_dates_def Let_def)
  moreover have "all_rows s (fmt_day n) \<noteq> []"
    using assms(4) by (auto simp: all_rows_def shard_rows_def split: option.splits fts_table.splits)
  then have "stat_ok no_faults s (fmt_day n)" by (rule table_stat)
  ultimately show ?thesis using assms(2,3) by (simp add: stat_dates_upto)
qed

section \<open>What a response leaves out\<close>

lemma search_single_page:
  assumes "search eng other no_faults ctx_err opts s = Inr page" "o_cursor opts = []" "p_next_cursor page = []"
    and "attach_shards no_faults s (searched_dates no_faults opts s) \<noteq> []"
    and "hit \<in> set (matching_hits eng opts s (attach_shards no_faults s (searched_dates no_faults opts s)))"
  shows "rr_result (escape_result hit) \<in> set (p_results page)"
proof -
  let ?b = "o_query opts = []" and ?n = "page_limit opts"
  let ?att = "attach_shards no_faults s (searched_dates no_faults opts s)"
  let ?q = "query_rows (search_key ?b) (after_cursor ?b) (Suc ?n) (matching_hits eng opts s ?att) None"
  obtain dates capped where e: "existing_shard_dates no_faults s (o_start opts) (o_end opts) = (dates, capped)"
    by fastforce
  then have d: "searched_dates no_faults opts s = dates" by (simp add: searched_dates_def)
  have ne: "dates \<noteq> []" using assms(4) unfolding d by (auto simp: attach_shards_def)
  have "\<exists>rows raw. run_query eng no_faults opts s ?att ?n None = Inr rows
      \<and> scan_rows no_faults 0 rows = Inr raw \<and> page = make_page ?b ?n raw"
    using assms(1,2,4) ne by (auto simp: search_def e d Let_def split: option.splits sum.splits if_splits)
  then have page: "page = make_page ?b ?n (map escape_result ?q)" by (auto dest!: run_query_Inr scan_rows_Inr)
  then have "length ?q \<le> ?n" using assms(3) by (auto simp: make_page_def split: if_splits)
  then have "?q = sort_key (search_key ?b) (matching_hits eng opts s ?att)"
    by (auto simp: query_rows_def select_page_def min_def split: if_splits)
  with \<open>length ?q \<le> ?n\<close> assms(5) show ?thesis by (simp add: page make_page_def)
qed

text \<open>
  C34: \<open>/api/search\<close> leaves nothing out: when no call fails, a response over at most ten days to a request
  without a cursor that names no next page has, for every stored row of these days with the pod, a level at
  or above the minimum and the words that the query string asks for, a result that shows it.
\<close>

theorem search_response_complete:
  assumes "handle_search w h r = (resp, h')" "rs_body resp = Json_search sp" "w_faults w = no_faults"
    and "query_get r ''cursor'' = []" "sp_next_cursor sp = []"
    and "parse_date (sp_start sp) = Some (midnight first)" "parse_date (sp_end sp) = Some (midnight final)"
    and "final < first + 10" "first \<le> n" "n \<le> final"
    and "row \<in> set (shard_rows (w_store w) (fmt_day n))" "row_answers (w_engine w) r row"
  shows "\<exists>x \<in> set (sp_results sp). row_shown (w_engine w) r row x"
proof -
  obtain a b page where ab: "in_years a" "in_years b" "sp_start sp = fmt_day a" "sp_end sp = fmt_day b"
    and page: "run_search w (options_of r (midnight a) (midnight b)) = Inr page"
    and sp: "sp = search_response_of r (fmt_day a) (fmt_day b) page"
    by (rule handle_search_200 [OF assms(1,2)])
  have inj: "midnight x = midnight y \<Longrightarrow> x = y" for x y
    by (metis linorder_neqE midnight_before before_def less_irrefl)
  have eq: "a = first" "b = final"
    using ab assms(6,7) by (auto simp: parse_date_fmt_day intro: inj)
  let ?o = "options_of r (midnight a) (midnight b)" and ?s = "w_store w"
  have o: "o_start ?o = midnight a" "o_end ?o = midnight b" "o_cursor ?o = []"
    using assms(4) by (simp_all add: options_of_def)
  have "short_range ?o"
    unfolding short_range_def range_in_years_def o last_day_midnights max_attached_shards_def
    using ab(1,2) assms(8) eq by simp
  moreover have "day_of (o_start ?o) \<le> n" "n \<le> last_day (o_start ?o) (o_end ?o)"
    unfolding o last_day_midnights using assms(9,10) eq by simp_all
  moreover have "shard_rows ?s (fmt_day n) \<noteq> []" using assms(11) by auto
  ultimately have "fmt_day n \<in> set (searched_dates no_faults ?o ?s)" by (rule short_range_dates)
  moreover have "table_of ?s (fmt_day n) \<noteq> None" using assms(11) by (cases "table_of ?s (fmt_day n)") (simp_all add: shard_rows_def)
  ultimately have att: "fmt_day n \<in> set (attach_shards no_faults ?s (searched_dates no_faults ?o ?s))"
    by (simp add: attach_shards_def no_faults_def [of "Attach (fmt_day n)"])
  have "row_matches (w_engine w) ?o row"
    using assms(12) unfolding row_answers_def row_matches_def conditions_ok_iff level_filter_iff options_query
    by (simp add: options_of_def)
  then obtain hit where hit: "hit \<in> set (matching_hits (w_engine w) ?o ?s (attach_shards no_faults ?s (searched_dates no_faults ?o ?s)))"
    "result_of_row (w_engine w) ?o row (rr_result (escape_result hit))"
    using row_hit [OF assms(11) att] by blast
  have "rr_result (escape_result hit) \<in> set (p_results page)"
  proof (rule search_single_page [OF _ o(3) _ _ hit(1)])
    show "search (w_engine w) (w_float w) no_faults (w_ctx_err w) ?o ?s = Inr page"
      using page by (simp add: run_search_def assms(3))
    show "p_next_cursor page = []" using assms(5) by (simp add: sp search_response_of_def)
    show "attach_shards no_faults ?s (searched_dates no_faults ?o ?s) \<noteq> []" using att by auto
  qed
  then show ?thesis using hit(2) unfolding result_answers by (auto simp: sp search_response_of_def)
qed

section \<open>The property\<close>

text \<open>
  C6: what was logged can be found: a line whose batch was stored, and that was recent at every cleanup
  since, is among the results of every search over at most ten days that has its day in range and whose
  filters and words it matches, at every moment of every execution: following the pages to the end
  gives a result with its fields and its text, escaped or with the matches marked. It relies on the
  engine for a number as rank, and on the shards of the range to be of the current schema.
\<close>

theorem logged_line_found:
  assumes "start_up memory env (Inr st) None None None = Inr (p0, h)" "store_inv st" "proc_exec marshal uni p0 p"
    and "l \<in> set (acknowledged p)" "recent_line p l"
    and "searchable eng opts (pr_store p)" "engine_ok eng" "rowids_fit (pr_store p)" "o_cursor opts = []"
    and "short_range opts" "day_of (o_start opts) \<le> day_of (l_timestamp l)"
      "day_of (l_timestamp l) \<le> last_day (o_start opts) (o_end opts)" "row_matches eng opts (row_of_line l)"
  shows "\<exists>pages results. collect_pages eng other no_faults pages opts (pr_store p) = Inr results
    \<and> (\<exists>r \<in> set results. result_of_row eng opts (row_of_line l) r)"
proof -
  let ?s = "pr_store p" and ?n = "day_of (l_timestamp l)"
  let ?hits = "matching_hits eng opts ?s (searched_dates no_faults opts ?s)"
  have row: "row_of_line l \<in> set (shard_rows ?s (fmt_day ?n))"
    using acknowledged_stored [OF assms(1,3-5)] by (simp add: line_date_def format_date_def)
  then have "shard_rows ?s (fmt_day ?n) \<noteq> []" by auto
  with row short_range_dates [OF assms(10-12)] obtain hit where
    hit: "hit \<in> set ?hits" "result_of_row eng opts (row_of_line l) (rr_result (escape_result hit))"
    using row_hit [OF _ _ assms(13)] by blast
  have "proc_inv marshal uni st p" using proc_exec_inv [OF assms(3) start_up_inv [OF assms(1)]] .
  then have "store_inv ?s" using assms(2) by (simp add: proc_inv_def disk_inv_def)
  then have "collect_pages eng other no_faults (Suc (length ?hits)) opts ?s =
      Inr (map (rr_result \<circ> escape_result) (sort_key (search_key (o_query opts = [])) ?hits))"
    using collect_pages_hits [OF assms(6,7) _ assms(8,9)] by blast
  moreover have "rr_result (escape_result hit) \<in>
      set (map (rr_result \<circ> escape_result) (sort_key (search_key (o_query opts = [])) ?hits))"
    using hit(1) by simp
  ultimately show ?thesis using hit(2) by blast
qed

text \<open>A search for the day of the line, in the store that the example leaves.\<close>

lemma web_store_rows:
  assumes "closed_down p"
  shows "store_inv (pr_store p)"
    "shard_rows (pr_store p) d = (if d = fmt_day 719163 then [row_of_line web_line] else [])"
proof -
  obtain s where s: "insert_batch no_faults None [line_date web_line] [web_line] empty_store = (s, Inr ())"
    "store_inv s" "\<forall>d. shard_rows s d = shard_rows empty_store d @ map row_of_line (filter (\<lambda>l. line_date l = d) [web_line])"
    using insert_batch_stores [of empty_store "[web_line]" "[line_date web_line]"] by (auto simp: map_order_def)
  moreover have "pr_store p = s" using assms s(1) by (simp add: closed_down_def)
  ultimately show "store_inv (pr_store p)"
    "shard_rows (pr_store p) d = (if d = fmt_day 719163 then [row_of_line web_line] else [])"
    by (auto simp: web_line_date(1) shard_rows_def table_of_def empty_store_def)
qed

lemma web_search:
  assumes "closed_down p"
  shows "searchable example_engine (example_search ''up'') (pr_store p)" "rowids_fit (pr_store p)"
    "short_range (example_search ''up'')"
proof -
  let ?o = "example_search ''up''" and ?s = "pr_store p"
  note rows = web_store_rows [OF assms]
  have len: "length (table_rows ?s d) \<le> 1" for d
    using arg_cong [OF rows(2), of length d] by (simp add: shard_rows_table_rows split: if_splits)
  have "length (table_rows ?s d) < 2 ^ 63" for d using len [of d] by (rule le_less_trans) simp
  then show "rowids_fit ?s" by (simp add: rowids_fit_def)
  have range: "range_in_years (o_start ?o) (o_end ?o)" "last_day (o_start ?o) (o_end ?o) = 719163"
    "day_of (o_start ?o) = 719163"
    using example_in_years by (simp_all add: range_in_years_def example_search_def last_day_def)
  then show "short_range ?o" by (simp add: short_range_def max_attached_shards_def)
  have "\<exists>rows. table_of ?s (fmt_day 719163) = Some (Fts_table rows)"
    using rows(2) [of "fmt_day 719163"] by (auto simp: shard_rows_def split: option.splits fts_table.splits)
  moreover have "d = fmt_day 719163" if "d \<in> set (searched_dates no_faults ?o ?s)" for d
  proof -
    have "set (searched_dates no_faults ?o ?s) \<subseteq> set (stat_dates no_faults ?s (o_start ?o) (o_end ?o))"
      using existing_dates_suffix [of no_faults ?s "o_start ?o" "o_end ?o"] set_drop_subset
      unfolding searched_dates_def by metis
    with that range show ?thesis by (auto simp: stat_dates_upto split: if_splits)
  qed
  ultimately show "searchable example_engine ?o ?s"
    using range(1) by (auto simp: searchable_def current_shard_def example_engine_def)
qed

lemma logged_line_found_witness:
  "\<exists>p pages results. proc_run example_marshal id (boot_run @ rest_run @ down_run) boot = Some p
     \<and> collect_pages example_engine (\<lambda>_. None) no_faults pages (example_search ''up'') (pr_store p) = Inr results
     \<and> (\<exists>r \<in> set results. sr_pod r = ''web-0'' \<and> sr_snippet r = ''INFO up'')"
proof -
  obtain p where p: "proc_run example_marshal id (boot_run @ rest_run @ down_run) boot = Some p" "closed_down p"
    using boot_closes by blast
  obtain h where h: "start_up (\<lambda>_. True) [] (Inr empty_store) None None None = Inr (boot, h)" using boot_start_up by blast
  have "web_line \<in> set (acknowledged p)" using p(2) by (simp add: acknowledged_def closed_down_def)
  moreover have "recent_line p web_line"
    using p(2) by (simp add: recent_line_def closed_down_def three_am_in_week web_line_def ingested_line_def
        year_1970 retention_or_default_def day_ns_def second_ns_def)
  moreover have "row_matches example_engine (example_search ''up'') (row_of_line web_line)"
    by (simp add: row_matches_def conditions_ok_def example_search_def levels_at_or_above_def severity_of_cases
        example_engine_def)
  moreover have "store_inv empty_store" by simp
  moreover have "day_of (l_timestamp web_line) = 719163" by (simp add: web_line_def ingested_line_def)
  ultimately obtain pages results r where r:
    "collect_pages example_engine (\<lambda>_. None) no_faults pages (example_search ''up'') (pr_store p) = Inr results"
    "r \<in> set results" "result_of_row example_engine (example_search ''up'') (row_of_line web_line) r"
    using logged_line_found [OF h _ boot_exec [OF p(1)] _ _ web_search(1) [OF p(2)] example_engine_ok
        web_search(2) [OF p(2)] _ web_search(3) [OF p(2)], of web_line "\<lambda>_. None"]
    by (auto simp: example_search_def last_day_def)
  moreover have "escape_snippet ''INFO up'' = ''INFO up''" by code_simp
  then have "sr_pod r = ''web-0'' \<and> sr_snippet r = ''INFO up''"
    using r(3) by (simp add: result_of_row_def row_of_line_def web_line_def ingested_line_def web_key_def
        example_search_def example_engine_def)
  ultimately show ?thesis using p(1) by blast
qed

lemma search_response_complete_witness:
  "\<exists>sp. rs_body (fst (handle_search example_world one_day_handler plain_request)) = Json_search sp
     \<and> (\<exists>x \<in> set (sp_results sp). row_shown example_engine plain_request example_row x)"
proof -
  obtain resp h' where r: "handle_search example_world one_day_handler plain_request = (resp, h')" by fastforce
  obtain sp where sp: "rs_body resp = Json_search sp" "sp_start sp = fmt_day 719163" "sp_end sp = fmt_day 719163"
    "sp_next_cursor sp = []"
    using example_handle_search r by auto
  have "parse_date (fmt_day 719163) = Some (midnight 719163)" by (rule parse_date_fmt_day [OF example_in_years])
  moreover have "example_row \<in> set (shard_rows (w_store example_world) (fmt_day 719163))"
    by (simp add: example_world_def shard_rows_def example_table)
  moreover have "row_answers (w_engine example_world) plain_request example_row"
    by (simp add: row_answers_def plain_request_def query_get_def severity_of_cases Go_Strings.fields_def)
  moreover have "w_faults example_world = no_faults" "query_get plain_request ''cursor'' = []"
    by (simp_all add: example_world_def plain_request_def query_get_def)
  ultimately show ?thesis
    using search_response_complete [OF r sp(1), of 719163 719163 719163 example_row] sp r
    by (auto simp: example_world_def)
qed

end
