(* ===== verification/Spec2Isabelle.thy ===== *)
theory Spec2Isabelle
  imports Main Prelude Go_Strings Go_Time Go_Time_Text Levels Query_Text Cursor Metrics Store Paging
    Search Known Retention Batch_Queue Drop_Warn Broadcast Ingest Manager Tailing Stream_Lines Handler
    Go_Duration Config Live_Tail Cron Server Server_Inv Shutdown Shutdown_End Found
begin

text \<open>
  A verification development for grepod, a program that tails the logs of the pods of one Kubernetes
  namespace, stores them in one SQLite FTS5 file for each day, and serves a search over them.

  \<^bold>\<open>The program.\<close> A goroutine for each container (\<open>internal/tailer\<close>) reads its log stream and hands each
  line to a sink, which puts it into a bounded queue and publishes it to live subscribers
  (\<open>cmd/server\<close>, \<open>internal/storage/queue.go\<close>, \<open>broadcast.go\<close>). The queue's worker inserts batches into
  the store (\<open>internal/storage/sqlite.go\<close>), which also answers searches and deletes old days. The HTTP
  handlers (\<open>internal/api\<close>) search the store and stream from the broadcaster.

  \<^bold>\<open>Theories.\<close>
  \<^item> \<open>Prelude\<close>, \<open>Go_Strings\<close>, \<open>Go_Time\<close>, \<open>Go_Time_Text\<close>: decimal digits, association lists, and what the
    program uses of Go's \<open>strings\<close>, \<open>strconv\<close> and \<open>time\<close>, the calendar and its two text layouts included.
    \<open>Go_Duration\<close>: \<open>time.ParseDuration\<close>, with the \<open>float64\<close> product that a fraction goes through.
  \<^item> \<open>Levels\<close> (\<open>tailer/level.go\<close>, the ranking in \<open>sqlite.go\<close>): the regular expression finds the first word
    that is a level; every level found is ranked; the filter is upward closed.
  \<^item> \<open>Query_Text\<close>: \<open>sanitizeMatchQuery\<close> yields string literals only, \<open>escapeSnippet\<close> yields no markup but
    its marks and shows the line. \<open>Cursor\<close>: encoding and decoding a cursor, a round trip.
  \<^item> \<open>Metrics\<close> (\<open>internal/metrics\<close>): counters and histograms as values.
  \<^item> \<open>Store\<close>: the files and open handles, \<open>getOrOpenDB\<close> with the schema migration, \<open>InsertBatch\<close>. A
    batch is complete when nothing fails, and all or nothing for each day when something does. The
    locale \<open>line_store\<close> is what the queue relies on, interpreted on \<open>InsertBatch\<close>.
  \<^item> \<open>Paging\<close>, \<open>Search\<close>: the keys of a result, the locale \<open>keyset_pager\<close> (pages after a cursor are complete
    and disjoint), its interpretation on the keys that the code uses, and \<open>Search\<close> itself.
  \<^item> \<open>Known\<close>: \<open>KnownPods\<close> and \<open>LastSeen\<close>. \<open>Retention\<close>: \<open>CleanupOldDBs\<close>, the vacuum, the nightly cron.
  \<^item> \<open>Batch_Queue\<close>: the queue as atomic steps of producers, worker and closer; conservation of lines,
    bounds, termination of \<open>Close\<close>, and that a closed queue has stored what it accepted. \<open>Drop_Warn\<close>:
    \<open>recordDrop\<close> run concurrently. \<open>Broadcast\<close>: \<open>Subscribe\<close>, unsubscribe and \<open>Publish\<close>.
  \<^item> \<open>Ingest\<close>: \<open>bufio.Scanner\<close>, stamping, markers. \<open>Manager\<close>: the state of the tailer, \<open>reconcilePod\<close>,
    \<open>stopPod\<close>, and the program of a \<open>tailContainer\<close> goroutine as atomic steps. \<open>Tailing\<close>: the executions in
    which informer events, goroutines and \<open>Run\<close> interleave; one goroutine for each container, nothing
    sent after \<open>Run\<close> has returned, termination of the shutdown, where a stream resumes (the locale
    \<open>marker_store\<close>, interpreted on \<open>LastSeen\<close>). \<open>Stream_Lines\<close>: in these executions a goroutine hands
    over each line of a stream once, whatever comes in between.
  \<^item> \<open>Handler\<close>: the HTTP handlers, with what a search response and a live tail contain.
  \<^item> \<open>Live_Tail\<close>: the connections of \<open>/api/tail\<close> as goroutines on the broadcaster; what each of them
    writes, each with a channel of its own, and the subscriptions in the map are those of the open streams.
  \<^item> \<open>Cron\<close>: the retention cron as steps that other goroutines can come between; the bodies of its loops
    are those of \<open>Retention\<close>.
  \<^item> \<open>Config\<close>: the configuration. \<open>Server\<close>: the whole process, a composition of the tailer, the sink,
    the queue, the live tail, the cron and \<open>main\<close>, and \<open>start_up\<close>, what \<open>main\<close> does before it serves.
    \<open>Server_Inv\<close>: the invariant of the process. \<open>Shutdown\<close>: what follows from it: acknowledged lines
    stay while the cron deletes old days, a live tail has the order of each container, and a shutdown
    loses nothing that the store took. \<open>Shutdown_End\<close>: it is never stuck and ends.
    \<open>Found\<close>: a response to a search leaves no row out that the query string asks for, and a line that was
    stored is found by the searches that it matches.

  \<^bold>\<open>State and failures.\<close> A Go struct is a record with the same fields, a map whose keys are enumerated an
  association list; the order of a map range is an argument that any permutation may be. A call that may
  fail is named by a value of \<open>call\<close>, and \<open>faults\<close> says which calls fail and how, so every error branch
  of the source is a branch of the model. A goroutine has a program counter; \<open>*_step\<close> is one atomic step
  (one lock section, one channel operation, one atomic instruction), and \<open>*_exec\<close> the executions, in which
  the scheduler's choices are the sequence of actions.

  \<^bold>\<open>Bounds.\<close> Every function is total. Following all pages needs one more round than there are hits, and
  that is proved to be enough. The shutdowns have ranks: \<open>close_rank\<close> for the queue, \<open>shutdown_rank\<close> for the
  tailer, \<open>down_rank\<close> for the process. Counters, durations and days are unbounded integers;
  what is read from text is checked for its 64 bits (\<open>parse_int64\<close>, \<open>parse_duration\<close>), restart
  counts are 32-bit words, and the queue's \<open>make\<close> calls have the size limits and the \<open>int\<close> of Go on a 64-bit
  target, with what the system grants as the parameter \<open>memory\<close>; no other allocation fails. The days of
  a default search are at most ten shards, the last ones (\<open>max_attached_shards\<close>). The rows of a shard of the
  old schema count as none, which is what a search returns of it (\<open>shard_rows\<close>); they are lost when a
  cleanup opens the shard, as \<open>Retention\<close> states.

  \<^bold>\<open>Atomicity.\<close> The steps of the process are those of its parts. \<open>InsertBatch\<close>, the deletion of one
  shard and the vacuum of one shard are one step each; the locks of the store cover less, but what they
  leave open changes no row of a shard that both touch unless its day is being deleted. \<open>srv.Shutdown\<close>
  may return at any time, as it does when its ten seconds are over; nobody waits for the cron, which may
  still run until \<open>main\<close> has returned.

  \<^bold>\<open>Not modelled.\<close> SQLite and its FTS5 module (a table of rows for each file; what MATCH, bm25 and snippet
  return is the parameter \<open>fts_engine\<close>), client-go (a sequence of choices; the hypothesis \<open>respects_ctx\<close>
  says that it opens no stream under a cancelled context), Unicode beyond what a comparison with ASCII can
  see, floating point beyond the text of a cursor and the fraction of a duration, \<open>encoding/json\<close> (the
  handlers return the value that is encoded; \<open>/api/tail\<close> has it as the parameter \<open>marshal\<close>), daylight
  saving time, a wall clock that is set back while lines are dropped (\<open>Drop_Warn\<close>), and overflow in
  \<open>AddDate\<close>. A search is a function of the store and no step of the process:
  it reads the shards through a connection of its own and leaves the store as it is. Logging, the
  Prometheus registry, the file server, the web page, the charts and manifests are left out.
\<close>

end
